theory Spec2Isabelle
  imports Complex_Main "HOL-Library.Extended_Nat"
begin

section \<open>Grid and node model\<close>

text \<open>
  A node object as \<open>createNode\<close> of the visualizer component builds it, with the fields
  the two search engines read and write. Numbers that hold a cell index are naturals;
  \<open>distance\<close> and \<open>totalDistance\<close> are naturals or JavaScript's \<open>Infinity\<close>, hence
  \<open>enat\<close>. \<open>createNode\<close> does not create \<open>heuristic\<close> and \<open>totalDistance\<close>;
  \<open>astar\<close> assigns both on every node before it reads them.

  Node objects are shared by reference between the grid, the work list of a search and
  the \<open>previousNode\<close> links. A reference is modelled by the position of the object in
  the grid, and the grid is the store: reading a field through a reference is
  \<open>nodeAt\<close>, writing one is \<open>updNode\<close>.
\<close>

type_synonym pos = "nat \<times> nat"

record node =
  row :: nat
  col :: nat
  isStart :: bool
  isEnd :: bool
  isWall :: bool
  isCheckpoint :: bool
  isVisited :: bool
  distance :: enat
  totalDistance :: enat
  heuristic :: nat
  previousNode :: "pos option"

type_synonym grid = "node list list"

definition nodeAt :: "grid \<Rightarrow> pos \<Rightarrow> node" where
  "nodeAt g p = g ! fst p ! snd p"

definition updNode :: "grid \<Rightarrow> pos \<Rightarrow> (node \<Rightarrow> node) \<Rightarrow> grid" where
  "updNode g p f = g[fst p := (g ! fst p)[snd p := f (g ! fst p ! snd p)]]"

definition inb :: "grid \<Rightarrow> pos \<Rightarrow> bool" where
  "inb g p = (fst p < length g \<and> snd p < length (g ! fst p))"

text \<open>
  The grids the component builds (\<open>initializeGrid\<close>): \<open>h\<close> rows of \<open>w\<close> nodes, the
  node at \<open>[r][c]\<close> carrying \<open>row = r\<close> and \<open>col = c\<close>.
\<close>

definition wf_grid :: "grid \<Rightarrow> bool" where
  "wf_grid g =
     (list_all (\<lambda>r. length (g ! r) = length (g ! 0)) [0..<length g] \<and>
      list_all (\<lambda>r. list_all (\<lambda>c. row (g ! r ! c) = r \<and> col (g ! r ! c) = c)
                        [0..<length (g ! r)]) [0..<length g])"

text \<open>The document: the class name of the element \<open>node-r-c\<close>, if there is one.\<close>

type_synonym document = "pos \<Rightarrow> string option"

definition setClassName :: "document \<Rightarrow> pos \<Rightarrow> string \<Rightarrow> document" where
  "setClassName doc p cls = (case doc p of None \<Rightarrow> doc | Some old \<Rightarrow> doc(p \<mapsto> cls))"

section \<open>Helpers shared by Dijkstra.js and AStar.js\<close>

text \<open>\<open>getAllNodes\<close>: the references to all nodes, row by row.\<close>

definition getAllNodes :: "grid \<Rightarrow> pos list" where
  "getAllNodes g = concat (map (\<lambda>r. map (\<lambda>c. (r, c)) [0..<length (g ! r)]) [0..<length g])"

text \<open>
  \<open>getUnvisitedNeighbors\<close>: up, down, left, right, in this order, where they exist, and
  of those the ones not visited. The node's own \<open>row\<close> and \<open>col\<close> fields index the grid.
\<close>

definition getUnvisitedNeighbors :: "pos \<Rightarrow> grid \<Rightarrow> pos list" where
  "getUnvisitedNeighbors nd g =
     (let r = row (nodeAt g nd); c = col (nodeAt g nd) in
      filter (\<lambda>neighbor. \<not> isVisited (nodeAt g neighbor))
        ((if r > 0 then [(r - 1, c)] else []) @
         (if r < length g - 1 then [(r + 1, c)] else []) @
         (if c > 0 then [(r, c - 1)] else []) @
         (if c < length (g ! 0) - 1 then [(r, c + 1)] else [])))"

text \<open>
  \<open>getNodesInShortestPathOrder\<close>: the loop follows \<open>previousNode\<close> until it is null,
  putting each node in front of the result. On a cyclic chain the loop does not return,
  which is the value \<open>None\<close> here.
\<close>

partial_function (option) shortestPathLoop :: "grid \<Rightarrow> pos option \<Rightarrow> pos list \<Rightarrow> pos list option"
where
  "shortestPathLoop g currentNode nodesInShortestPathOrder =
     (case currentNode of
        None \<Rightarrow> Some nodesInShortestPathOrder
      | Some p \<Rightarrow> shortestPathLoop g (previousNode (nodeAt g p)) (p # nodesInShortestPathOrder))"

declare shortestPathLoop.simps [code]

definition getNodesInShortestPathOrder :: "grid \<Rightarrow> pos \<Rightarrow> pos list option" where
  "getNodesInShortestPathOrder g finishNode = shortestPathLoop g (Some finishNode) []"

section \<open>Dijkstra.js\<close>

text \<open>
  \<open>sortNodesByDistance\<close> sorts the work list in place with the comparator
  \<open>nodeA.distance - nodeB.distance\<close>. The difference is negative, positive or zero as
  the distances compare, and \<open>NaN\<close> (read as zero by \<open>Array.prototype.sort\<close>) for two
  infinite ones, so the comparator is consistent and the sort, which is stable, is the
  stable sort on the key \<open>distance\<close>.
\<close>

definition sortNodesByDistance :: "grid \<Rightarrow> pos list \<Rightarrow> pos list" where
  "sortNodesByDistance g nodes = sort_key (\<lambda>p. distance (nodeAt g p)) nodes"

text \<open>
  \<open>updateUnvisitedNeighbors\<close> assigns to every unvisited neighbour, with no comparison
  of distances.
\<close>

definition updateUnvisitedNeighbors :: "pos \<Rightarrow> grid \<Rightarrow> grid" where
  "updateUnvisitedNeighbors nd g =
     fold (\<lambda>neighbor g'. updNode g' neighbor
             (\<lambda>n. n\<lparr>distance := distance (nodeAt g' nd) + 1, previousNode := Some nd\<rparr>))
       (getUnvisitedNeighbors nd g) g"

definition isSpecial :: "node \<Rightarrow> bool" where
  "isSpecial n = (isStart n \<or> isEnd n \<or> isCheckpoint n)"

definition visitedClass :: "bool \<Rightarrow> string" where
  "visitedClass isSecondPhase =
     ''node '' @ (if isSecondPhase then ''node-visited-second'' else ''node-visited'')"

text \<open>The loop of the branch \<open>speed === 'instant'\<close>.\<close>

function dijkstraInstant ::
  "bool \<Rightarrow> pos \<Rightarrow> grid \<Rightarrow> pos list \<Rightarrow> pos list \<Rightarrow> document \<Rightarrow> pos list \<times> grid \<times> document"
where
  "dijkstraInstant isSecondPhase endNode g unvisitedNodes visitedNodesInOrder doc =
     (case sortNodesByDistance g unvisitedNodes of
        [] \<Rightarrow> (visitedNodesInOrder, g, doc)
      | closestNode # rest \<Rightarrow>
          if isWall (nodeAt g closestNode)
          then dijkstraInstant isSecondPhase endNode g rest visitedNodesInOrder doc
          else if distance (nodeAt g closestNode) = \<infinity> then (visitedNodesInOrder, g, doc)
          else
            let g1 = updNode g closestNode (\<lambda>n. n\<lparr>isVisited := True\<rparr>);
                visited1 = visitedNodesInOrder @ [closestNode];
                doc1 = (if \<not> isSpecial (nodeAt g1 closestNode)
                        then setClassName doc closestNode (visitedClass isSecondPhase @ '' instant'')
                        else doc)
            in if closestNode = endNode then (visited1, g1, doc1)
               else dijkstraInstant isSecondPhase endNode
                      (updateUnvisitedNeighbors closestNode g1) rest visited1 doc1)"
  by pat_completeness auto
termination
proof (relation "measure (\<lambda>(s, e, g, u, v, d). length u)")
  show "wf (measure (\<lambda>(s, e, g, u, v, d). length u))" by simp
next
  fix s e g u v d c rest
  assume "sortNodesByDistance g u = c # rest"
  then have "length u = Suc (length rest)"
    by (metis length_Cons length_sort sortNodesByDistance_def)
  then show "((s, e, g, rest, v, d), (s, e, g, u, v, d)) \<in> measure (\<lambda>(s, e, g, u, v, d). length u)"
    by simp
next
  fix s e g u v d c rest g1 v1 d1
  assume "sortNodesByDistance g u = c # rest"
  then have "length u = Suc (length rest)"
    by (metis length_Cons length_sort sortNodesByDistance_def)
  then show "((s, e, updateUnvisitedNeighbors c g1, rest, v1, d1), (s, e, g, u, v, d))
               \<in> measure (\<lambda>(s, e, g, u, v, d). length u)"
    by simp
qed

declare dijkstraInstant.simps [simp del]

text \<open>The loop after it, with the delay between two iterations.\<close>

function dijkstraAnimated ::
  "bool \<Rightarrow> pos \<Rightarrow> grid \<Rightarrow> pos list \<Rightarrow> pos list \<Rightarrow> document \<Rightarrow> pos list \<times> grid \<times> document"
where
  "dijkstraAnimated isSecondPhase endNode g unvisitedNodes visitedNodesInOrder doc =
     (case sortNodesByDistance g unvisitedNodes of
        [] \<Rightarrow> (visitedNodesInOrder, g, doc)
      | closestNode # rest \<Rightarrow>
          if isWall (nodeAt g closestNode)
          then dijkstraAnimated isSecondPhase endNode g rest visitedNodesInOrder doc
          else if distance (nodeAt g closestNode) = \<infinity> then (visitedNodesInOrder, g, doc)
          else
            let g1 = updNode g closestNode (\<lambda>n. n\<lparr>isVisited := True\<rparr>);
                visited1 = visitedNodesInOrder @ [closestNode];
                doc1 = (if \<not> isSpecial (nodeAt g1 closestNode)
                        then setClassName doc closestNode (visitedClass isSecondPhase)
                        else doc)
            in if closestNode = endNode then (visited1, g1, doc1)
               else dijkstraAnimated isSecondPhase endNode
                      (updateUnvisitedNeighbors closestNode g1) rest visited1 doc1)"
  by pat_completeness auto
termination
proof (relation "measure (\<lambda>(s, e, g, u, v, d). length u)")
  show "wf (measure (\<lambda>(s, e, g, u, v, d). length u))" by simp
next
  fix s e g u v d c rest
  assume "sortNodesByDistance g u = c # rest"
  then have "length u = Suc (length rest)"
    by (metis length_Cons length_sort sortNodesByDistance_def)
  then show "((s, e, g, rest, v, d), (s, e, g, u, v, d)) \<in> measure (\<lambda>(s, e, g, u, v, d). length u)"
    by simp
next
  fix s e g u v d c rest g1 v1 d1
  assume "sortNodesByDistance g u = c # rest"
  then have "length u = Suc (length rest)"
    by (metis length_Cons length_sort sortNodesByDistance_def)
  then show "((s, e, updateUnvisitedNeighbors c g1, rest, v1, d1), (s, e, g, u, v, d))
               \<in> measure (\<lambda>(s, e, g, u, v, d). length u)"
    by simp
qed

declare dijkstraAnimated.simps [simp del]

text \<open>
  \<open>dijkstra\<close>: the reset of every node, the start at distance 0, then one of the two
  loops. The result is the visited order together with the grid and the document as
  the call leaves them.
\<close>

definition resetDijkstra :: "grid \<Rightarrow> grid" where
  "resetDijkstra g =
     map (map (\<lambda>n. n\<lparr>distance := \<infinity>, previousNode := None, isVisited := False\<rparr>)) g"

definition dijkstra ::
  "grid \<Rightarrow> pos \<Rightarrow> pos \<Rightarrow> string \<Rightarrow> bool \<Rightarrow> document \<Rightarrow> pos list \<times> grid \<times> document"
where
  "dijkstra g startNode endNode speed isSecondPhase doc =
     (let g0 = updNode g startNode (\<lambda>n. n\<lparr>distance := 0\<rparr>);
          unvisitedNodes = getAllNodes g0;
          g1 = resetDijkstra g0;
          g2 = updNode g1 startNode (\<lambda>n. n\<lparr>distance := 0\<rparr>)
      in if speed = ''instant''
         then dijkstraInstant isSecondPhase endNode g2 unvisitedNodes [] doc
         else dijkstraAnimated isSecondPhase endNode g2 unvisitedNodes [] doc)"


section \<open>Building the grid\<close>

text \<open>
  \<open>createNode\<close> and \<open>initializeGrid\<close> of the visualizer component. The component's state
  holds the positions of the start and the end and a checkpoint position with an
  \<open>exists\<close> flag. The search fields \<open>heuristic\<close> and \<open>totalDistance\<close>, which
  \<open>createNode\<close> leaves out, start here at \<open>0\<close> and \<open>\<infinity>\<close>.
\<close>

record checkpoint =
  cpRow :: nat
  cpCol :: nat
  cpExists :: bool

definition createNode :: "pos \<Rightarrow> pos \<Rightarrow> checkpoint \<Rightarrow> nat \<Rightarrow> nat \<Rightarrow> node" where
  "createNode startNode endNode cp r c =
     \<lparr>row = r, col = c,
      isStart = (r = fst startNode \<and> c = snd startNode),
      isEnd = (r = fst endNode \<and> c = snd endNode),
      isWall = False,
      isCheckpoint = (cpExists cp \<and> r = cpRow cp \<and> c = cpCol cp),
      isVisited = False,
      distance = \<infinity>,
      totalDistance = \<infinity>,
      heuristic = 0,
      previousNode = None\<rparr>"

definition initializeGrid :: "nat \<Rightarrow> nat \<Rightarrow> pos \<Rightarrow> pos \<Rightarrow> checkpoint \<Rightarrow> grid" where
  "initializeGrid height width startNode endNode cp =
     map (\<lambda>r. map (\<lambda>c. createNode startNode endNode cp r c) [0..<width]) [0..<height]"

section \<open>AStar.js\<close>

definition manhattanDistance :: "node \<Rightarrow> node \<Rightarrow> nat" where
  "manhattanDistance n finishNode =
     nat \<bar>int (row n) - int (row finishNode)\<bar> + nat \<bar>int (col n) - int (col finishNode)\<bar>"

text \<open>
  \<open>sortNodesByTotalDistance\<close>: as \<open>sortNodesByDistance\<close>, on the key
  \<open>totalDistance\<close>.
\<close>

definition sortNodesByTotalDistance :: "grid \<Rightarrow> pos list \<Rightarrow> pos list" where
  "sortNodesByTotalDistance g nodes = sort_key (\<lambda>p. totalDistance (nodeAt g p)) nodes"

text \<open>
  \<open>updateUnvisitedNeighborsAstar\<close> assigns to an unvisited neighbour only when the
  tentative distance is strictly smaller than the neighbour's.
\<close>

definition updateUnvisitedNeighborsAstar :: "pos \<Rightarrow> grid \<Rightarrow> pos \<Rightarrow> grid" where
  "updateUnvisitedNeighborsAstar nd g finishNode =
     fold (\<lambda>neighbor g'.
             let tentativeDistance = distance (nodeAt g' nd) + 1 in
             if tentativeDistance < distance (nodeAt g' neighbor)
             then updNode g' neighbor
                    (\<lambda>n. n\<lparr>previousNode := Some nd,
                            distance := tentativeDistance,
                            totalDistance := tentativeDistance
                               + enat (manhattanDistance n (nodeAt g' finishNode))\<rparr>)
             else g')
       (getUnvisitedNeighbors nd g) g"

text \<open>The loop of the branch \<open>speed === 'instant'\<close>.\<close>

function astarInstant ::
  "bool \<Rightarrow> pos \<Rightarrow> grid \<Rightarrow> pos list \<Rightarrow> pos list \<Rightarrow> document \<Rightarrow> pos list \<times> grid \<times> document"
where
  "astarInstant isSecondPhase finishNode g unvisitedNodes visitedNodesInOrder doc =
     (case sortNodesByTotalDistance g unvisitedNodes of
        [] \<Rightarrow> (visitedNodesInOrder, g, doc)
      | closestNode # rest \<Rightarrow>
          if isWall (nodeAt g closestNode)
          then astarInstant isSecondPhase finishNode g rest visitedNodesInOrder doc
          else if totalDistance (nodeAt g closestNode) = \<infinity> then (visitedNodesInOrder, g, doc)
          else
            let g1 = updNode g closestNode (\<lambda>n. n\<lparr>isVisited := True\<rparr>);
                visited1 = visitedNodesInOrder @ [closestNode];
                doc1 = (if \<not> isSpecial (nodeAt g1 closestNode)
                        then setClassName doc closestNode (visitedClass isSecondPhase)
                        else doc)
            in if closestNode = finishNode then (visited1, g1, doc1)
               else astarInstant isSecondPhase finishNode
                      (updateUnvisitedNeighborsAstar closestNode g1 finishNode) rest visited1 doc1)"
  by pat_completeness auto
termination
proof (relation "measure (\<lambda>(s, e, g, u, v, d). length u)")
  show "wf (measure (\<lambda>(s, e, g, u, v, d). length u))" by simp
next
  fix s e g u v d c rest
  assume "sortNodesByTotalDistance g u = c # rest"
  then have "length u = Suc (length rest)"
    by (metis length_Cons length_sort sortNodesByTotalDistance_def)
  then show "((s, e, g, rest, v, d), (s, e, g, u, v, d)) \<in> measure (\<lambda>(s, e, g, u, v, d). length u)"
    by simp
next
  fix s e g u v d c rest g1 v1 d1
  assume "sortNodesByTotalDistance g u = c # rest"
  then have "length u = Suc (length rest)"
    by (metis length_Cons length_sort sortNodesByTotalDistance_def)
  then show "((s, e, updateUnvisitedNeighborsAstar c g1 e, rest, v1, d1), (s, e, g, u, v, d))
               \<in> measure (\<lambda>(s, e, g, u, v, d). length u)"
    by simp
qed

declare astarInstant.simps [simp del]

text \<open>The loop after it, with the delay between two iterations.\<close>

function astarAnimated ::
  "bool \<Rightarrow> pos \<Rightarrow> grid \<Rightarrow> pos list \<Rightarrow> pos list \<Rightarrow> document \<Rightarrow> pos list \<times> grid \<times> document"
where
  "astarAnimated isSecondPhase finishNode g unvisitedNodes visitedNodesInOrder doc =
     (case sortNodesByTotalDistance g unvisitedNodes of
        [] \<Rightarrow> (visitedNodesInOrder, g, doc)
      | closestNode # rest \<Rightarrow>
          if isWall (nodeAt g closestNode)
          then astarAnimated isSecondPhase finishNode g rest visitedNodesInOrder doc
          else if totalDistance (nodeAt g closestNode) = \<infinity> then (visitedNodesInOrder, g, doc)
          else
            let g1 = updNode g closestNode (\<lambda>n. n\<lparr>isVisited := True\<rparr>);
                visited1 = visitedNodesInOrder @ [closestNode];
                doc1 = (if \<not> isSpecial (nodeAt g1 closestNode)
                        then setClassName doc closestNode (visitedClass isSecondPhase)
                        else doc)
            in if closestNode = finishNode then (visited1, g1, doc1)
               else astarAnimated isSecondPhase finishNode
                      (updateUnvisitedNeighborsAstar closestNode g1 finishNode) rest visited1 doc1)"
  by pat_completeness auto
termination
proof (relation "measure (\<lambda>(s, e, g, u, v, d). length u)")
  show "wf (measure (\<lambda>(s, e, g, u, v, d). length u))" by simp
next
  fix s e g u v d c rest
  assume "sortNodesByTotalDistance g u = c # rest"
  then have "length u = Suc (length rest)"
    by (metis length_Cons length_sort sortNodesByTotalDistance_def)
  then show "((s, e, g, rest, v, d), (s, e, g, u, v, d)) \<in> measure (\<lambda>(s, e, g, u, v, d). length u)"
    by simp
next
  fix s e g u v d c rest g1 v1 d1
  assume "sortNodesByTotalDistance g u = c # rest"
  then have "length u = Suc (length rest)"
    by (metis length_Cons length_sort sortNodesByTotalDistance_def)
  then show "((s, e, updateUnvisitedNeighborsAstar c g1 e, rest, v1, d1), (s, e, g, u, v, d))
               \<in> measure (\<lambda>(s, e, g, u, v, d). length u)"
    by simp
qed

declare astarAnimated.simps [simp del]

text \<open>
  \<open>astar\<close>: every node but the start is reset and gets its heuristic towards the
  finish; the start gets distance 0 and its own heuristic; then one of the two loops.
\<close>

definition resetAstar :: "grid \<Rightarrow> pos \<Rightarrow> pos \<Rightarrow> grid" where
  "resetAstar g startNode finishNode =
     map (\<lambda>r. map (\<lambda>c.
            if (r, c) \<noteq> startNode
            then (g ! r ! c)\<lparr>distance := \<infinity>, totalDistance := \<infinity>, previousNode := None,
                   isVisited := False,
                   heuristic := manhattanDistance (g ! r ! c) (nodeAt g finishNode)\<rparr>
            else g ! r ! c) [0..<length (g ! r)]) [0..<length g]"

definition astar ::
  "grid \<Rightarrow> pos \<Rightarrow> pos \<Rightarrow> string \<Rightarrow> bool \<Rightarrow> document \<Rightarrow> pos list \<times> grid \<times> document"
where
  "astar g startNode finishNode speed isSecondPhase doc =
     (let unvisitedNodes = getAllNodes g;
          g1 = resetAstar g startNode finishNode;
          g2 = updNode g1 startNode
                 (\<lambda>n. n\<lparr>distance := 0,
                         heuristic := manhattanDistance n (nodeAt g1 finishNode),
                         totalDistance := enat (manhattanDistance n (nodeAt g1 finishNode)),
                         previousNode := None,
                         isVisited := False\<rparr>)
      in if speed = ''instant''
         then astarInstant isSecondPhase finishNode g2 unvisitedNodes [] doc
         else astarAnimated isSecondPhase finishNode g2 unvisitedNodes [] doc)"

text \<open>The grid and the document of the concrete scenarios.\<close>

definition openGrid5 :: grid where
  "openGrid5 = initializeGrid 5 5 (0, 0) (4, 4) \<lparr>cpRow = 0, cpCol = 0, cpExists = False\<rparr>"

definition plainDocument :: document where
  "plainDocument = (\<lambda>p. Some ''node '')"

section \<open>Drawing a wall\<close>

text \<open>\<open>getNewGridWithWallMode\<close> of the visualizer component.\<close>

definition getNewGridWithWallMode :: "grid \<Rightarrow> nat \<Rightarrow> nat \<Rightarrow> string \<Rightarrow> grid" where
  "getNewGridWithWallMode g r c wallMode =
     (let n = nodeAt g (r, c) in
      if isStart n \<or> isEnd n \<or> isCheckpoint n then g
      else updNode g (r, c) (\<lambda>n. n\<lparr>isWall := (wallMode = ''add'')\<rparr>))"

text \<open>The 3 by 3 grid with start (0,0), end (2,2) and one wall, in the middle.\<close>

definition wallGrid3 :: grid where
  "wallGrid3 =
     getNewGridWithWallMode
       (initializeGrid 3 3 (0, 0) (2, 2) \<lparr>cpRow = 0, cpCol = 0, cpExists = False\<rparr>) 1 1 ''add''"

text \<open>The same grid with the end (2,2) walled off by the walls (1,2) and (2,1).\<close>

definition enclosedGrid3 :: grid where
  "enclosedGrid3 =
     getNewGridWithWallMode
       (getNewGridWithWallMode
          (initializeGrid 3 3 (0, 0) (2, 2) \<lparr>cpRow = 0, cpCol = 0, cpExists = False\<rparr>)
          1 2 ''add'')
       2 1 ''add''"

section \<open>Special nodes: drag and drop, checkpoint, randomizing\<close>

text \<open>
  The part of the component's state these operations read and write. \<open>setState\<close> is
  modelled as taking effect at once.
\<close>

record dragging =
  isDragging :: bool
  draggedNodeType :: "string option"
  sourceRow :: "nat option"
  sourceCol :: "nat option"

record visualizer =
  stGrid :: grid
  stStartNode :: "pos option"
  stEndNode :: "pos option"
  stCheckpoint :: checkpoint
  stDragging :: dragging
  stIsRunning :: bool

text \<open>
  The successive results of \<open>Math.random()\<close>, numbers in \<open>[0, 1)\<close>; an operation that
  draws takes the index of the next result and returns the index after its last draw.
  The numbers are taken as real numbers: a product with a random number and a comparison
  with a constant are exact here, where the source computes with doubles and rounds.
\<close>

type_synonym random = "nat \<Rightarrow> real"

definition isEmptyCell :: "node \<Rightarrow> bool" where
  "isEmptyCell n = (\<not> isWall n \<and> \<not> isStart n \<and> \<not> isEnd n \<and> \<not> isCheckpoint n)"

text \<open>
  \<open>getRandomEmptyPosition\<close>: up to 100 random cells, the first empty one of them is
  returned; after 100 failures the first empty cell of a row-by-row scan, or null.
\<close>

fun randomAttempts :: "grid \<Rightarrow> random \<Rightarrow> nat \<Rightarrow> nat \<Rightarrow> pos option \<times> nat" where
  "randomAttempts g rnd k 0 = (None, k)"
| "randomAttempts g rnd k (Suc attemptsLeft) =
     (let r = nat \<lfloor>rnd k * real (length g)\<rfloor>;
          c = nat \<lfloor>rnd (k + 1) * real (length (g ! 0))\<rfloor>
      in if isEmptyCell (nodeAt g (r, c)) then (Some (r, c), k + 2)
         else randomAttempts g rnd (k + 2) attemptsLeft)"

definition getRandomEmptyPosition :: "grid \<Rightarrow> random \<Rightarrow> nat \<Rightarrow> pos option \<times> nat" where
  "getRandomEmptyPosition g rnd k =
     (case randomAttempts g rnd k 100 of
        (Some p, k') \<Rightarrow> (Some p, k')
      | (None, k') \<Rightarrow>
          (find (\<lambda>p. isEmptyCell (nodeAt g p))
             (concat (map (\<lambda>r. map (\<lambda>c. (r, c)) [0..<length (g ! 0)]) [0..<length g])),
           k'))"

text \<open>\<open>handleDrop\<close>: the dragged role is taken from every holder and given to the target.\<close>

definition handleDrop :: "visualizer \<Rightarrow> node \<Rightarrow> visualizer" where
  "handleDrop st targetNode =
     (let d = stDragging st; g = stGrid st in
      if \<not> isDragging d \<or> isWall targetNode then st
      else
        let ty = draggedNodeType d;
            newGrid =
              fold (\<lambda>p ng.
                      if (ty = Some ''start'' \<and> isStart (nodeAt g p)) \<or>
                         (ty = Some ''end'' \<and> isEnd (nodeAt g p)) \<or>
                         (ty = Some ''checkpoint'' \<and> isCheckpoint (nodeAt g p))
                      then updNode ng p
                             (\<lambda>n. (nodeAt g p)\<lparr>isStart := False, isEnd := False,
                                                isCheckpoint := False\<rparr>)
                      else ng)
                (concat (map (\<lambda>r. map (\<lambda>c. (r, c)) [0..<length (g ! 0)]) [0..<length g])) g;
            newGrid' =
              updNode newGrid (row targetNode, col targetNode)
                (\<lambda>n. targetNode\<lparr>isStart := (ty = Some ''start''),
                                  isEnd := (ty = Some ''end''),
                                  isCheckpoint := (ty = Some ''checkpoint'')\<rparr>)
        in st\<lparr>stGrid := newGrid',
               stDragging := \<lparr>isDragging = False, draggedNodeType = None,
                                sourceRow = None, sourceCol = None\<rparr>\<rparr>)"

text \<open>
  \<open>handleDragStart\<close> does nothing while a search is running; otherwise it records
  which special node is dragged, and on any other node it changes nothing.
\<close>

definition handleDragStart :: "visualizer \<Rightarrow> node \<Rightarrow> visualizer" where
  "handleDragStart st n =
     (if stIsRunning st then st
      else if isStart n
      then st\<lparr>stDragging := \<lparr>isDragging = True, draggedNodeType = Some ''start'',
                               sourceRow = Some (row n), sourceCol = Some (col n)\<rparr>\<rparr>
      else if isEnd n
      then st\<lparr>stDragging := \<lparr>isDragging = True, draggedNodeType = Some ''end'',
                               sourceRow = Some (row n), sourceCol = Some (col n)\<rparr>\<rparr>
      else if isCheckpoint n
      then st\<lparr>stDragging := \<lparr>isDragging = True, draggedNodeType = Some ''checkpoint'',
                               sourceRow = Some (row n), sourceCol = Some (col n)\<rparr>\<rparr>
      else st)"

text \<open>\<open>addCheckpoint\<close> and \<open>removeCheckpoint\<close>.\<close>

definition addCheckpoint :: "visualizer \<Rightarrow> random \<Rightarrow> nat \<Rightarrow> visualizer \<times> nat" where
  "addCheckpoint st rnd k =
     (case getRandomEmptyPosition (stGrid st) rnd k of
        (Some position, k') \<Rightarrow>
          (st\<lparr>stGrid := updNode (stGrid st) position (\<lambda>n. n\<lparr>isCheckpoint := True\<rparr>),
              stCheckpoint := \<lparr>cpRow = fst position, cpCol = snd position, cpExists = True\<rparr>\<rparr>,
           k')
      | (None, k') \<Rightarrow> (st, k'))"

definition removeCheckpoint :: "visualizer \<Rightarrow> visualizer" where
  "removeCheckpoint st =
     (let cp = stCheckpoint st in
      if \<not> cpExists cp then st
      else st\<lparr>stGrid := updNode (stGrid st) (cpRow cp, cpCol cp) (\<lambda>n. n\<lparr>isCheckpoint := False\<rparr>),
              stCheckpoint := cp\<lparr>cpExists := False\<rparr>\<rparr>)"

text \<open>The checkpoint button: remove the checkpoint if the state says one exists, else add one.\<close>

definition toggleCheckpoint :: "visualizer \<Rightarrow> random \<Rightarrow> nat \<Rightarrow> visualizer \<times> nat" where
  "toggleCheckpoint st rnd k =
     (if cpExists (stCheckpoint st) then (removeCheckpoint st, k) else addCheckpoint st rnd k)"

text \<open>
  \<open>randomizeNodes\<close>: all role flags are cleared, then the new positions are drawn, all
  from the cleared grid, and only then the flags are set.
\<close>

definition randomizeNodes :: "visualizer \<Rightarrow> random \<Rightarrow> nat \<Rightarrow> visualizer \<times> nat" where
  "randomizeNodes st rnd k =
     (let cp = stCheckpoint st;
          newGrid = map (map (\<lambda>n. n\<lparr>isStart := False, isEnd := False, isCheckpoint := False\<rparr>))
                      (stGrid st);
          (newStart, k1) = getRandomEmptyPosition newGrid rnd k;
          (newEnd, k2) = getRandomEmptyPosition newGrid rnd k1;
          (newCheckpoint, k3) =
             (if cpExists cp then getRandomEmptyPosition newGrid rnd k2 else (None, k2));
          g1 = (case newCheckpoint of
                  Some p \<Rightarrow> updNode newGrid p (\<lambda>n. n\<lparr>isCheckpoint := True\<rparr>)
                | None \<Rightarrow> newGrid);
          g2 = (case newStart of
                  Some p \<Rightarrow> updNode g1 p (\<lambda>n. n\<lparr>isStart := True\<rparr>)
                | None \<Rightarrow> g1);
          g3 = (case newEnd of
                  Some p \<Rightarrow> updNode g2 p (\<lambda>n. n\<lparr>isEnd := True\<rparr>)
                | None \<Rightarrow> g2)
      in case newCheckpoint of
           Some p \<Rightarrow>
             (st\<lparr>stGrid := g3, stStartNode := newStart, stEndNode := newEnd,
                 stCheckpoint := \<lparr>cpRow = fst p, cpCol = snd p, cpExists = True\<rparr>\<rparr>, k3)
         | None \<Rightarrow> (st\<lparr>stGrid := g3, stStartNode := newStart, stEndNode := newEnd\<rparr>, k3))"

text \<open>
  The role invariant of the specification on the three flags: no node carries two of
  them, and at most one node carries each.
\<close>

definition oneRole :: "node \<Rightarrow> bool" where
  "oneRole n = (length (filter id [isStart n, isEnd n, isCheckpoint n]) \<le> 1)"

definition roleInvariant :: "grid \<Rightarrow> bool" where
  "roleInvariant g =
     (list_all (list_all oneRole) g \<and>
      length (filter isStart (concat g)) \<le> 1 \<and>
      length (filter isEnd (concat g)) \<le> 1 \<and>
      length (filter isCheckpoint (concat g)) \<le> 1)"

text \<open>
  The state of a fresh 3 by 3 grid, no search running, and a sequence of random numbers: 0.1 and 0.4 in
  turn, which on 3 rows and 3 columns is the cell (0,1) at every draw of a position.
\<close>

definition freshState3 :: visualizer where
  "freshState3 =
     \<lparr>stGrid = initializeGrid 3 3 (0, 0) (2, 2) \<lparr>cpRow = 1, cpCol = 1, cpExists = False\<rparr>,
      stStartNode = Some (0, 0), stEndNode = Some (2, 2),
      stCheckpoint = \<lparr>cpRow = 1, cpCol = 1, cpExists = False\<rparr>,
      stDragging = \<lparr>isDragging = False, draggedNodeType = None,
                     sourceRow = None, sourceCol = None\<rparr>,
      stIsRunning = False\<rparr>"

definition sameCellDraws :: random where
  "sameCellDraws i = (if even i then 1 / 10 else 4 / 10)"

section \<open>The board of the maze generators\<close>

text \<open>
  A maze generator works on a board: its height and width, the ids of the start, the
  target and, if there is one, the checkpoint (\<open>board.object\<close>), the status and
  weight of every node by id, and the list \<open>wallsToAnimate\<close> it appends its wall
  placements to. An id is the string \<open>row-col\<close>; it is modelled by the pair of the
  two numbers. \<open>board.nodes\<close> is a partial map: writing a field of a node that the
  map does not hold raises a TypeError in the source, which is the result \<open>None\<close> of
  the operation here. An entry of \<open>wallsToAnimate\<close> is an object with an id and
  perhaps a type, or (in the border of the stair maze) the result of
  \<open>document.getElementById\<close>: the element with that id, or \<open>null\<close>.
\<close>

type_synonym cell = "int \<times> int"

record mazeNode =
  status :: string
  weight :: int

datatype wallEntry = WallEntry cell "string option" | ElementEntry cell | NullEntry

text \<open>The id of an entry, as the caller reads it with \<open>wall?.id\<close>; \<open>null\<close> has none.\<close>

fun entryId :: "wallEntry \<Rightarrow> cell option" where
  "entryId (WallEntry c ty) = Some c"
| "entryId (ElementEntry c) = Some c"
| "entryId NullEntry = None"

record board =
  height :: int
  width :: int
  start :: cell
  target :: cell
  object :: "cell option"
  nodes :: "cell \<rightharpoonup> mazeNode"
  wallsToAnimate :: "wallEntry list"

definition setStatus :: "board \<Rightarrow> cell \<Rightarrow> string \<Rightarrow> board option" where
  "setStatus b c s =
     (case nodes b c of
        None \<Rightarrow> None
      | Some n \<Rightarrow> Some (b\<lparr>nodes := (nodes b)(c \<mapsto> n\<lparr>status := s\<rparr>)\<rparr>))"

definition setWeight :: "board \<Rightarrow> cell \<Rightarrow> int \<Rightarrow> board option" where
  "setWeight b c w =
     (case nodes b c of
        None \<Rightarrow> None
      | Some n \<Rightarrow> Some (b\<lparr>nodes := (nodes b)(c \<mapsto> n\<lparr>weight := w\<rparr>)\<rparr>))"

definition pushWall :: "board \<Rightarrow> wallEntry \<Rightarrow> board" where
  "pushWall b entry = b\<lparr>wallsToAnimate := wallsToAnimate b @ [entry]\<rparr>"

text \<open>
  \<open>findIndex(wall => wall.id === node)\<close> followed by \<open>splice(index, 1)\<close>: the first
  entry with that id is removed, if there is one. Reading the id of \<open>null\<close> on the way
  raises a TypeError.
\<close>

fun removeWall :: "wallEntry list \<Rightarrow> cell \<Rightarrow> wallEntry list option" where
  "removeWall [] c = Some []"
| "removeWall (WallEntry c' ty # ws) c =
     (if c' = c then Some ws else map_option ((#) (WallEntry c' ty)) (removeWall ws c))"
| "removeWall (ElementEntry c' # ws) c =
     (if c' = c then Some ws else map_option ((#) (ElementEntry c')) (removeWall ws c))"
| "removeWall (NullEntry # ws) c = None"

text \<open>A \<open>for\<close> loop over a list of values, its body failing or giving the next state.\<close>

fun forEach :: "'a list \<Rightarrow> ('a \<Rightarrow> 's \<Rightarrow> 's option) \<Rightarrow> 's \<Rightarrow> 's option" where
  "forEach [] body s = Some s"
| "forEach (x # xs) body s =
     (case body x s of None \<Rightarrow> None | Some s' \<Rightarrow> forEach xs body s')"

text \<open>All cells of the board, row by row, as the nested loops over rows and columns visit them.\<close>

definition allCells :: "board \<Rightarrow> cell list" where
  "allCells b = concat (map (\<lambda>r. map (\<lambda>c. (r, c)) [0..width b - 1]) [0..height b - 1])"

definition onBorder :: "board \<Rightarrow> cell \<Rightarrow> bool" where
  "onBorder b c =
     (fst c = 0 \<or> snd c = 0 \<or> fst c = height b - 1 \<or> snd c = width b - 1)"

section \<open>RecursiveMazeAlgorithm.js\<close>

text \<open>
  The test that guards every wall placement of \<open>generateRecursiveMaze\<close>, and the
  placement itself: the entry is pushed, then status and weight are written.
\<close>

definition notSpecial :: "board \<Rightarrow> cell \<Rightarrow> bool" where
  "notSpecial b c =
     (c \<noteq> start b \<and> c \<noteq> target b \<and> (case object b of None \<Rightarrow> True | Some ob \<Rightarrow> c \<noteq> ob))"

definition placeWall :: "string \<Rightarrow> cell \<Rightarrow> board \<Rightarrow> board option" where
  "placeWall ty c b =
     (case setStatus (pushWall b (WallEntry c (Some ty))) c
             (if ty = ''wall'' then ''wall'' else ''unvisited'') of
        None \<Rightarrow> None
      | Some b' \<Rightarrow> setWeight b' c (if ty = ''wall'' then 0 else 15))"

definition surroundingWalls :: "string \<Rightarrow> board \<Rightarrow> board option" where
  "surroundingWalls ty b =
     forEach (allCells b)
       (\<lambda>c b'. if onBorder b' c \<and> notSpecial b' c then placeWall ty c b' else Some b') b"

text \<open>The candidates for the dividing line: every second row (or column) of the region.\<close>

definition everySecond :: "int \<Rightarrow> int \<Rightarrow> int list" where
  "everySecond a b =
     (if b < a then [] else map (\<lambda>i. a + 2 * int i) [0..<nat ((b - a) div 2 + 1)])"

text \<open>
  \<open>generateRecursiveMaze\<close>. The state is the board and the index of the next random
  number. An early \<open>return\<close> leaves the board as it is. A random index outside the
  list of candidates (possible only for a random number outside \<open>[0, 1)\<close>) makes the
  source read an undefined row; that is the result \<open>None\<close> here.
\<close>

function generateRecursiveMaze ::
  "random \<Rightarrow> string \<Rightarrow> board \<times> nat \<Rightarrow> int \<Rightarrow> int \<Rightarrow> int \<Rightarrow> int \<Rightarrow> string \<Rightarrow> bool
     \<Rightarrow> (board \<times> nat) option"
where
  "generateRecursiveMaze rnd ty bk rowStart rowEnd colStart colEnd orientation surrounding =
     (if rowEnd < rowStart \<or> colEnd < colStart then Some bk
      else
        case (if \<not> surrounding then surroundingWalls ty (fst bk) else Some (fst bk)) of
          None \<Rightarrow> None
        | Some b1 \<Rightarrow>
            let k = snd bk in
            if orientation = ''horizontal'' then
              let possibleRows = everySecond rowStart rowEnd in
              if possibleRows = [] then Some (b1, k)
              else
                let randomRowIndex = \<lfloor>rnd k * real (length possibleRows)\<rfloor> in
                if randomRowIndex < 0 \<or> int (length possibleRows) \<le> randomRowIndex then None
                else
                  let currentRow = possibleRows ! nat randomRowIndex;
                      passage = \<lfloor>rnd (k + 1) * real_of_int (colEnd - colStart + 1)\<rfloor> + colStart
                  in
                  case forEach [colStart..colEnd]
                         (\<lambda>c b. if c \<noteq> passage \<and> notSpecial b (currentRow, c)
                                then placeWall ty (currentRow, c) b else Some b) b1 of
                    None \<Rightarrow> None
                  | Some b2 \<Rightarrow>
                      (case generateRecursiveMaze rnd ty (b2, k + 2)
                              rowStart (currentRow - 2) colStart colEnd
                              (if currentRow - 2 - rowStart > colEnd - colStart
                               then orientation else ''vertical'') True of
                         None \<Rightarrow> None
                       | Some bk3 \<Rightarrow>
                           generateRecursiveMaze rnd ty bk3
                             (currentRow + 2) rowEnd colStart colEnd
                             (if rowEnd - (currentRow + 2) > colEnd - colStart
                              then orientation else ''vertical'') True)
            else
              let possibleCols = everySecond colStart colEnd in
              if possibleCols = [] then Some (b1, k)
              else
                let randomColIndex = \<lfloor>rnd k * real (length possibleCols)\<rfloor> in
                if randomColIndex < 0 \<or> int (length possibleCols) \<le> randomColIndex then None
                else
                  let currentCol = possibleCols ! nat randomColIndex;
                      passage = \<lfloor>rnd (k + 1) * real_of_int (rowEnd - rowStart + 1)\<rfloor> + rowStart
                  in
                  case forEach [rowStart..rowEnd]
                         (\<lambda>r b. if r \<noteq> passage \<and> notSpecial b (r, currentCol)
                                then placeWall ty (r, currentCol) b else Some b) b1 of
                    None \<Rightarrow> None
                  | Some b2 \<Rightarrow>
                      (case generateRecursiveMaze rnd ty (b2, k + 2)
                              rowStart rowEnd colStart (currentCol - 2)
                              (if rowEnd - rowStart > currentCol - 2 - colStart
                               then ''horizontal'' else orientation) True of
                         None \<Rightarrow> None
                       | Some bk3 \<Rightarrow>
                           generateRecursiveMaze rnd ty bk3
                             rowStart rowEnd (currentCol + 2) colEnd
                             (if rowEnd - rowStart > colEnd - (currentCol + 2)
                              then ''horizontal'' else orientation) True))"
  by pat_completeness auto
termination
proof (relation "measure (\<lambda>(rnd, ty, bk, rowStart, rowEnd, colStart, colEnd, orientation, surrounding).
                   nat (rowEnd - rowStart + 3) + nat (colEnd - colStart + 3))")
  have inside: "a \<le> everySecond a b ! nat i \<and> everySecond a b ! nat i \<le> b"
    if "\<not> (i < 0 \<or> int (length (everySecond a b)) \<le> i)" for a b i
  proof -
    from that have i: "nat i < length (everySecond a b)" by auto
    then have ab: "\<not> b < a" by (auto simp: everySecond_def split: if_splits)
    with i have n: "nat i < nat ((b - a) div 2 + 1)" by (simp add: everySecond_def)
    then have "everySecond a b ! nat i = a + 2 * int (nat i)"
      using ab by (simp add: everySecond_def)
    moreover from n have "2 * int (nat i) \<le> b - a" by linarith
    ultimately show ?thesis by simp
  qed
  show "wf (measure (\<lambda>(rnd, ty, bk, rowStart, rowEnd, colStart, colEnd, orientation, surrounding).
                   nat (rowEnd - rowStart + 3) + nat (colEnd - colStart + 3)))"
    by simp
  fix rnd :: random and ty :: string and bk :: "board \<times> nat"
    and rowStart rowEnd colStart colEnd :: int and orientation :: string and surrounding :: bool
    and b1 :: board and k :: nat and possible :: "int list" and idx current :: int
  assume region: "\<not> (rowEnd < rowStart \<or> colEnd < colStart)"
  {
    assume "possible = everySecond rowStart rowEnd"
      and "idx = \<lfloor>rnd k * real (length possible)\<rfloor>"
      and "\<not> (idx < 0 \<or> int (length possible) \<le> idx)"
      and "current = possible ! nat idx"
    with inside [of idx rowStart rowEnd] have c: "rowStart \<le> current \<and> current \<le> rowEnd" by simp
    fix b2 o1 sw
    show "((rnd, ty, (b2, k + 2), rowStart, current - 2, colStart, colEnd, o1, sw),
           (rnd, ty, bk, rowStart, rowEnd, colStart, colEnd, orientation, surrounding))
          \<in> measure (\<lambda>(rnd, ty, bk, rowStart, rowEnd, colStart, colEnd, orientation, surrounding).
                   nat (rowEnd - rowStart + 3) + nat (colEnd - colStart + 3))"
      using c region by simp
    fix bk3
    show "((rnd, ty, bk3, current + 2, rowEnd, colStart, colEnd, o1, sw),
           (rnd, ty, bk, rowStart, rowEnd, colStart, colEnd, orientation, surrounding))
          \<in> measure (\<lambda>(rnd, ty, bk, rowStart, rowEnd, colStart, colEnd, orientation, surrounding).
                   nat (rowEnd - rowStart + 3) + nat (colEnd - colStart + 3))"
      using c region by simp
  }
  {
    assume "possible = everySecond colStart colEnd"
      and "idx = \<lfloor>rnd k * real (length possible)\<rfloor>"
      and "\<not> (idx < 0 \<or> int (length possible) \<le> idx)"
      and "current = possible ! nat idx"
    with inside [of idx colStart colEnd] have c: "colStart \<le> current \<and> current \<le> colEnd" by simp
    fix b2 o1 sw
    show "((rnd, ty, (b2, k + 2), rowStart, rowEnd, colStart, current - 2, o1, sw),
           (rnd, ty, bk, rowStart, rowEnd, colStart, colEnd, orientation, surrounding))
          \<in> measure (\<lambda>(rnd, ty, bk, rowStart, rowEnd, colStart, colEnd, orientation, surrounding).
                   nat (rowEnd - rowStart + 3) + nat (colEnd - colStart + 3))"
      using c region by simp
    fix bk3
    show "((rnd, ty, bk3, rowStart, rowEnd, current + 2, colEnd, o1, sw),
           (rnd, ty, bk, rowStart, rowEnd, colStart, colEnd, orientation, surrounding))
          \<in> measure (\<lambda>(rnd, ty, bk, rowStart, rowEnd, colStart, colEnd, orientation, surrounding).
                   nat (rowEnd - rowStart + 3) + nat (colEnd - colStart + 3))"
      using c region by simp
  }
qed

declare generateRecursiveMaze.simps [simp del]

section \<open>StairMaze.js\<close>

text \<open>The \<open>isSpecialNode\<close> of the stair maze knows the start and the target only.\<close>

definition isSpecialNodeStair :: "board \<Rightarrow> cell \<Rightarrow> bool" where
  "isSpecialNodeStair b c = (c = start b \<or> c = target b)"

definition stairWall :: "cell \<Rightarrow> board \<Rightarrow> board option" where
  "stairWall c b =
     (if \<not> isSpecialNodeStair b c
      then (case setStatus b c ''wall'' of
              None \<Rightarrow> None
            | Some b' \<Rightarrow> Some (pushWall b' (WallEntry c (Some ''wall''))))
      else Some b)"

text \<open>
  The border pushes what \<open>document.getElementById(node)\<close> returns; which ids the
  document has an element for is the parameter \<open>hasElement\<close>.
\<close>

definition addBorderStair :: "(cell \<Rightarrow> bool) \<Rightarrow> board \<Rightarrow> board option" where
  "addBorderStair hasElement b =
     forEach (allCells b)
       (\<lambda>c b'. if onBorder b' c \<and> \<not> isSpecialNodeStair b' c
                then setStatus (pushWall b' (if hasElement c then ElementEntry c else NullEntry))
                       c ''wall''
                else Some b') b"

text \<open>The \<open>while\<close> loop of \<open>stairMaze\<close>; \<open>h\<close> and \<open>w\<close> are its constants \<open>height\<close> and \<open>width\<close>.\<close>

function stairLoop :: "int \<Rightarrow> int \<Rightarrow> int \<Rightarrow> int \<Rightarrow> board \<Rightarrow> board option" where
  "stairLoop h w currentRow currentCol b =
     (if currentRow < h - 2 \<and> currentCol < w - 2
      then
        case forEach [currentCol..min (currentCol + 3) (w - 2) - 1]
               (\<lambda>c. stairWall (currentRow, c)) b of
          None \<Rightarrow> None
        | Some b1 \<Rightarrow>
            (case forEach [currentRow..min (currentRow + 3) (h - 2) - 1]
                    (\<lambda>r. stairWall (r, currentCol + 3 - 1)) b1 of
               None \<Rightarrow> None
             | Some b2 \<Rightarrow> stairLoop h w (currentRow + 3) (currentCol + 3) b2)
      else Some b)"
  by pat_completeness auto
termination
  by (relation "measure (\<lambda>(h, w, currentRow, currentCol, b). nat (h - currentRow))") auto

declare stairLoop.simps [simp del]

definition stairMaze :: "(cell \<Rightarrow> bool) \<Rightarrow> board \<Rightarrow> board option" where
  "stairMaze hasElement b =
     (case stairLoop (height b) (width b) 2 2 b of
        None \<Rightarrow> None
      | Some b' \<Rightarrow> addBorderStair hasElement b')"

section \<open>BasicRandomMaze.js\<close>

text \<open>
  Here and in RandomMaze.js, \<open>isSpecialNode\<close> knows the checkpoint as well. The test
  \<open>board.object && node === board.object\<close> is false when there is no checkpoint.
\<close>

definition isSpecialNode :: "board \<Rightarrow> cell \<Rightarrow> bool" where
  "isSpecialNode b c =
     (c = start b \<or> c = target b \<or> (case object b of None \<Rightarrow> False | Some ob \<Rightarrow> c = ob))"

definition addBorder :: "board \<Rightarrow> board option" where
  "addBorder b =
     forEach (allCells b)
       (\<lambda>c b'. if onBorder b' c \<and> \<not> isSpecialNode b' c
                then (case setStatus b' c ''wall'' of
                        None \<Rightarrow> None
                      | Some b'' \<Rightarrow> Some (pushWall b'' (WallEntry c None)))
                else Some b') b"

definition spliceWall :: "cell \<Rightarrow> board \<Rightarrow> board option" where
  "spliceWall c b = map_option (\<lambda>ws. b\<lparr>wallsToAnimate := ws\<rparr>) (removeWall (wallsToAnimate b) c)"

definition randomWall :: "cell \<Rightarrow> board \<Rightarrow> board option" where
  "randomWall c b =
     (case setStatus b c ''wall'' of
        None \<Rightarrow> None
      | Some b' \<Rightarrow> Some (pushWall b' (WallEntry c None)))"

text \<open>
  \<open>directions.sort(() => Math.random() - 0.5)\<close>: with a comparator that answers at
  random, the order the sort leaves and the number of random numbers it draws are the
  engine's. They are a parameter: from the array and the index of the next random number
  to the array after the sort and the index after its last draw.
\<close>

type_synonym randomSort = "(int \<times> int) list \<Rightarrow> nat \<Rightarrow> (int \<times> int) list \<times> nat"

text \<open>
  The body of the two loops over every second row and column: a node that is not
  special becomes a wall with probability \<open>density\<close>, and the wall is extended by one
  or two cells. Reading a direction that the sorted array does not hold fails.
\<close>

definition seedWall :: "random \<Rightarrow> randomSort \<Rightarrow> cell \<Rightarrow> board \<times> nat \<Rightarrow> (board \<times> nat) option" where
  "seedWall rnd srt c bk =
     (let b = fst bk; k = snd bk in
      if \<not> isSpecialNode b c
      then
        if rnd k < 0.25
        then
          case randomWall c b of
            None \<Rightarrow> None
          | Some b1 \<Rightarrow>
              let numExtensions = (if rnd (k + 1) < 0.3 then 2 else 1 :: nat);
                  shuffled = srt [(0, 1), (0, - 1), (1, 0), (- 1, 0)] (k + 2);
                  shuffledDirections = fst shuffled
              in
              case forEach [0..<numExtensions]
                     (\<lambda>i b'. if i < length shuffledDirections
                              then let extendedNode = (fst c + fst (shuffledDirections ! i),
                                                       snd c + snd (shuffledDirections ! i))
                                   in if \<not> isSpecialNode b' extendedNode
                                      then randomWall extendedNode b' else Some b'
                              else None) b1 of
                None \<Rightarrow> None
              | Some b2 \<Rightarrow> Some (b2, snd shuffled)
        else Some (b, k + 1)
      else Some (b, k))"

text \<open>The cells of the square of radius 2 around a cell, as the two loops from -2 to 2 visit them.\<close>

definition around :: "cell \<Rightarrow> cell list" where
  "around c = concat (map (\<lambda>i. map (\<lambda>j. (fst c + i, snd c + j)) [- 2..2]) [- 2..2])"

definition inBoard :: "board \<Rightarrow> cell \<Rightarrow> bool" where
  "inBoard b c = (0 \<le> fst c \<and> fst c < height b \<and> 0 \<le> snd c \<and> snd c < width b)"

text \<open>The clearing at the end of \<open>generateBasicRandomMaze\<close>, around the start and the target.\<close>

definition clearPaths :: "board \<Rightarrow> board option" where
  "clearPaths b =
     forEach [start b, target b]
       (\<lambda>specialNode. forEach (around specialNode)
          (\<lambda>c b'. if inBoard b c
                   then if \<not> isSpecialNode b' c
                        then (case setStatus b' c ''unvisited'' of
                                None \<Rightarrow> None
                              | Some b'' \<Rightarrow> spliceWall c b'')
                        else Some b'
                   else Some b')) b"

definition everySecondBelow :: "int \<Rightarrow> int \<Rightarrow> int list" where
  "everySecondBelow a b = everySecond a (b - 1)"

definition generateBasicRandomMaze :: "random \<Rightarrow> randomSort \<Rightarrow> board \<times> nat \<Rightarrow> (board \<times> nat) option" where
  "generateBasicRandomMaze rnd srt bk =
     (case addBorder (fst bk) of
        None \<Rightarrow> None
      | Some b1 \<Rightarrow>
          (case forEach
                  (concat (map (\<lambda>r. map (\<lambda>c. (r, c)) (everySecondBelow 2 (width (fst bk) - 2)))
                             (everySecondBelow 2 (height (fst bk) - 2))))
                  (seedWall rnd srt) (b1, snd bk) of
             None \<Rightarrow> None
           | Some bk2 \<Rightarrow>
               (case clearPaths (fst bk2) of
                  None \<Rightarrow> None
                | Some b3 \<Rightarrow> Some (b3, snd bk2))))"

section \<open>RandomMaze.js\<close>

text \<open>\<open>clearAroundSpecialNodes\<close>: around the start, the target and the checkpoint.\<close>

definition clearAroundSpecialNodes :: "board \<Rightarrow> board option" where
  "clearAroundSpecialNodes b =
     forEach ([start b, target b] @ (case object b of None \<Rightarrow> [] | Some ob \<Rightarrow> [ob]))
       (\<lambda>specialNode. forEach (around specialNode)
          (\<lambda>c b'. if inBoard b' c
                   then if \<not> isSpecialNode b' c
                        then (case setStatus b' c ''unvisited'' of
                                None \<Rightarrow> None
                              | Some b'' \<Rightarrow> setWeight b'' c 0)
                        else Some b'
                   else Some b')) b"

text \<open>The three passes of \<open>generateRandomMaze\<close>, after the reset of all nodes.\<close>

definition resetNode :: "cell \<Rightarrow> board \<Rightarrow> board option" where
  "resetNode c b =
     (if \<not> isSpecialNode b c
      then (case setStatus b c ''unvisited'' of None \<Rightarrow> None | Some b' \<Rightarrow> setWeight b' c 0)
      else Some b)"

definition firstPass :: "random \<Rightarrow> cell \<Rightarrow> board \<times> nat \<Rightarrow> (board \<times> nat) option" where
  "firstPass rnd c bk =
     (let b = fst bk; k = snd bk in
      if \<not> isSpecialNode b c
      then if rnd k < 0.3
           then (case randomWall c b of None \<Rightarrow> None | Some b' \<Rightarrow> Some (b', k + 1))
           else Some (b, k + 1)
      else Some (b, k))"

definition adjacentWalls :: "board \<Rightarrow> cell \<Rightarrow> nat" where
  "adjacentWalls b c =
     length (filter (\<lambda>d. d \<noteq> (0, 0) \<and>
                          (case nodes b (fst c + fst d, snd c + snd d) of
                             None \<Rightarrow> False
                           | Some n \<Rightarrow> status n = ''wall''))
               (concat (map (\<lambda>i. map (\<lambda>j. (i, j)) [- 1..1]) [- 1..1])))"

definition secondPass :: "random \<Rightarrow> cell \<Rightarrow> board \<times> nat \<Rightarrow> (board \<times> nat) option" where
  "secondPass rnd c bk =
     (let b = fst bk; k = snd bk in
      if \<not> isSpecialNode b c
      then if adjacentWalls b c \<ge> 2
           then if rnd k < 0.45
                then (case randomWall c b of None \<Rightarrow> None | Some b' \<Rightarrow> Some (b', k + 1))
                else Some (b, k + 1)
           else Some (b, k)
      else Some (b, k))"

definition thirdPass :: "random \<Rightarrow> cell \<Rightarrow> board \<times> nat \<Rightarrow> (board \<times> nat) option" where
  "thirdPass rnd c bk =
     (let b = fst bk; k = snd bk in
      if \<not> isSpecialNode b c
      then if rnd k < 0.4
           then (case setStatus b c ''unvisited'' of
                   None \<Rightarrow> None
                 | Some b' \<Rightarrow> map_option (\<lambda>b''. (b'', k + 1)) (spliceWall c b'))
           else Some (b, k + 1)
      else Some (b, k))"

definition generateRandomMaze :: "random \<Rightarrow> board \<times> nat \<Rightarrow> (board \<times> nat) option" where
  "generateRandomMaze rnd bk =
     (let h = height (fst bk); w = width (fst bk) in
      case forEach (allCells (fst bk)) resetNode (fst bk) of
        None \<Rightarrow> None
      | Some b0 \<Rightarrow>
          (case forEach (allCells (fst bk)) (firstPass rnd) (b0, snd bk) of
             None \<Rightarrow> None
           | Some bk1 \<Rightarrow>
               (case forEach (concat (map (\<lambda>r. map (\<lambda>c. (r, c)) [1..w - 2]) [1..h - 2]))
                       (secondPass rnd) bk1 of
                  None \<Rightarrow> None
                | Some bk2 \<Rightarrow>
                    (case forEach
                            (concat (map (\<lambda>r. map (\<lambda>c. (r, c)) (everySecondBelow 0 w))
                                       (everySecondBelow 0 h)))
                            (thirdPass rnd) bk2 of
                       None \<Rightarrow> None
                     | Some bk3 \<Rightarrow>
                         (case clearAroundSpecialNodes (fst bk3) of
                            None \<Rightarrow> None
                          | Some b4 \<Rightarrow> Some (b4, snd bk3))))))"

text \<open>
  The boards of the concrete scenarios: a square, every node unvisited with weight 0,
  nothing to animate yet; the start, the target and the checkpoint as given.
\<close>

definition squareBoard :: "int \<Rightarrow> cell \<Rightarrow> cell \<Rightarrow> cell option \<Rightarrow> board" where
  "squareBoard n s t ob =
     \<lparr>height = n, width = n, start = s, target = t, object = ob,
      nodes = (\<lambda>c. if 0 \<le> fst c \<and> fst c < n \<and> 0 \<le> snd c \<and> snd c < n
                   then Some \<lparr>status = ''unvisited'', weight = 0\<rparr> else None),
      wallsToAnimate = []\<rparr>"

text \<open>
  A source of random numbers that answers 0.1 every time, and a document with no
  element. With that source the comparator of the sort answers -0.4 at every call; the
  sort taken for it is one that holds the array, after three comparisons, for one
  descending run and reverses it.
\<close>

definition lowDraws :: random where
  "lowDraws = (\<lambda>i. 1 / 10)"

definition descendingRun :: randomSort where
  "descendingRun = (\<lambda>ds k. (rev ds, k + 3))"

definition noElements :: "cell \<Rightarrow> bool" where
  "noElements = (\<lambda>c. False)"

text \<open>The status of a cell after a generator has run: \<open>None\<close> if it failed or the cell has no node.\<close>

definition statusAfter :: "board option \<Rightarrow> cell \<Rightarrow> string option" where
  "statusAfter r c =
     (case r of None \<Rightarrow> None
      | Some b \<Rightarrow> (case nodes b c of None \<Rightarrow> None | Some n \<Rightarrow> Some (status n)))"

text \<open>Whether the list to animate, after a generator has run, holds an entry with the id of a cell.\<close>

definition placedAfter :: "board option \<Rightarrow> cell \<Rightarrow> bool" where
  "placedAfter r c =
     (case r of None \<Rightarrow> False
      | Some b \<Rightarrow> list_ex (\<lambda>entry. entryId entry = Some c) (wallsToAnimate b))"




section \<open>Names for the proofs\<close>

text \<open>\<open>closestNode.isVisited = true\<close>, as the four loops write it.\<close>

definition markVisited :: "grid \<Rightarrow> pos \<Rightarrow> grid" where
  "markVisited g c = updNode g c (\<lambda>n. n\<lparr>isVisited := True\<rparr>)"

text \<open>Two cells are 4-adjacent: one step up, down, left or right apart.\<close>

definition adj4 :: "pos \<Rightarrow> pos \<Rightarrow> bool" where
  "adj4 p q =
     ((fst p = fst q \<and> (snd p = Suc (snd q) \<or> snd q = Suc (snd p))) \<or>
      (snd p = snd q \<and> (fst p = Suc (fst q) \<or> fst q = Suc (fst p))))"

text \<open>
  Walking through the grid: a cell is open when it is inside the grid and not a wall; a
  walk is a non-empty sequence of open cells, each 4-adjacent to the next; a cell is
  reachable from another when a walk leads from the one to the other.
\<close>

definition openCell :: "grid \<Rightarrow> pos \<Rightarrow> bool" where
  "openCell g p = (inb g p \<and> \<not> isWall (nodeAt g p))"

definition walk :: "grid \<Rightarrow> pos list \<Rightarrow> bool" where
  "walk g ps = (ps \<noteq> [] \<and> list_all (openCell g) ps \<and> successively adj4 ps)"

definition reachable :: "grid \<Rightarrow> pos \<Rightarrow> pos \<Rightarrow> bool" where
  "reachable g s t = (\<exists>ps. walk g ps \<and> hd ps = s \<and> last ps = t)"

text \<open>
  What one relaxation step, of either engine, does to the grid \<open>g1\<close> in which \<open>c\<close> was
  just marked visited: walls and visited marks stay; a node keeps its distance and
  \<open>previousNode\<close>, or it is an unvisited neighbour of \<open>c\<close> and gets the distance of \<open>c\<close>
  plus one and \<open>previousNode = c\<close>; afterwards no unvisited neighbour of \<open>c\<close> is farther
  than that.
\<close>

definition relaxedFrom :: "grid \<Rightarrow> pos \<Rightarrow> grid \<Rightarrow> bool" where
  "relaxedFrom g1 c g' =
     (wf_grid g' \<and> inb g' = inb g1 \<and>
      (\<forall>q. inb g1 q \<longrightarrow>
         isWall (nodeAt g' q) = isWall (nodeAt g1 q) \<and>
         isVisited (nodeAt g' q) = isVisited (nodeAt g1 q) \<and>
         ((distance (nodeAt g' q) = distance (nodeAt g1 q) \<and>
           previousNode (nodeAt g' q) = previousNode (nodeAt g1 q)) \<or>
          (adj4 c q \<and> \<not> isVisited (nodeAt g1 q) \<and>
           distance (nodeAt g' q) = distance (nodeAt g1 c) + 1 \<and>
           previousNode (nodeAt g' q) = Some c)) \<and>
         (adj4 c q \<and> \<not> isVisited (nodeAt g1 q) \<longrightarrow>
            distance (nodeAt g' q) \<le> distance (nodeAt g1 c) + 1)))"

text \<open>
  The invariant of the four loops, in three parts, for the start \<open>s\<close>, the target
  \<open>e\<close>, the grid \<open>g\<close>, the work list \<open>u\<close> and the visited order \<open>v\<close>; \<open>g0\<close> is
  the grid the search was called on.
\<close>

text \<open>The shape of the grid and its walls stay.\<close>

definition gridInv :: "grid \<Rightarrow> grid \<Rightarrow> bool" where
  "gridInv g0 g =
     (wf_grid g \<and>
      inb g = inb g0 \<and>
      (\<forall>p. inb g0 p \<longrightarrow> isWall (nodeAt g p) = isWall (nodeAt g0 p)))"

text \<open>The visited order holds the visited nodes, none of them a wall; every other open cell is in the work list.\<close>

definition listInv :: "grid \<Rightarrow> grid \<Rightarrow> pos list \<Rightarrow> pos list \<Rightarrow> bool" where
  "listInv g0 g u v =
     (distinct u \<and>
      (\<forall>p\<in>set u. inb g0 p) \<and>
      distinct v \<and>
      set v \<inter> set u = {} \<and>
      (\<forall>p. inb g0 p \<longrightarrow> isVisited (nodeAt g p) = (p \<in> set v)) \<and>
      (\<forall>p\<in>set v. inb g0 p \<and> \<not> isWall (nodeAt g p)) \<and>
      (\<forall>p. inb g0 p \<and> \<not> isWall (nodeAt g p) \<and> p \<notin> set v \<longrightarrow> p \<in> set u))"

text \<open>Distances and \<open>previousNode\<close> links: a link leads to a visited neighbour one step nearer; the neighbours of a visited node other than the target have a distance.\<close>

definition distInv :: "grid \<Rightarrow> pos \<Rightarrow> pos \<Rightarrow> grid \<Rightarrow> pos list \<Rightarrow> bool" where
  "distInv g0 s e g v =
     (inb g0 s \<and>
      (\<forall>p\<in>set v. distance (nodeAt g p) \<noteq> \<infinity>) \<and>
      (\<forall>p\<in>set v. p \<noteq> e \<longrightarrow> (\<forall>q. inb g0 q \<and> adj4 p q \<longrightarrow> distance (nodeAt g q) \<noteq> \<infinity>)) \<and>
      (\<forall>q p. inb g0 q \<and> previousNode (nodeAt g q) = Some p \<longrightarrow> p \<in> set v \<and> adj4 p q \<and> distance (nodeAt g q) = distance (nodeAt g p) + 1) \<and>
      (\<forall>q. inb g0 q \<and> previousNode (nodeAt g q) = None \<and> q \<noteq> s \<longrightarrow> distance (nodeAt g q) = \<infinity>) \<and>
      distance (nodeAt g s) = 0 \<and>
      previousNode (nodeAt g s) = None \<and>
      (s \<in> set v \<or> (v = [] \<and> (\<forall>q. inb g0 q \<and> q \<noteq> s \<longrightarrow> distance (nodeAt g q) = \<infinity>))))"

definition searchInv :: "grid \<Rightarrow> pos \<Rightarrow> pos \<Rightarrow> grid \<Rightarrow> pos list \<Rightarrow> pos list \<Rightarrow> bool" where
  "searchInv g0 s e g u v = (gridInv g0 g \<and> listInv g0 g u v \<and> distInv g0 s e g v)"

text \<open>
  How a search ends: the invariant holds; the target, if visited, is the last node of
  the visited order; and if the target is not visited, no open cell outside the visited
  order has a distance.
\<close>

definition searchDone :: "grid \<Rightarrow> pos \<Rightarrow> pos \<Rightarrow> grid \<Rightarrow> pos list \<Rightarrow> bool" where
  "searchDone g0 s e g v =
     ((\<exists>u. searchInv g0 s e g u v) \<and>
      (e \<in> set v \<longrightarrow> last v = e) \<and>
      (e \<notin> set v \<longrightarrow>
         (\<forall>p. inb g0 p \<and> \<not> isWall (nodeAt g p) \<and> p \<notin> set v \<longrightarrow> distance (nodeAt g p) = \<infinity>)))"

text \<open>In A*, a node has a total distance exactly when it has a distance.\<close>

definition keyInv :: "grid \<Rightarrow> grid \<Rightarrow> bool" where
  "keyInv g0 g =
     (\<forall>q. inb g0 q \<longrightarrow> (totalDistance (nodeAt g q) = \<infinity>) = (distance (nodeAt g q) = \<infinity>))"

text \<open>The grids the two searches start their loops on.\<close>

definition dijkstraStart :: "grid \<Rightarrow> pos \<Rightarrow> grid" where
  "dijkstraStart g s =
     updNode (resetDijkstra (updNode g s (\<lambda>n. n\<lparr>distance := 0\<rparr>))) s (\<lambda>n. n\<lparr>distance := 0\<rparr>)"

definition astarStart :: "grid \<Rightarrow> pos \<Rightarrow> pos \<Rightarrow> grid" where
  "astarStart g s f =
     updNode (resetAstar g s f) s
       (\<lambda>n. n\<lparr>distance := 0,
               heuristic := manhattanDistance n (nodeAt (resetAstar g s f) f),
               totalDistance := enat (manhattanDistance n (nodeAt (resetAstar g s f) f)),
               previousNode := None,
               isVisited := False\<rparr>)"

text \<open>
  What holds in the loops of Dijkstra beyond the common invariant: a distance has the
  parity of the cell's Manhattan distance from the start; no visited node is farther
  than an open cell of the work list; across an edge from a visited node other than the
  target the distance grows by at most one; the visited order is ordered by distance.
\<close>

definition bfsInv :: "grid \<Rightarrow> pos \<Rightarrow> pos \<Rightarrow> grid \<Rightarrow> pos list \<Rightarrow> pos list \<Rightarrow> bool" where
  "bfsInv g0 s e g u v =
     ((\<forall>q d. inb g0 q \<and> distance (nodeAt g q) = enat d \<longrightarrow> even (d + fst q + snd q + fst s + snd s)) \<and>
      (\<forall>a\<in>set v. \<forall>b\<in>set u. \<not> isWall (nodeAt g b) \<longrightarrow> distance (nodeAt g a) \<le> distance (nodeAt g b)) \<and>
      (\<forall>a\<in>set v. a \<noteq> e \<longrightarrow> (\<forall>q. inb g0 q \<and> adj4 a q \<and> \<not> isWall (nodeAt g q) \<longrightarrow> distance (nodeAt g q) \<le> distance (nodeAt g a) + 1)) \<and>
      sorted (map (\<lambda>p. distance (nodeAt g p)) v))"

text \<open>
  The states of the loop of Dijkstra during one search, iteration by iteration, for both
  speeds: the grid, the work list and the visited order. One iteration sorts the work
  list and takes its first node: a wall is dropped; an open node with a distance, other
  than the target, is marked visited and its neighbours are relaxed; in every other
  case the loop ends there and there is no next state.
\<close>

definition dijkstraIteration ::
  "pos \<Rightarrow> grid \<times> pos list \<times> pos list \<Rightarrow> (grid \<times> pos list \<times> pos list) option"
where
  "dijkstraIteration endNode st =
     (case sortNodesByDistance (fst st) (fst (snd st)) of
        [] \<Rightarrow> None
      | closestNode # rest \<Rightarrow>
          if isWall (nodeAt (fst st) closestNode) then Some (fst st, rest, snd (snd st))
          else if distance (nodeAt (fst st) closestNode) = \<infinity> then None
          else if closestNode = endNode then None
          else Some (updateUnvisitedNeighbors closestNode (markVisited (fst st) closestNode),
                     rest, snd (snd st) @ [closestNode]))"

fun dijkstraStateAt :: "grid \<Rightarrow> pos \<Rightarrow> pos \<Rightarrow> nat \<Rightarrow> (grid \<times> pos list \<times> pos list) option" where
  "dijkstraStateAt g startNode endNode 0 = Some (dijkstraStart g startNode, getAllNodes g, [])"
| "dijkstraStateAt g startNode endNode (Suc n) =
     (case dijkstraStateAt g startNode endNode n of
        None \<Rightarrow> None
      | Some st \<Rightarrow> dijkstraIteration endNode st)"

section \<open>What a maze generator leaves as it was\<close>

text \<open>
  The entries of a list to animate that name a special node: the wall placements on
  special nodes.
\<close>

definition placementsOn :: "(cell \<Rightarrow> bool) \<Rightarrow> wallEntry list \<Rightarrow> wallEntry list" where
  "placementsOn special ws =
     filter (\<lambda>entry. case entryId entry of None \<Rightarrow> False | Some c \<Rightarrow> special c) ws"

text \<open>
  Between two boards, the dimensions and the ids of the start, the target and the
  checkpoint are the same, every node that \<open>sp\<close> calls special is the same, and so
  are the wall placements on special nodes: none was added and none removed.
\<close>

definition frame :: "(board \<Rightarrow> cell \<Rightarrow> bool) \<Rightarrow> board \<Rightarrow> board \<Rightarrow> bool" where
  "frame sp b b' =
     (height b' = height b \<and> width b' = width b \<and> start b' = start b \<and>
      target b' = target b \<and> object b' = object b \<and>
      (\<forall>c. sp b c \<longrightarrow> nodes b' c = nodes b c) \<and>
      placementsOn (sp b) (wallsToAnimate b') = placementsOn (sp b) (wallsToAnimate b))"

text \<open>
  A cell is within radius 2 of another. A cell is open in \<open>board.nodes\<close>: it has a
  node, with the status \<open>unvisited\<close>.
\<close>

definition near :: "cell \<Rightarrow> cell \<Rightarrow> bool" where
  "near s c = (\<bar>fst c - fst s\<bar> \<le> 2 \<and> \<bar>snd c - snd s\<bar> \<le> 2)"

definition cleared :: "board \<Rightarrow> cell \<Rightarrow> bool" where
  "cleared b c = (case nodes b c of None \<Rightarrow> False | Some n \<Rightarrow> status n = ''unvisited'')"

text \<open>
  Every cell of the board within radius 2 of \<open>s\<close> that is not special is open in
  \<open>board.nodes\<close>.
\<close>

definition clearedAround :: "board \<Rightarrow> cell \<Rightarrow> bool" where
  "clearedAround b s =
     (\<forall>c. near s c \<and> inBoard b c \<and> \<not> isSpecialNode b c \<longrightarrow> cleared b c)"

section \<open>Paths on a board\<close>

text \<open>
  A cell is placed when the list to animate holds an entry with its id. A cell is free
  when it has a node whose status is not \<open>wall\<close> and it is not placed: it is a wall
  neither in \<open>board.nodes\<close> nor for the caller, who makes a wall of every entry of the
  list.
\<close>

definition placed :: "board \<Rightarrow> cell \<Rightarrow> bool" where
  "placed b c = list_ex (\<lambda>entry. entryId entry = Some c) (wallsToAnimate b)"

definition freeCell :: "board \<Rightarrow> cell \<Rightarrow> bool" where
  "freeCell b c =
     (case nodes b c of None \<Rightarrow> False | Some n \<Rightarrow> status n \<noteq> ''wall'' \<and> \<not> placed b c)"

text \<open>
  Two cells are neighbours, one step up, down, left or right apart. A path in a set of
  cells is a non-empty sequence of free cells of the set, each a neighbour of the next.
  Two cells are joined in the set when a path in it leads from the one to the other.
\<close>

definition neighbours :: "cell \<Rightarrow> cell \<Rightarrow> bool" where
  "neighbours c d =
     ((fst c = fst d \<and> \<bar>snd c - snd d\<bar> = 1) \<or> (snd c = snd d \<and> \<bar>fst c - fst d\<bar> = 1))"

definition pathIn :: "board \<Rightarrow> (cell \<Rightarrow> bool) \<Rightarrow> cell list \<Rightarrow> bool" where
  "pathIn b S ps = (ps \<noteq> [] \<and> list_all (\<lambda>c. S c \<and> freeCell b c) ps \<and> successively neighbours ps)"

definition joined :: "board \<Rightarrow> (cell \<Rightarrow> bool) \<Rightarrow> cell \<Rightarrow> cell \<Rightarrow> bool" where
  "joined b S c d = (\<exists>ps. pathIn b S ps \<and> hd ps = c \<and> last ps = d)"








section \<open>Reading and writing nodes\<close>

lemma length_updNode [simp]: "length (updNode g p f) = length g"
  by (simp add: updNode_def)

lemma length_row_updNode [simp]: "length (updNode g p f ! r) = length (g ! r)"
proof (cases "r = fst p")
  case True
  then show ?thesis
    by (cases "fst p < length g") (simp_all add: updNode_def list_update_beyond)
next
  case False
  then show ?thesis by (simp add: updNode_def)
qed

lemma inb_updNode [simp]: "inb (updNode g p f) q = inb g q"
  by (simp add: inb_def)

lemma nodeAt_updNode:
  "nodeAt (updNode g p f) q = (if p = q \<and> inb g p then f (nodeAt g p) else nodeAt g q)"
proof (cases "fst p = fst q")
  case True
  note rows = this
  show ?thesis
  proof (cases "fst p < length g")
    case True
    with rows show ?thesis
      by (cases "snd p = snd q")
        (auto simp: nodeAt_def updNode_def inb_def prod_eq_iff list_update_beyond)
  next
    case False
    with rows show ?thesis
      by (auto simp: nodeAt_def updNode_def inb_def list_update_beyond)
  qed
next
  case False
  then show ?thesis by (auto simp: nodeAt_def updNode_def)
qed

section \<open>The four search loops, case by case\<close>

lemma dijkstraInstant_cases:
  "sortNodesByDistance g u = [] \<Longrightarrow> dijkstraInstant sp e g u v d = (v, g, d)"
  "sortNodesByDistance g u = c # rest \<Longrightarrow> isWall (nodeAt g c) \<Longrightarrow>
     dijkstraInstant sp e g u v d = dijkstraInstant sp e g rest v d"
  "sortNodesByDistance g u = c # rest \<Longrightarrow> \<not> isWall (nodeAt g c) \<Longrightarrow>
     distance (nodeAt g c) = \<infinity> \<Longrightarrow> dijkstraInstant sp e g u v d = (v, g, d)"
  "sortNodesByDistance g u = c # rest \<Longrightarrow> \<not> isWall (nodeAt g c) \<Longrightarrow>
     distance (nodeAt g c) = enat k \<Longrightarrow> c = e \<Longrightarrow>
     fst (dijkstraInstant sp e g u v d) = v @ [c] \<and>
     fst (snd (dijkstraInstant sp e g u v d)) = markVisited g c"
  "sortNodesByDistance g u = c # rest \<Longrightarrow> \<not> isWall (nodeAt g c) \<Longrightarrow>
     distance (nodeAt g c) = enat k \<Longrightarrow> c \<noteq> e \<Longrightarrow>
     \<exists>d'. dijkstraInstant sp e g u v d = dijkstraInstant sp e (updateUnvisitedNeighbors c (markVisited g c)) rest (v @ [c]) d'"
  by (subst dijkstraInstant.simps, auto simp add: Let_def markVisited_def)+

lemma dijkstraInstant_rule:
  assumes init: "I g u v"
    and wall: "\<And>g u v c rest. I g u v \<Longrightarrow> sortNodesByDistance g u = c # rest \<Longrightarrow>
                 isWall (nodeAt g c) \<Longrightarrow> I g rest v"
    and step: "\<And>g u v c rest k. I g u v \<Longrightarrow> sortNodesByDistance g u = c # rest \<Longrightarrow>
                 \<not> isWall (nodeAt g c) \<Longrightarrow> distance (nodeAt g c) = enat k \<Longrightarrow> c \<noteq> e \<Longrightarrow>
                 I (updateUnvisitedNeighbors c (markVisited g c)) rest (v @ [c])"
    and empty: "\<And>g u v. I g u v \<Longrightarrow> sortNodesByDistance g u = [] \<Longrightarrow> Q v g"
    and inf: "\<And>g u v c rest. I g u v \<Longrightarrow> sortNodesByDistance g u = c # rest \<Longrightarrow>
                 \<not> isWall (nodeAt g c) \<Longrightarrow> distance (nodeAt g c) = \<infinity> \<Longrightarrow> Q v g"
    and found: "\<And>g u v c rest k. I g u v \<Longrightarrow> sortNodesByDistance g u = c # rest \<Longrightarrow>
                 \<not> isWall (nodeAt g c) \<Longrightarrow> distance (nodeAt g c) = enat k \<Longrightarrow> c = e \<Longrightarrow>
                 Q (v @ [c]) (markVisited g c)"
  shows "Q (fst (dijkstraInstant sp e g u v d)) (fst (snd (dijkstraInstant sp e g u v d)))"
  using init
proof (induction "length u" arbitrary: g u v d)
  case 0
  then have "sortNodesByDistance g u = []" by (simp add: sortNodesByDistance_def)
  with empty [OF "0.prems"] show ?case by (simp add: dijkstraInstant_cases(1))
next
  case (Suc n)
  show ?case
  proof (cases "sortNodesByDistance g u")
    case Nil
    with empty [OF Suc.prems] show ?thesis by (simp add: dijkstraInstant_cases(1))
  next
    case (Cons c rest)
    then have len: "n = length rest"
      using Suc.hyps(2) by (metis length_Cons length_sort sortNodesByDistance_def nat.inject)
    show ?thesis
    proof (cases "isWall (nodeAt g c)")
      case True
      from Suc.hyps(1) [OF len wall [OF Suc.prems Cons True]]
      show ?thesis by (simp add: dijkstraInstant_cases(2) [OF Cons True])
    next
      case False
      note open_cell = this
      show ?thesis
      proof (cases "distance (nodeAt g c)")
        case infinity
        with inf [OF Suc.prems Cons open_cell] show ?thesis
          by (simp add: dijkstraInstant_cases(3) [OF Cons open_cell])
      next
        case (enat k)
        show ?thesis
        proof (cases "c = e")
          case True
          from found [OF Suc.prems Cons open_cell enat True]
          show ?thesis by (simp add: dijkstraInstant_cases(4) [OF Cons open_cell enat True])
        next
          case False
          from dijkstraInstant_cases(5) [OF Cons open_cell enat False]
          obtain d' where eq: "dijkstraInstant sp e g u v d = dijkstraInstant sp e (updateUnvisitedNeighbors c (markVisited g c)) rest (v @ [c]) d'"
            by blast
          from Suc.hyps(1) [OF len step [OF Suc.prems Cons open_cell enat False]]
          show ?thesis by (simp add: eq)
        qed
      qed
    qed
  qed
qed

lemma dijkstraAnimated_cases:
  "sortNodesByDistance g u = [] \<Longrightarrow> dijkstraAnimated sp e g u v d = (v, g, d)"
  "sortNodesByDistance g u = c # rest \<Longrightarrow> isWall (nodeAt g c) \<Longrightarrow>
     dijkstraAnimated sp e g u v d = dijkstraAnimated sp e g rest v d"
  "sortNodesByDistance g u = c # rest \<Longrightarrow> \<not> isWall (nodeAt g c) \<Longrightarrow>
     distance (nodeAt g c) = \<infinity> \<Longrightarrow> dijkstraAnimated sp e g u v d = (v, g, d)"
  "sortNodesByDistance g u = c # rest \<Longrightarrow> \<not> isWall (nodeAt g c) \<Longrightarrow>
     distance (nodeAt g c) = enat k \<Longrightarrow> c = e \<Longrightarrow>
     fst (dijkstraAnimated sp e g u v d) = v @ [c] \<and>
     fst (snd (dijkstraAnimated sp e g u v d)) = markVisited g c"
  "sortNodesByDistance g u = c # rest \<Longrightarrow> \<not> isWall (nodeAt g c) \<Longrightarrow>
     distance (nodeAt g c) = enat k \<Longrightarrow> c \<noteq> e \<Longrightarrow>
     \<exists>d'. dijkstraAnimated sp e g u v d = dijkstraAnimated sp e (updateUnvisitedNeighbors c (markVisited g c)) rest (v @ [c]) d'"
  by (subst dijkstraAnimated.simps, auto simp add: Let_def markVisited_def)+

lemma dijkstraAnimated_rule:
  assumes init: "I g u v"
    and wall: "\<And>g u v c rest. I g u v \<Longrightarrow> sortNodesByDistance g u = c # rest \<Longrightarrow>
                 isWall (nodeAt g c) \<Longrightarrow> I g rest v"
    and step: "\<And>g u v c rest k. I g u v \<Longrightarrow> sortNodesByDistance g u = c # rest \<Longrightarrow>
                 \<not> isWall (nodeAt g c) \<Longrightarrow> distance (nodeAt g c) = enat k \<Longrightarrow> c \<noteq> e \<Longrightarrow>
                 I (updateUnvisitedNeighbors c (markVisited g c)) rest (v @ [c])"
    and empty: "\<And>g u v. I g u v \<Longrightarrow> sortNodesByDistance g u = [] \<Longrightarrow> Q v g"
    and inf: "\<And>g u v c rest. I g u v \<Longrightarrow> sortNodesByDistance g u = c # rest \<Longrightarrow>
                 \<not> isWall (nodeAt g c) \<Longrightarrow> distance (nodeAt g c) = \<infinity> \<Longrightarrow> Q v g"
    and found: "\<And>g u v c rest k. I g u v \<Longrightarrow> sortNodesByDistance g u = c # rest \<Longrightarrow>
                 \<not> isWall (nodeAt g c) \<Longrightarrow> distance (nodeAt g c) = enat k \<Longrightarrow> c = e \<Longrightarrow>
                 Q (v @ [c]) (markVisited g c)"
  shows "Q (fst (dijkstraAnimated sp e g u v d)) (fst (snd (dijkstraAnimated sp e g u v d)))"
  using init
proof (induction "length u" arbitrary: g u v d)
  case 0
  then have "sortNodesByDistance g u = []" by (simp add: sortNodesByDistance_def)
  with empty [OF "0.prems"] show ?case by (simp add: dijkstraAnimated_cases(1))
next
  case (Suc n)
  show ?case
  proof (cases "sortNodesByDistance g u")
    case Nil
    with empty [OF Suc.prems] show ?thesis by (simp add: dijkstraAnimated_cases(1))
  next
    case (Cons c rest)
    then have len: "n = length rest"
      using Suc.hyps(2) by (metis length_Cons length_sort sortNodesByDistance_def nat.inject)
    show ?thesis
    proof (cases "isWall (nodeAt g c)")
      case True
      from Suc.hyps(1) [OF len wall [OF Suc.prems Cons True]]
      show ?thesis by (simp add: dijkstraAnimated_cases(2) [OF Cons True])
    next
      case False
      note open_cell = this
      show ?thesis
      proof (cases "distance (nodeAt g c)")
        case infinity
        with inf [OF Suc.prems Cons open_cell] show ?thesis
          by (simp add: dijkstraAnimated_cases(3) [OF Cons open_cell])
      next
        case (enat k)
        show ?thesis
        proof (cases "c = e")
          case True
          from found [OF Suc.prems Cons open_cell enat True]
          show ?thesis by (simp add: dijkstraAnimated_cases(4) [OF Cons open_cell enat True])
        next
          case False
          from dijkstraAnimated_cases(5) [OF Cons open_cell enat False]
          obtain d' where eq: "dijkstraAnimated sp e g u v d = dijkstraAnimated sp e (updateUnvisitedNeighbors c (markVisited g c)) rest (v @ [c]) d'"
            by blast
          from Suc.hyps(1) [OF len step [OF Suc.prems Cons open_cell enat False]]
          show ?thesis by (simp add: eq)
        qed
      qed
    qed
  qed
qed

lemma astarInstant_cases:
  "sortNodesByTotalDistance g u = [] \<Longrightarrow> astarInstant sp e g u v d = (v, g, d)"
  "sortNodesByTotalDistance g u = c # rest \<Longrightarrow> isWall (nodeAt g c) \<Longrightarrow>
     astarInstant sp e g u v d = astarInstant sp e g rest v d"
  "sortNodesByTotalDistance g u = c # rest \<Longrightarrow> \<not> isWall (nodeAt g c) \<Longrightarrow>
     totalDistance (nodeAt g c) = \<infinity> \<Longrightarrow> astarInstant sp e g u v d = (v, g, d)"
  "sortNodesByTotalDistance g u = c # rest \<Longrightarrow> \<not> isWall (nodeAt g c) \<Longrightarrow>
     totalDistance (nodeAt g c) = enat k \<Longrightarrow> c = e \<Longrightarrow>
     fst (astarInstant sp e g u v d) = v @ [c] \<and>
     fst (snd (astarInstant sp e g u v d)) = markVisited g c"
  "sortNodesByTotalDistance g u = c # rest \<Longrightarrow> \<not> isWall (nodeAt g c) \<Longrightarrow>
     totalDistance (nodeAt g c) = enat k \<Longrightarrow> c \<noteq> e \<Longrightarrow>
     \<exists>d'. astarInstant sp e g u v d = astarInstant sp e (updateUnvisitedNeighborsAstar c (markVisited g c) e) rest (v @ [c]) d'"
  by (subst astarInstant.simps, auto simp add: Let_def markVisited_def)+

lemma astarInstant_rule:
  assumes init: "I g u v"
    and wall: "\<And>g u v c rest. I g u v \<Longrightarrow> sortNodesByTotalDistance g u = c # rest \<Longrightarrow>
                 isWall (nodeAt g c) \<Longrightarrow> I g rest v"
    and step: "\<And>g u v c rest k. I g u v \<Longrightarrow> sortNodesByTotalDistance g u = c # rest \<Longrightarrow>
                 \<not> isWall (nodeAt g c) \<Longrightarrow> totalDistance (nodeAt g c) = enat k \<Longrightarrow> c \<noteq> e \<Longrightarrow>
                 I (updateUnvisitedNeighborsAstar c (markVisited g c) e) rest (v @ [c])"
    and empty: "\<And>g u v. I g u v \<Longrightarrow> sortNodesByTotalDistance g u = [] \<Longrightarrow> Q v g"
    and inf: "\<And>g u v c rest. I g u v \<Longrightarrow> sortNodesByTotalDistance g u = c # rest \<Longrightarrow>
                 \<not> isWall (nodeAt g c) \<Longrightarrow> totalDistance (nodeAt g c) = \<infinity> \<Longrightarrow> Q v g"
    and found: "\<And>g u v c rest k. I g u v \<Longrightarrow> sortNodesByTotalDistance g u = c # rest \<Longrightarrow>
                 \<not> isWall (nodeAt g c) \<Longrightarrow> totalDistance (nodeAt g c) = enat k \<Longrightarrow> c = e \<Longrightarrow>
                 Q (v @ [c]) (markVisited g c)"
  shows "Q (fst (astarInstant sp e g u v d)) (fst (snd (astarInstant sp e g u v d)))"
  using init
proof (induction "length u" arbitrary: g u v d)
  case 0
  then have "sortNodesByTotalDistance g u = []" by (simp add: sortNodesByTotalDistance_def)
  with empty [OF "0.prems"] show ?case by (simp add: astarInstant_cases(1))
next
  case (Suc n)
  show ?case
  proof (cases "sortNodesByTotalDistance g u")
    case Nil
    with empty [OF Suc.prems] show ?thesis by (simp add: astarInstant_cases(1))
  next
    case (Cons c rest)
    then have len: "n = length rest"
      using Suc.hyps(2) by (metis length_Cons length_sort sortNodesByTotalDistance_def nat.inject)
    show ?thesis
    proof (cases "isWall (nodeAt g c)")
      case True
      from Suc.hyps(1) [OF len wall [OF Suc.prems Cons True]]
      show ?thesis by (simp add: astarInstant_cases(2) [OF Cons True])
    next
      case False
      note open_cell = this
      show ?thesis
      proof (cases "totalDistance (nodeAt g c)")
        case infinity
        with inf [OF Suc.prems Cons open_cell] show ?thesis
          by (simp add: astarInstant_cases(3) [OF Cons open_cell])
      next
        case (enat k)
        show ?thesis
        proof (cases "c = e")
          case True
          from found [OF Suc.prems Cons open_cell enat True]
          show ?thesis by (simp add: astarInstant_cases(4) [OF Cons open_cell enat True])
        next
          case False
          from astarInstant_cases(5) [OF Cons open_cell enat False]
          obtain d' where eq: "astarInstant sp e g u v d = astarInstant sp e (updateUnvisitedNeighborsAstar c (markVisited g c) e) rest (v @ [c]) d'"
            by blast
          from Suc.hyps(1) [OF len step [OF Suc.prems Cons open_cell enat False]]
          show ?thesis by (simp add: eq)
        qed
      qed
    qed
  qed
qed

lemma astarAnimated_cases:
  "sortNodesByTotalDistance g u = [] \<Longrightarrow> astarAnimated sp e g u v d = (v, g, d)"
  "sortNodesByTotalDistance g u = c # rest \<Longrightarrow> isWall (nodeAt g c) \<Longrightarrow>
     astarAnimated sp e g u v d = astarAnimated sp e g rest v d"
  "sortNodesByTotalDistance g u = c # rest \<Longrightarrow> \<not> isWall (nodeAt g c) \<Longrightarrow>
     totalDistance (nodeAt g c) = \<infinity> \<Longrightarrow> astarAnimated sp e g u v d = (v, g, d)"
  "sortNodesByTotalDistance g u = c # rest \<Longrightarrow> \<not> isWall (nodeAt g c) \<Longrightarrow>
     totalDistance (nodeAt g c) = enat k \<Longrightarrow> c = e \<Longrightarrow>
     fst (astarAnimated sp e g u v d) = v @ [c] \<and>
     fst (snd (astarAnimated sp e g u v d)) = markVisited g c"
  "sortNodesByTotalDistance g u = c # rest \<Longrightarrow> \<not> isWall (nodeAt g c) \<Longrightarrow>
     totalDistance (nodeAt g c) = enat k \<Longrightarrow> c \<noteq> e \<Longrightarrow>
     \<exists>d'. astarAnimated sp e g u v d = astarAnimated sp e (updateUnvisitedNeighborsAstar c (markVisited g c) e) rest (v @ [c]) d'"
  by (subst astarAnimated.simps, auto simp add: Let_def markVisited_def)+

lemma astarAnimated_rule:
  assumes init: "I g u v"
    and wall: "\<And>g u v c rest. I g u v \<Longrightarrow> sortNodesByTotalDistance g u = c # rest \<Longrightarrow>
                 isWall (nodeAt g c) \<Longrightarrow> I g rest v"
    and step: "\<And>g u v c rest k. I g u v \<Longrightarrow> sortNodesByTotalDistance g u = c # rest \<Longrightarrow>
                 \<not> isWall (nodeAt g c) \<Longrightarrow> totalDistance (nodeAt g c) = enat k \<Longrightarrow> c \<noteq> e \<Longrightarrow>
                 I (updateUnvisitedNeighborsAstar c (markVisited g c) e) rest (v @ [c])"
    and empty: "\<And>g u v. I g u v \<Longrightarrow> sortNodesByTotalDistance g u = [] \<Longrightarrow> Q v g"
    and inf: "\<And>g u v c rest. I g u v \<Longrightarrow> sortNodesByTotalDistance g u = c # rest \<Longrightarrow>
                 \<not> isWall (nodeAt g c) \<Longrightarrow> totalDistance (nodeAt g c) = \<infinity> \<Longrightarrow> Q v g"
    and found: "\<And>g u v c rest k. I g u v \<Longrightarrow> sortNodesByTotalDistance g u = c # rest \<Longrightarrow>
                 \<not> isWall (nodeAt g c) \<Longrightarrow> totalDistance (nodeAt g c) = enat k \<Longrightarrow> c = e \<Longrightarrow>
                 Q (v @ [c]) (markVisited g c)"
  shows "Q (fst (astarAnimated sp e g u v d)) (fst (snd (astarAnimated sp e g u v d)))"
  using init
proof (induction "length u" arbitrary: g u v d)
  case 0
  then have "sortNodesByTotalDistance g u = []" by (simp add: sortNodesByTotalDistance_def)
  with empty [OF "0.prems"] show ?case by (simp add: astarAnimated_cases(1))
next
  case (Suc n)
  show ?case
  proof (cases "sortNodesByTotalDistance g u")
    case Nil
    with empty [OF Suc.prems] show ?thesis by (simp add: astarAnimated_cases(1))
  next
    case (Cons c rest)
    then have len: "n = length rest"
      using Suc.hyps(2) by (metis length_Cons length_sort sortNodesByTotalDistance_def nat.inject)
    show ?thesis
    proof (cases "isWall (nodeAt g c)")
      case True
      from Suc.hyps(1) [OF len wall [OF Suc.prems Cons True]]
      show ?thesis by (simp add: astarAnimated_cases(2) [OF Cons True])
    next
      case False
      note open_cell = this
      show ?thesis
      proof (cases "totalDistance (nodeAt g c)")
        case infinity
        with inf [OF Suc.prems Cons open_cell] show ?thesis
          by (simp add: astarAnimated_cases(3) [OF Cons open_cell])
      next
        case (enat k)
        show ?thesis
        proof (cases "c = e")
          case True
          from found [OF Suc.prems Cons open_cell enat True]
          show ?thesis by (simp add: astarAnimated_cases(4) [OF Cons open_cell enat True])
        next
          case False
          from astarAnimated_cases(5) [OF Cons open_cell enat False]
          obtain d' where eq: "astarAnimated sp e g u v d = astarAnimated sp e (updateUnvisitedNeighborsAstar c (markVisited g c) e) rest (v @ [c]) d'"
            by blast
          from Suc.hyps(1) [OF len step [OF Suc.prems Cons open_cell enat False]]
          show ?thesis by (simp add: eq)
        qed
      qed
    qed
  qed
qed

lemma dijkstraAnimated_same:
  "fst (dijkstraAnimated sp e g u v d2) = fst (dijkstraInstant sp e g u v d1) \<and>
   fst (snd (dijkstraAnimated sp e g u v d2)) = fst (snd (dijkstraInstant sp e g u v d1))"
proof (induction "length u" arbitrary: g u v d1 d2)
  case 0
  then have "sortNodesByDistance g u = []" by (simp add: sortNodesByDistance_def)
  then show ?case by (simp add: dijkstraInstant_cases(1) dijkstraAnimated_cases(1))
next
  case (Suc n)
  show ?case
  proof (cases "sortNodesByDistance g u")
    case Nil
    then show ?thesis by (simp add: dijkstraInstant_cases(1) dijkstraAnimated_cases(1))
  next
    case (Cons c rest)
    then have len: "n = length rest"
      using Suc.hyps(2) by (metis length_Cons length_sort sortNodesByDistance_def nat.inject)
    show ?thesis
    proof (cases "isWall (nodeAt g c)")
      case True
      from Suc.hyps(1) [OF len]
      show ?thesis
        by (simp add: dijkstraInstant_cases(2) [OF Cons True] dijkstraAnimated_cases(2) [OF Cons True])
    next
      case False
      note open_cell = this
      show ?thesis
      proof (cases "distance (nodeAt g c)")
        case infinity
        then show ?thesis
          by (simp add: dijkstraInstant_cases(3) [OF Cons open_cell] dijkstraAnimated_cases(3) [OF Cons open_cell])
      next
        case (enat k)
        show ?thesis
        proof (cases "c = e")
          case True
          then show ?thesis
            by (simp add: dijkstraInstant_cases(4) [OF Cons open_cell enat]
                  dijkstraAnimated_cases(4) [OF Cons open_cell enat])
        next
          case False
          from dijkstraInstant_cases(5) [OF Cons open_cell enat False]
          obtain d1' where eq1: "dijkstraInstant sp e g u v d1 = dijkstraInstant sp e (updateUnvisitedNeighbors c (markVisited g c)) rest (v @ [c]) d1'"
            by blast
          from dijkstraAnimated_cases(5) [OF Cons open_cell enat False]
          obtain d2' where eq2: "dijkstraAnimated sp e g u v d2 = dijkstraAnimated sp e (updateUnvisitedNeighbors c (markVisited g c)) rest (v @ [c]) d2'"
            by blast
          from Suc.hyps(1) [OF len]
          show ?thesis by (simp add: eq1 eq2)
        qed
      qed
    qed
  qed
qed

lemma astarAnimated_same:
  "fst (astarAnimated sp e g u v d2) = fst (astarInstant sp e g u v d1) \<and>
   fst (snd (astarAnimated sp e g u v d2)) = fst (snd (astarInstant sp e g u v d1))"
proof (induction "length u" arbitrary: g u v d1 d2)
  case 0
  then have "sortNodesByTotalDistance g u = []" by (simp add: sortNodesByTotalDistance_def)
  then show ?case by (simp add: astarInstant_cases(1) astarAnimated_cases(1))
next
  case (Suc n)
  show ?case
  proof (cases "sortNodesByTotalDistance g u")
    case Nil
    then show ?thesis by (simp add: astarInstant_cases(1) astarAnimated_cases(1))
  next
    case (Cons c rest)
    then have len: "n = length rest"
      using Suc.hyps(2) by (metis length_Cons length_sort sortNodesByTotalDistance_def nat.inject)
    show ?thesis
    proof (cases "isWall (nodeAt g c)")
      case True
      from Suc.hyps(1) [OF len]
      show ?thesis
        by (simp add: astarInstant_cases(2) [OF Cons True] astarAnimated_cases(2) [OF Cons True])
    next
      case False
      note open_cell = this
      show ?thesis
      proof (cases "totalDistance (nodeAt g c)")
        case infinity
        then show ?thesis
          by (simp add: astarInstant_cases(3) [OF Cons open_cell] astarAnimated_cases(3) [OF Cons open_cell])
      next
        case (enat k)
        show ?thesis
        proof (cases "c = e")
          case True
          then show ?thesis
            by (simp add: astarInstant_cases(4) [OF Cons open_cell enat]
                  astarAnimated_cases(4) [OF Cons open_cell enat])
        next
          case False
          from astarInstant_cases(5) [OF Cons open_cell enat False]
          obtain d1' where eq1: "astarInstant sp e g u v d1 = astarInstant sp e (updateUnvisitedNeighborsAstar c (markVisited g c) e) rest (v @ [c]) d1'"
            by blast
          from astarAnimated_cases(5) [OF Cons open_cell enat False]
          obtain d2' where eq2: "astarAnimated sp e g u v d2 = astarAnimated sp e (updateUnvisitedNeighborsAstar c (markVisited g c) e) rest (v @ [c]) d2'"
            by blast
          from Suc.hyps(1) [OF len]
          show ?thesis by (simp add: eq1 eq2)
        qed
      qed
    qed
  qed
qed

section \<open>Well-formed grids and the relaxation steps\<close>

lemma wf_grid_iff:
  "wf_grid g \<longleftrightarrow>
     (\<forall>r < length g. length (g ! r) = length (g ! 0)) \<and>
     (\<forall>p. inb g p \<longrightarrow> row (nodeAt g p) = fst p \<and> col (nodeAt g p) = snd p)"
  by (auto simp: wf_grid_def list_all_iff inb_def nodeAt_def)

lemma wf_grid_row: "wf_grid g \<Longrightarrow> inb g p \<Longrightarrow> row (nodeAt g p) = fst p"
  by (cases p) (auto simp: wf_grid_iff)

lemma wf_grid_col: "wf_grid g \<Longrightarrow> inb g p \<Longrightarrow> col (nodeAt g p) = snd p"
  by (cases p) (auto simp: wf_grid_iff)

lemma wf_grid_inb: "wf_grid g \<Longrightarrow> inb g p \<longleftrightarrow> fst p < length g \<and> snd p < length (g ! 0)"
  by (auto simp: wf_grid_iff inb_def)

lemma neighbour_cells:
  "set ((if r > 0 then [(r - 1, c)] else []) @
        (if r < h - 1 then [(r + 1, c)] else []) @
        (if c > 0 then [(r, c - 1)] else []) @
        (if c < w - 1 then [(r, c + 1 :: nat)] else []))
   = {q. fst q < h \<and> snd q < w \<and> adj4 (r, c) q}" if "r < h" "c < w" for r c h w :: nat
proof (rule set_eqI)
  fix q :: pos
  obtain a b where q: "q = (a, b)" by (cases q)
  have up: "(0 < r \<and> a = r - 1 \<and> b = c) \<longleftrightarrow> (a < h \<and> b < w \<and> b = c \<and> r = Suc a)"
    using that by auto
  have down: "(r < h - 1 \<and> a = r + 1 \<and> b = c) \<longleftrightarrow> (a < h \<and> b < w \<and> b = c \<and> a = Suc r)"
    using that by auto
  have left: "(0 < c \<and> a = r \<and> b = c - 1) \<longleftrightarrow> (a < h \<and> b < w \<and> a = r \<and> c = Suc b)"
    using that by auto
  have right: "(c < w - 1 \<and> a = r \<and> b = c + 1) \<longleftrightarrow> (a < h \<and> b < w \<and> a = r \<and> b = Suc c)"
    using that by auto
  have mem: "q \<in> set ((if r > 0 then [(r - 1, c)] else []) @
        (if r < h - 1 then [(r + 1, c)] else []) @
        (if c > 0 then [(r, c - 1)] else []) @
        (if c < w - 1 then [(r, c + 1 :: nat)] else []))
     \<longleftrightarrow> (0 < r \<and> a = r - 1 \<and> b = c) \<or> (r < h - 1 \<and> a = r + 1 \<and> b = c) \<or>
         (0 < c \<and> a = r \<and> b = c - 1) \<or> (c < w - 1 \<and> a = r \<and> b = c + 1)"
    unfolding q by simp blast
  have adj: "q \<in> {q. fst q < h \<and> snd q < w \<and> adj4 (r, c) q} \<longleftrightarrow>
     (a < h \<and> b < w \<and> b = c \<and> r = Suc a) \<or> (a < h \<and> b < w \<and> b = c \<and> a = Suc r) \<or>
     (a < h \<and> b < w \<and> a = r \<and> c = Suc b) \<or> (a < h \<and> b < w \<and> a = r \<and> b = Suc c)"
    unfolding q adj4_def by (simp only: mem_Collect_eq fst_conv snd_conv) blast
  show "q \<in> set ((if r > 0 then [(r - 1, c)] else []) @
        (if r < h - 1 then [(r + 1, c)] else []) @
        (if c > 0 then [(r, c - 1)] else []) @
        (if c < w - 1 then [(r, c + 1 :: nat)] else []))
     \<longleftrightarrow> q \<in> {q. fst q < h \<and> snd q < w \<and> adj4 (r, c) q}"
    unfolding mem adj up down left right ..
qed

lemma set_getUnvisitedNeighbors:
  assumes "wf_grid g" "inb g nd"
  shows "set (getUnvisitedNeighbors nd g) = {q. inb g q \<and> adj4 nd q \<and> \<not> isVisited (nodeAt g q)}"
proof -
  obtain r0 c0 where nd: "nd = (r0, c0)" by (cases nd)
  have r: "row (nodeAt g nd) = r0" and c: "col (nodeAt g nd) = c0"
    using assms by (simp_all add: wf_grid_row wf_grid_col nd)
  have bounds: "r0 < length g" "c0 < length (g ! 0)"
    using assms by (simp_all add: wf_grid_inb nd)
  have "set (getUnvisitedNeighbors nd g) =
        {q \<in> {q. fst q < length g \<and> snd q < length (g ! 0) \<and> adj4 (r0, c0) q}.
           \<not> isVisited (nodeAt g q)}"
    unfolding getUnvisitedNeighbors_def Let_def r c set_filter neighbour_cells [OF bounds] ..
  then show ?thesis
    by (auto simp add: wf_grid_inb [OF assms(1)] nd)
qed


lemma adj4_irrefl [simp]: "\<not> adj4 p p"
  by (auto simp: adj4_def)

lemma adj4_sym: "adj4 p q \<Longrightarrow> adj4 q p"
  by (auto simp: adj4_def)

text \<open>A fold of node updates over a list of references.\<close>

lemma fold_updNode_dims:
  "length (fold (\<lambda>q g'. if C g' q then updNode g' q (F g' q) else g') ns g) = length g \<and>
   length (fold (\<lambda>q g'. if C g' q then updNode g' q (F g' q) else g') ns g ! r) = length (g ! r)"
  by (induction ns arbitrary: g) simp_all

lemma length_updateUnvisitedNeighbors [simp]:
  "length (updateUnvisitedNeighbors nd g) = length g"
  "length (updateUnvisitedNeighbors nd g ! r) = length (g ! r)"
  using fold_updNode_dims [of "\<lambda>g' q. True"
      "\<lambda>g' q n. n\<lparr>distance := distance (nodeAt g' nd) + 1, previousNode := Some nd\<rparr>"
      "getUnvisitedNeighbors nd g" g r]
  by (simp_all add: updateUnvisitedNeighbors_def)

lemma inb_updateUnvisitedNeighbors [simp]: "inb (updateUnvisitedNeighbors nd g) q = inb g q"
  by (simp add: inb_def)

lemma nodeAt_fold_dijkstra:
  assumes "nd \<notin> set ns"
  shows "nodeAt (fold (\<lambda>neighbor g'. updNode g' neighbor
             (\<lambda>n. n\<lparr>distance := distance (nodeAt g' nd) + 1, previousNode := Some nd\<rparr>)) ns g) q
         = (if q \<in> set ns \<and> inb g q
            then (nodeAt g q)\<lparr>distance := distance (nodeAt g nd) + 1, previousNode := Some nd\<rparr>
            else nodeAt g q)"
  using assms
proof (induction ns arbitrary: g)
  case Nil
  then show ?case by simp
next
  case (Cons a ns)
  then have "nd \<noteq> a" "nd \<notin> set ns" by auto
  with Cons.IH [of "updNode g a (\<lambda>n. n\<lparr>distance := distance (nodeAt g nd) + 1, previousNode := Some nd\<rparr>)"]
  show ?case by (auto simp: nodeAt_updNode)
qed

lemma nodeAt_updateUnvisitedNeighbors:
  assumes "wf_grid g" "inb g nd"
  shows "nodeAt (updateUnvisitedNeighbors nd g) q
         = (if inb g q \<and> adj4 nd q \<and> \<not> isVisited (nodeAt g q)
            then (nodeAt g q)\<lparr>distance := distance (nodeAt g nd) + 1, previousNode := Some nd\<rparr>
            else nodeAt g q)"
proof -
  have "nd \<notin> set (getUnvisitedNeighbors nd g)"
    by (simp add: set_getUnvisitedNeighbors [OF assms])
  from nodeAt_fold_dijkstra [OF this, of g q] show ?thesis
    by (auto simp: updateUnvisitedNeighbors_def set_getUnvisitedNeighbors [OF assms])
qed

lemma manhattanDistance_cong:
  "row n = row n' \<Longrightarrow> col n = col n' \<Longrightarrow> row m = row m' \<Longrightarrow> col m = col m' \<Longrightarrow>
   manhattanDistance n m = manhattanDistance n' m'"
  by (simp add: manhattanDistance_def)

lemma astar_fold_unfold:
  "(\<lambda>neighbor g'.
       let tentativeDistance = distance (nodeAt g' nd) + 1 in
       if tentativeDistance < distance (nodeAt g' neighbor)
       then updNode g' neighbor
              (\<lambda>n. n\<lparr>previousNode := Some nd, distance := tentativeDistance,
                      totalDistance := tentativeDistance
                         + enat (manhattanDistance n (nodeAt g' fin))\<rparr>)
       else g')
   = (\<lambda>q g'. if (\<lambda>g' q. distance (nodeAt g' nd) + 1 < distance (nodeAt g' q)) g' q
              then updNode g' q
                ((\<lambda>g' q n. n\<lparr>previousNode := Some nd, distance := distance (nodeAt g' nd) + 1,
                      totalDistance := distance (nodeAt g' nd) + 1
                         + enat (manhattanDistance n (nodeAt g' fin))\<rparr>) g' q)
              else g')"
  by (simp add: Let_def)

lemma length_updateUnvisitedNeighborsAstar [simp]:
  "length (updateUnvisitedNeighborsAstar nd g fin) = length g"
  "length (updateUnvisitedNeighborsAstar nd g fin ! r) = length (g ! r)"
  using fold_updNode_dims [of "\<lambda>g' q. distance (nodeAt g' nd) + 1 < distance (nodeAt g' q)"
      "\<lambda>g' q n. n\<lparr>previousNode := Some nd, distance := distance (nodeAt g' nd) + 1,
                      totalDistance := distance (nodeAt g' nd) + 1
                         + enat (manhattanDistance n (nodeAt g' fin))\<rparr>"
      "getUnvisitedNeighbors nd g" g r]
  by (simp_all add: updateUnvisitedNeighborsAstar_def Let_def)

lemma inb_updateUnvisitedNeighborsAstar [simp]:
  "inb (updateUnvisitedNeighborsAstar nd g fin) q = inb g q"
  by (simp add: inb_def)

lemma nodeAt_fold_astar:
  assumes "nd \<notin> set ns"
  shows "nodeAt (fold (\<lambda>neighbor g'.
             let tentativeDistance = distance (nodeAt g' nd) + 1 in
             if tentativeDistance < distance (nodeAt g' neighbor)
             then updNode g' neighbor
                    (\<lambda>n. n\<lparr>previousNode := Some nd, distance := tentativeDistance,
                            totalDistance := tentativeDistance
                               + enat (manhattanDistance n (nodeAt g' fin))\<rparr>)
             else g') ns g) q
         = (if q \<in> set ns \<and> inb g q \<and> distance (nodeAt g nd) + 1 < distance (nodeAt g q)
            then (nodeAt g q)\<lparr>previousNode := Some nd, distance := distance (nodeAt g nd) + 1,
                   totalDistance := distance (nodeAt g nd) + 1
                      + enat (manhattanDistance (nodeAt g q) (nodeAt g fin))\<rparr>
            else nodeAt g q)"
  using assms
proof (induction ns arbitrary: g)
  case Nil
  then show ?case by simp
next
  case (Cons a ns)
  then have ne: "nd \<noteq> a" and notin: "nd \<notin> set ns" by auto
  let ?d = "distance (nodeAt g nd) + 1"
  let ?f = "\<lambda>n. n\<lparr>previousNode := Some nd, distance := ?d,
                  totalDistance := ?d + enat (manhattanDistance n (nodeAt g fin))\<rparr>"
  show ?case
  proof (cases "?d < distance (nodeAt g a)")
    case False
    with Cons.IH [OF notin, of g] show ?thesis by (auto simp: Let_def)
  next
    case True
    let ?g1 = "updNode g a ?f"
    have d1: "distance (nodeAt ?g1 nd) = distance (nodeAt g nd)"
      using ne by (simp add: nodeAt_updNode)
    have m1: "manhattanDistance (nodeAt ?g1 q) (nodeAt ?g1 fin)
              = manhattanDistance (nodeAt g q) (nodeAt g fin)"
      by (rule manhattanDistance_cong) (simp_all add: nodeAt_updNode)
    have step: "fold (\<lambda>neighbor g'.
             let tentativeDistance = distance (nodeAt g' nd) + 1 in
             if tentativeDistance < distance (nodeAt g' neighbor)
             then updNode g' neighbor
                    (\<lambda>n. n\<lparr>previousNode := Some nd, distance := tentativeDistance,
                            totalDistance := tentativeDistance
                               + enat (manhattanDistance n (nodeAt g' fin))\<rparr>)
             else g') (a # ns) g
       = fold (\<lambda>neighbor g'.
             let tentativeDistance = distance (nodeAt g' nd) + 1 in
             if tentativeDistance < distance (nodeAt g' neighbor)
             then updNode g' neighbor
                    (\<lambda>n. n\<lparr>previousNode := Some nd, distance := tentativeDistance,
                            totalDistance := tentativeDistance
                               + enat (manhattanDistance n (nodeAt g' fin))\<rparr>)
             else g') ns ?g1"
      using True by (simp add: Let_def)
    show ?thesis
      unfolding step Cons.IH [OF notin, of ?g1] d1 m1
      using True by (auto simp: nodeAt_updNode)
  qed
qed

lemma nodeAt_updateUnvisitedNeighborsAstar:
  assumes "wf_grid g" "inb g nd"
  shows "nodeAt (updateUnvisitedNeighborsAstar nd g fin) q
         = (if inb g q \<and> adj4 nd q \<and> \<not> isVisited (nodeAt g q)
               \<and> distance (nodeAt g nd) + 1 < distance (nodeAt g q)
            then (nodeAt g q)\<lparr>previousNode := Some nd, distance := distance (nodeAt g nd) + 1,
                   totalDistance := distance (nodeAt g nd) + 1
                      + enat (manhattanDistance (nodeAt g q) (nodeAt g fin))\<rparr>
            else nodeAt g q)"
proof -
  have "nd \<notin> set (getUnvisitedNeighbors nd g)"
    by (simp add: set_getUnvisitedNeighbors [OF assms])
  from nodeAt_fold_astar [OF this, of fin g q] show ?thesis
    by (auto simp: updateUnvisitedNeighborsAstar_def set_getUnvisitedNeighbors [OF assms])
qed

lemma wf_grid_same:
  assumes "wf_grid g" "length g' = length g" "\<And>r. r < length g \<Longrightarrow> length (g' ! r) = length (g ! r)"
    and "\<And>q. inb g q \<Longrightarrow> row (nodeAt g' q) = row (nodeAt g q) \<and> col (nodeAt g' q) = col (nodeAt g q)"
  shows "wf_grid g'"
proof -
  have "length (g' ! r) = length (g' ! 0)" if "r < length g'" for r
  proof -
    from that assms(2) have r: "r < length g" and z: "0 < length g" by auto
    from assms(1) r have "length (g ! r) = length (g ! 0)"
      unfolding wf_grid_iff by blast
    then show ?thesis
      using assms(3) [OF r] assms(3) [OF z] by (simp only:)
  qed
  moreover have "row (nodeAt g' p) = fst p \<and> col (nodeAt g' p) = snd p" if "inb g' p" for p
  proof -
    from that have "inb g p" using assms(2) assms(3) [of "fst p"] by (auto simp: inb_def)
    with assms(1,4) show ?thesis by (simp add: wf_grid_row wf_grid_col)
  qed
  ultimately show ?thesis by (simp add: wf_grid_iff)
qed

lemma wf_grid_markVisited [simp]: "wf_grid g \<Longrightarrow> wf_grid (markVisited g c)"
  by (rule wf_grid_same [of g]) (simp_all add: markVisited_def nodeAt_updNode)

lemma wf_grid_updateUnvisitedNeighbors:
  "wf_grid g \<Longrightarrow> inb g nd \<Longrightarrow> wf_grid (updateUnvisitedNeighbors nd g)"
  by (rule wf_grid_same [of g]) (simp_all add: nodeAt_updateUnvisitedNeighbors)

lemma wf_grid_updateUnvisitedNeighborsAstar:
  "wf_grid g \<Longrightarrow> inb g nd \<Longrightarrow> wf_grid (updateUnvisitedNeighborsAstar nd g fin)"
  by (rule wf_grid_same [of g]) (simp_all add: nodeAt_updateUnvisitedNeighborsAstar)


section \<open>The invariant of the search loops\<close>

text \<open>Positions are pairs; the invariants quantify over positions, not over their components.\<close>

declare split_paired_All [simp del] split_paired_Ex [simp del]

lemma gridInvD:
  assumes "gridInv g0 g"
  shows gridInv_wf: "wf_grid g"
    and gridInv_inb: "inb g = inb g0"
    and gridInv_walls: "(\<forall>p. inb g0 p \<longrightarrow> isWall (nodeAt g p) = isWall (nodeAt g0 p))"
  using assms unfolding gridInv_def by blast+

lemma gridInvI:
  assumes "wf_grid g"
    and "inb g = inb g0"
    and "(\<forall>p. inb g0 p \<longrightarrow> isWall (nodeAt g p) = isWall (nodeAt g0 p))"
  shows "gridInv g0 g"
  unfolding gridInv_def
  apply (insert assms)
  apply (intro conjI)
  apply assumption+
  done

lemma listInvD:
  assumes "listInv g0 g u v"
  shows listInv_distinct_u: "distinct u"
    and listInv_inb_u: "(\<forall>p\<in>set u. inb g0 p)"
    and listInv_distinct_v: "distinct v"
    and listInv_disjoint: "set v \<inter> set u = {}"
    and listInv_visited: "(\<forall>p. inb g0 p \<longrightarrow> isVisited (nodeAt g p) = (p \<in> set v))"
    and listInv_open_v: "(\<forall>p\<in>set v. inb g0 p \<and> \<not> isWall (nodeAt g p))"
    and listInv_pending: "(\<forall>p. inb g0 p \<and> \<not> isWall (nodeAt g p) \<and> p \<notin> set v \<longrightarrow> p \<in> set u)"
  using assms unfolding listInv_def by blast+

lemma listInvI:
  assumes "distinct u"
    and "(\<forall>p\<in>set u. inb g0 p)"
    and "distinct v"
    and "set v \<inter> set u = {}"
    and "(\<forall>p. inb g0 p \<longrightarrow> isVisited (nodeAt g p) = (p \<in> set v))"
    and "(\<forall>p\<in>set v. inb g0 p \<and> \<not> isWall (nodeAt g p))"
    and "(\<forall>p. inb g0 p \<and> \<not> isWall (nodeAt g p) \<and> p \<notin> set v \<longrightarrow> p \<in> set u)"
  shows "listInv g0 g u v"
  unfolding listInv_def
  apply (insert assms)
  apply (intro conjI)
  apply assumption+
  done

lemma distInvD:
  assumes "distInv g0 s e g v"
  shows distInv_start_inb: "inb g0 s"
    and distInv_finite_v: "(\<forall>p\<in>set v. distance (nodeAt g p) \<noteq> \<infinity>)"
    and distInv_closure: "(\<forall>p\<in>set v. p \<noteq> e \<longrightarrow> (\<forall>q. inb g0 q \<and> adj4 p q \<longrightarrow> distance (nodeAt g q) \<noteq> \<infinity>))"
    and distInv_prev: "(\<forall>q p. inb g0 q \<and> previousNode (nodeAt g q) = Some p \<longrightarrow> p \<in> set v \<and> adj4 p q \<and> distance (nodeAt g q) = distance (nodeAt g p) + 1)"
    and distInv_noprev: "(\<forall>q. inb g0 q \<and> previousNode (nodeAt g q) = None \<and> q \<noteq> s \<longrightarrow> distance (nodeAt g q) = \<infinity>)"
    and distInv_start_dist: "distance (nodeAt g s) = 0"
    and distInv_start_prev: "previousNode (nodeAt g s) = None"
    and distInv_started: "(s \<in> set v \<or> (v = [] \<and> (\<forall>q. inb g0 q \<and> q \<noteq> s \<longrightarrow> distance (nodeAt g q) = \<infinity>)))"
  using assms unfolding distInv_def by blast+

lemma distInvI:
  assumes "inb g0 s"
    and "(\<forall>p\<in>set v. distance (nodeAt g p) \<noteq> \<infinity>)"
    and "(\<forall>p\<in>set v. p \<noteq> e \<longrightarrow> (\<forall>q. inb g0 q \<and> adj4 p q \<longrightarrow> distance (nodeAt g q) \<noteq> \<infinity>))"
    and "(\<forall>q p. inb g0 q \<and> previousNode (nodeAt g q) = Some p \<longrightarrow> p \<in> set v \<and> adj4 p q \<and> distance (nodeAt g q) = distance (nodeAt g p) + 1)"
    and "(\<forall>q. inb g0 q \<and> previousNode (nodeAt g q) = None \<and> q \<noteq> s \<longrightarrow> distance (nodeAt g q) = \<infinity>)"
    and "distance (nodeAt g s) = 0"
    and "previousNode (nodeAt g s) = None"
    and "(s \<in> set v \<or> (v = [] \<and> (\<forall>q. inb g0 q \<and> q \<noteq> s \<longrightarrow> distance (nodeAt g q) = \<infinity>)))"
  shows "distInv g0 s e g v"
  unfolding distInv_def
  apply (insert assms)
  apply (intro conjI)
  apply assumption+
  done

lemma searchInvD:
  assumes "searchInv g0 s e g u v"
  shows "gridInv g0 g" and "listInv g0 g u v" and "distInv g0 s e g v"
  using assms by (simp_all add: searchInv_def)

lemma searchInv_distinct_u: "searchInv g0 s e g u v \<Longrightarrow> distinct u"
  by (rule listInv_distinct_u [OF searchInvD(2)])

lemma sort_key_Cons:
  assumes "sort_key f u = c # rest"
  shows "set u = insert c (set rest)"
    and "distinct u \<Longrightarrow> c \<notin> set rest \<and> distinct rest"
    and "\<forall>x\<in>set u. f c \<le> f x"
proof -
  show su: "set u = insert c (set rest)"
    using assms by (metis list.simps(15) set_sort)
  show "distinct u \<Longrightarrow> c \<notin> set rest \<and> distinct rest"
    using assms by (metis distinct.simps(2) distinct_sort)
  have "sorted (map f (c # rest))"
    using assms by (metis sorted_sort_key)
  then show "\<forall>x\<in>set u. f c \<le> f x"
    unfolding su by auto
qed

lemma relaxedFrom_dijkstra:
  assumes "wf_grid g1" "inb g1 c"
  shows "relaxedFrom g1 c (updateUnvisitedNeighbors c g1)"
  unfolding relaxedFrom_def
  using assms
  by (simp add: wf_grid_updateUnvisitedNeighbors nodeAt_updateUnvisitedNeighbors fun_eq_iff)

lemma relaxedFrom_astar:
  assumes "wf_grid g1" "inb g1 c"
  shows "relaxedFrom g1 c (updateUnvisitedNeighborsAstar c g1 fin)"
  unfolding relaxedFrom_def
  using assms
  by (auto simp add: wf_grid_updateUnvisitedNeighborsAstar nodeAt_updateUnvisitedNeighborsAstar
        fun_eq_iff not_less)


section \<open>The steps of a search keep the invariant\<close>

lemma enat_plus_one: "enat k + 1 = enat (Suc k)"
  by (simp add: one_enat_def)

lemma nodeAt_markVisited:
  "nodeAt (markVisited g c) q
     = (if c = q \<and> inb g c then (nodeAt g c)\<lparr>isVisited := True\<rparr> else nodeAt g q)"
  by (simp add: markVisited_def nodeAt_updNode)

lemma inb_markVisited [simp]: "inb (markVisited g c) = inb g"
  by (simp add: markVisited_def fun_eq_iff)

lemma markVisited_fields [simp]:
  "isWall (nodeAt (markVisited g c) q) = isWall (nodeAt g q)"
  "distance (nodeAt (markVisited g c) q) = distance (nodeAt g q)"
  "totalDistance (nodeAt (markVisited g c) q) = totalDistance (nodeAt g q)"
  "previousNode (nodeAt (markVisited g c) q) = previousNode (nodeAt g q)"
  by (simp_all add: nodeAt_markVisited)

lemma isVisited_markVisited:
  "inb g c \<Longrightarrow> isVisited (nodeAt (markVisited g c) q) = (q = c \<or> isVisited (nodeAt g q))"
  by (auto simp add: nodeAt_markVisited)

lemma relaxedFromD:
  assumes "relaxedFrom g1 c g'"
  shows "wf_grid g'" and "inb g' = inb g1"
    and "inb g1 q \<Longrightarrow> isWall (nodeAt g' q) = isWall (nodeAt g1 q)"
    and "inb g1 q \<Longrightarrow> isVisited (nodeAt g' q) = isVisited (nodeAt g1 q)"
    and "inb g1 q \<Longrightarrow>
           (distance (nodeAt g' q) = distance (nodeAt g1 q) \<and>
            previousNode (nodeAt g' q) = previousNode (nodeAt g1 q)) \<or>
           (adj4 c q \<and> \<not> isVisited (nodeAt g1 q) \<and>
            distance (nodeAt g' q) = distance (nodeAt g1 c) + 1 \<and>
            previousNode (nodeAt g' q) = Some c)"
    and "inb g1 q \<Longrightarrow> adj4 c q \<Longrightarrow> \<not> isVisited (nodeAt g1 q) \<Longrightarrow>
           distance (nodeAt g' q) \<le> distance (nodeAt g1 c) + 1"
  using assms unfolding relaxedFrom_def by blast+

lemma relaxedFrom_visited_same:
  assumes "relaxedFrom g1 c g'" "inb g1 q" "isVisited (nodeAt g1 q)"
  shows "distance (nodeAt g' q) = distance (nodeAt g1 q)"
    and "previousNode (nodeAt g' q) = previousNode (nodeAt g1 q)"
  using relaxedFromD(5) [OF assms(1,2)] assms(3) by blast+

lemma gridInv_markVisited: "gridInv g0 g \<Longrightarrow> gridInv g0 (markVisited g c)"
  by (rule gridInvI) (simp_all add: gridInvD)

lemma gridInv_relaxed:
  assumes "gridInv g0 g1" "relaxedFrom g1 c g'"
  shows "gridInv g0 g'"
proof (rule gridInvI)
  show "wf_grid g'" using assms(2) by (rule relaxedFromD)
  show i: "inb g' = inb g0" using relaxedFromD(2) [OF assms(2)] gridInvD(2) [OF assms(1)] by simp
  show "\<forall>p. inb g0 p \<longrightarrow> isWall (nodeAt g' p) = isWall (nodeAt g0 p)"
    using relaxedFromD(3) [OF assms(2)] gridInvD(2,3) [OF assms(1)] by simp
qed

lemma listInv_wall:
  assumes inv: "listInv g0 g u v"
    and u: "set u = insert c (set rest)" "c \<notin> set rest \<and> distinct rest"
    and wall: "isWall (nodeAt g c)"
  shows "listInv g0 g rest v"
proof (rule listInvI)
  show "distinct rest" using u by simp
  show "\<forall>p\<in>set rest. inb g0 p" using listInv_inb_u [OF inv] u by simp
  show "distinct v" using inv by (rule listInvD)
  show "set v \<inter> set rest = {}" using listInv_disjoint [OF inv] u by auto
  show "\<forall>p. inb g0 p \<longrightarrow> isVisited (nodeAt g p) = (p \<in> set v)" using inv by (rule listInvD)
  show "\<forall>p\<in>set v. inb g0 p \<and> \<not> isWall (nodeAt g p)" using inv by (rule listInvD)
  show "\<forall>p. inb g0 p \<and> \<not> isWall (nodeAt g p) \<and> p \<notin> set v \<longrightarrow> p \<in> set rest"
  proof (intro allI impI)
    fix p
    assume p: "inb g0 p \<and> \<not> isWall (nodeAt g p) \<and> p \<notin> set v"
    with listInv_pending [OF inv] have "p \<in> set u" by blast
    moreover from p wall have "p \<noteq> c" by auto
    ultimately show "p \<in> set rest" using u by simp
  qed
qed

lemma listInv_visit:
  assumes gi: "gridInv g0 g" and inv: "listInv g0 g u v"
    and u: "set u = insert c (set rest)" "c \<notin> set rest \<and> distinct rest"
    and c: "\<not> isWall (nodeAt g c)"
  shows "listInv g0 (markVisited g c) rest (v @ [c])"
proof (rule listInvI)
  have cu: "c \<in> set u" using u by simp
  then have c0: "inb g0 c" using listInv_inb_u [OF inv] by blast
  then have cg: "inb g c" using gridInvD(2) [OF gi] by simp
  have cv: "c \<notin> set v" using listInv_disjoint [OF inv] cu by auto
  show "distinct rest" using u by simp
  show "\<forall>p\<in>set rest. inb g0 p" using listInv_inb_u [OF inv] u by simp
  show "distinct (v @ [c])" using listInv_distinct_v [OF inv] cv by simp
  show "set (v @ [c]) \<inter> set rest = {}" using listInv_disjoint [OF inv] u by auto
  show "\<forall>p. inb g0 p \<longrightarrow> isVisited (nodeAt (markVisited g c) p) = (p \<in> set (v @ [c]))"
    using listInv_visited [OF inv] by (auto simp: isVisited_markVisited [OF cg])
  show "\<forall>p\<in>set (v @ [c]). inb g0 p \<and> \<not> isWall (nodeAt (markVisited g c) p)"
    using listInv_open_v [OF inv] c0 c by simp
  show "\<forall>p. inb g0 p \<and> \<not> isWall (nodeAt (markVisited g c) p) \<and> p \<notin> set (v @ [c])
          \<longrightarrow> p \<in> set rest"
    using listInv_pending [OF inv] u by auto
qed

lemma listInv_relaxed:
  assumes gi: "gridInv g0 g1" and inv: "listInv g0 g1 u v" and r: "relaxedFrom g1 c g'"
  shows "listInv g0 g' u v"
proof (rule listInvI)
  have i: "inb g1 q = inb g0 q" for q using gridInvD(2) [OF gi] by simp
  have w: "inb g0 q \<Longrightarrow> isWall (nodeAt g' q) = isWall (nodeAt g1 q)" for q
    using relaxedFromD(3) [OF r] i by blast
  have vs: "inb g0 q \<Longrightarrow> isVisited (nodeAt g' q) = isVisited (nodeAt g1 q)" for q
    using relaxedFromD(4) [OF r] i by blast
  show "distinct u" "\<forall>p\<in>set u. inb g0 p" "distinct v" "set v \<inter> set u = {}"
    using inv by (rule listInvD)+
  show "\<forall>p. inb g0 p \<longrightarrow> isVisited (nodeAt g' p) = (p \<in> set v)"
    using listInv_visited [OF inv] vs by blast
  show "\<forall>p\<in>set v. inb g0 p \<and> \<not> isWall (nodeAt g' p)"
    using listInv_open_v [OF inv] w by blast
  show "\<forall>p. inb g0 p \<and> \<not> isWall (nodeAt g' p) \<and> p \<notin> set v \<longrightarrow> p \<in> set u"
    using listInv_pending [OF inv] w by blast
qed

lemma start_visited_after:
  assumes di: "distInv g0 s e g v" and c: "inb g0 c" "distance (nodeAt g c) = enat k"
  shows "s \<in> set (v @ [c])"
proof (cases "s \<in> set v")
  case True
  then show ?thesis by simp
next
  case False
  with distInv_started [OF di]
  have "\<forall>q. inb g0 q \<and> q \<noteq> s \<longrightarrow> distance (nodeAt g q) = \<infinity>" by blast
  with c have "c = s" by auto
  then show ?thesis by simp
qed

lemma distInv_found:
  assumes di: "distInv g0 s e g v"
    and c: "inb g0 c" "distance (nodeAt g c) = enat k" "c = e"
  shows "distInv g0 s e (markVisited g c) (v @ [c])"
proof (rule distInvI)
  let ?g = "markVisited g c"
  show "inb g0 s" using di by (rule distInvD)
  show "\<forall>p\<in>set (v @ [c]). distance (nodeAt ?g p) \<noteq> \<infinity>"
    using distInv_finite_v [OF di] c(2) by auto
  show "\<forall>p\<in>set (v @ [c]). p \<noteq> e \<longrightarrow>
          (\<forall>q. inb g0 q \<and> adj4 p q \<longrightarrow> distance (nodeAt ?g q) \<noteq> \<infinity>)"
    using distInv_closure [OF di] c(3) by auto
  show "\<forall>q p. inb g0 q \<and> previousNode (nodeAt ?g q) = Some p \<longrightarrow>
          p \<in> set (v @ [c]) \<and> adj4 p q \<and> distance (nodeAt ?g q) = distance (nodeAt ?g p) + 1"
    using distInv_prev [OF di] by auto
  show "\<forall>q. inb g0 q \<and> previousNode (nodeAt ?g q) = None \<and> q \<noteq> s \<longrightarrow>
          distance (nodeAt ?g q) = \<infinity>"
    using distInv_noprev [OF di] by auto
  show "distance (nodeAt ?g s) = 0" "previousNode (nodeAt ?g s) = None"
    using distInv_start_dist [OF di] distInv_start_prev [OF di] by simp_all
  show "s \<in> set (v @ [c]) \<or>
        (v @ [c] = [] \<and> (\<forall>q. inb g0 q \<and> q \<noteq> s \<longrightarrow> distance (nodeAt ?g q) = \<infinity>))"
    using start_visited_after [OF di c(1,2)] by blast
qed

lemma distInv_step:
  assumes gi: "gridInv g0 g" and li: "listInv g0 g u v" and di: "distInv g0 s e g v"
    and cu: "c \<in> set u" and dc: "distance (nodeAt g c) = enat k" and ne: "c \<noteq> e"
    and r: "relaxedFrom (markVisited g c) c g'"
  shows "distInv g0 s e g' (v @ [c])"
proof (rule distInvI)
  let ?g1 = "markVisited g c"
  have i: "inb g q = inb g0 q" for q using gridInvD(2) [OF gi] by simp
  have c0: "inb g0 c" using listInv_inb_u [OF li] cu by blast
  then have cg: "inb g c" using i by simp
  have cv: "c \<notin> set v" using listInv_disjoint [OF li] cu by auto
  have vis1: "isVisited (nodeAt ?g1 q) = (q \<in> set (v @ [c]))" if "inb g0 q" for q
    using listInv_visited [OF li] that by (auto simp: isVisited_markVisited [OF cg])
  have either: "(distance (nodeAt g' q) = distance (nodeAt g q) \<and>
                 previousNode (nodeAt g' q) = previousNode (nodeAt g q)) \<or>
                (adj4 c q \<and> q \<notin> set (v @ [c]) \<and>
                 distance (nodeAt g' q) = enat k + 1 \<and> previousNode (nodeAt g' q) = Some c)"
    if "inb g0 q" for q
    using relaxedFromD(5) [OF r, of q] that vis1 [OF that] i dc by simp
  have same: "distance (nodeAt g' q) = distance (nodeAt g q)"
             "previousNode (nodeAt g' q) = previousNode (nodeAt g q)"
    if "q \<in> set (v @ [c])" for q
  proof -
    from that have "inb g0 q" using listInv_open_v [OF li] c0 by auto
    from either [OF this] that
    show "distance (nodeAt g' q) = distance (nodeAt g q)"
      and "previousNode (nodeAt g' q) = previousNode (nodeAt g q)" by blast+
  qed
  have le: "distance (nodeAt g' q) \<le> enat k + 1"
    if "inb g0 q" "adj4 c q" "q \<notin> set (v @ [c])" for q
    using relaxedFromD(6) [OF r, of q] that vis1 [OF that(1)] i dc by simp
  have s_in: "s \<in> set (v @ [c])" using di c0 dc by (rule start_visited_after)
  show "inb g0 s" using di by (rule distInvD)
  show "\<forall>p\<in>set (v @ [c]). distance (nodeAt g' p) \<noteq> \<infinity>"
  proof
    fix p
    assume p: "p \<in> set (v @ [c])"
    then have "distance (nodeAt g p) \<noteq> \<infinity>"
      using distInv_finite_v [OF di] dc by auto
    with same(1) [OF p] show "distance (nodeAt g' p) \<noteq> \<infinity>" by simp
  qed
  show "\<forall>p\<in>set (v @ [c]). p \<noteq> e \<longrightarrow>
          (\<forall>q. inb g0 q \<and> adj4 p q \<longrightarrow> distance (nodeAt g' q) \<noteq> \<infinity>)"
  proof (intro ballI impI allI)
    fix p q
    assume p: "p \<in> set (v @ [c])" "p \<noteq> e" and q: "inb g0 q \<and> adj4 p q"
    show "distance (nodeAt g' q) \<noteq> \<infinity>"
    proof (cases "p = c")
      case False
      with p have "p \<in> set v" by simp
      with distInv_closure [OF di] p(2) q have "distance (nodeAt g q) \<noteq> \<infinity>" by blast
      with either [of q] q show ?thesis by (auto simp: enat_plus_one)
    next
      case True
      show ?thesis
      proof (cases "q \<in> set (v @ [c])")
        case True
        then have "distance (nodeAt g q) \<noteq> \<infinity>"
          using distInv_finite_v [OF di] dc by auto
        with same(1) [OF True] show ?thesis by simp
      next
        case False
        with le [of q] q \<open>p = c\<close> have "distance (nodeAt g' q) \<le> enat k + 1" by simp
        then show ?thesis by (cases "distance (nodeAt g' q)") (auto simp: enat_plus_one)
      qed
    qed
  qed
  show "\<forall>q p. inb g0 q \<and> previousNode (nodeAt g' q) = Some p \<longrightarrow>
          p \<in> set (v @ [c]) \<and> adj4 p q \<and> distance (nodeAt g' q) = distance (nodeAt g' p) + 1"
  proof (intro allI impI)
    fix q p
    assume a: "inb g0 q \<and> previousNode (nodeAt g' q) = Some p"
    from either [of q] a consider
      (old) "distance (nodeAt g' q) = distance (nodeAt g q)" "previousNode (nodeAt g q) = Some p"
      | (new) "adj4 c q" "distance (nodeAt g' q) = enat k + 1" "p = c"
      by auto
    then show "p \<in> set (v @ [c]) \<and> adj4 p q \<and>
               distance (nodeAt g' q) = distance (nodeAt g' p) + 1"
    proof cases
      case old
      with distInv_prev [OF di] a
      have p: "p \<in> set v" "adj4 p q" "distance (nodeAt g q) = distance (nodeAt g p) + 1"
        by blast+
      from p(1) have "distance (nodeAt g' p) = distance (nodeAt g p)"
        using same(1) [of p] by simp
      with p old show ?thesis by simp
    next
      case new
      have "distance (nodeAt g' c) = enat k" using same(1) [of c] dc by simp
      with new show ?thesis by simp
    qed
  qed
  show "\<forall>q. inb g0 q \<and> previousNode (nodeAt g' q) = None \<and> q \<noteq> s \<longrightarrow>
          distance (nodeAt g' q) = \<infinity>"
  proof (intro allI impI)
    fix q
    assume a: "inb g0 q \<and> previousNode (nodeAt g' q) = None \<and> q \<noteq> s"
    with either [of q]
    have "distance (nodeAt g' q) = distance (nodeAt g q)" "previousNode (nodeAt g q) = None"
      by auto
    with distInv_noprev [OF di] a show "distance (nodeAt g' q) = \<infinity>" by auto
  qed
  show "distance (nodeAt g' s) = 0" "previousNode (nodeAt g' s) = None"
    using same [OF s_in] distInv_start_dist [OF di] distInv_start_prev [OF di] by simp_all
  show "s \<in> set (v @ [c]) \<or>
        (v @ [c] = [] \<and> (\<forall>q. inb g0 q \<and> q \<noteq> s \<longrightarrow> distance (nodeAt g' q) = \<infinity>))"
    using s_in by blast
qed

text \<open>The three parts together, for the three ways an iteration can go on.\<close>

lemma searchInv_wall:
  assumes "searchInv g0 s e g u v"
    and "set u = insert c (set rest)" "c \<notin> set rest \<and> distinct rest"
    and "isWall (nodeAt g c)"
  shows "searchInv g0 s e g rest v"
  using assms listInv_wall [of g0 g u v c rest]
  by (simp add: searchInv_def)

lemma searchInv_found:
  assumes inv: "searchInv g0 s e g u v"
    and u: "set u = insert c (set rest)" "c \<notin> set rest \<and> distinct rest"
    and c: "\<not> isWall (nodeAt g c)" "distance (nodeAt g c) = enat k" "c = e"
  shows "searchInv g0 s e (markVisited g c) rest (v @ [c])"
proof -
  note gi = searchInvD(1) [OF inv] and li = searchInvD(2) [OF inv] and di = searchInvD(3) [OF inv]
  have c0: "inb g0 c" using listInv_inb_u [OF li] u(1) by blast
  show ?thesis
    unfolding searchInv_def
    using gridInv_markVisited [OF gi] listInv_visit [OF gi li u c(1)]
      distInv_found [OF di c0 c(2,3)]
    by blast
qed

lemma searchInv_step:
  assumes inv: "searchInv g0 s e g u v"
    and u: "set u = insert c (set rest)" "c \<notin> set rest \<and> distinct rest"
    and c: "\<not> isWall (nodeAt g c)" "distance (nodeAt g c) = enat k" "c \<noteq> e"
    and r: "relaxedFrom (markVisited g c) c g'"
  shows "searchInv g0 s e g' rest (v @ [c])"
proof -
  note gi = searchInvD(1) [OF inv] and li = searchInvD(2) [OF inv] and di = searchInvD(3) [OF inv]
  have cu: "c \<in> set u" using u(1) by simp
  note gi1 = gridInv_markVisited [OF gi, of c]
  note li1 = listInv_visit [OF gi li u c(1)]
  show ?thesis
    unfolding searchInv_def
    using gridInv_relaxed [OF gi1 r] listInv_relaxed [OF gi1 li1 r]
      distInv_step [OF gi li di cu c(2,3) r]
    by blast
qed

section \<open>From the first iteration to the last\<close>

lemma distinct_pairs:
  "distinct rs \<Longrightarrow> (\<And>r. distinct (cs r)) \<Longrightarrow>
   distinct (concat (map (\<lambda>r. map (\<lambda>c. (r, c)) (cs r)) rs))"
proof (induction rs)
  case Nil
  then show ?case by simp
next
  case (Cons r rs)
  have "distinct (map (\<lambda>c. (r, c)) (cs r))"
    using Cons.prems(2) by (simp add: distinct_map inj_on_def)
  moreover have "set (map (\<lambda>c. (r, c)) (cs r)) \<inter>
                 set (concat (map (\<lambda>r. map (\<lambda>c. (r, c)) (cs r)) rs)) = {}"
    using Cons.prems(1) by auto
  ultimately show ?case using Cons by simp
qed

lemma getAllNodes_set: "set (getAllNodes g) = {p. inb g p}"
  by (auto simp: getAllNodes_def inb_def)

lemma getAllNodes_distinct: "distinct (getAllNodes g)"
  unfolding getAllNodes_def by (rule distinct_pairs) simp_all

lemma resetDijkstra_dims [simp]:
  "length (resetDijkstra g) = length g"
  "r < length g \<Longrightarrow> length (resetDijkstra g ! r) = length (g ! r)"
  by (simp_all add: resetDijkstra_def)

lemma inb_resetDijkstra [simp]: "inb (resetDijkstra g) p = inb g p"
  by (auto simp: inb_def)

lemma nodeAt_resetDijkstra:
  "inb g p \<Longrightarrow> nodeAt (resetDijkstra g) p
     = (nodeAt g p)\<lparr>distance := \<infinity>, previousNode := None, isVisited := False\<rparr>"
  by (simp add: resetDijkstra_def nodeAt_def inb_def)

lemma resetAstar_dims [simp]:
  "length (resetAstar g s f) = length g"
  "r < length g \<Longrightarrow> length (resetAstar g s f ! r) = length (g ! r)"
  by (simp_all add: resetAstar_def)

lemma inb_resetAstar [simp]: "inb (resetAstar g s f) p = inb g p"
  by (auto simp: inb_def)

lemma nodeAt_resetAstar:
  "inb g p \<Longrightarrow> nodeAt (resetAstar g s f) p
     = (if p \<noteq> s
        then (nodeAt g p)\<lparr>distance := \<infinity>, totalDistance := \<infinity>, previousNode := None,
               isVisited := False,
               heuristic := manhattanDistance (nodeAt g p) (nodeAt g f)\<rparr>
        else nodeAt g p)"
  by (cases p) (auto simp add: resetAstar_def nodeAt_def inb_def)


lemma getAllNodes_updNode [simp]: "getAllNodes (updNode g p f) = getAllNodes g"
  by (simp add: getAllNodes_def)

lemma dijkstra_unfold:
  "dijkstra g s e speed sp doc =
     (if speed = ''instant''
      then dijkstraInstant sp e (dijkstraStart g s) (getAllNodes g) [] doc
      else dijkstraAnimated sp e (dijkstraStart g s) (getAllNodes g) [] doc)"
  by (simp add: dijkstra_def dijkstraStart_def Let_def)

lemma astar_unfold:
  "astar g s e speed sp doc =
     (if speed = ''instant''
      then astarInstant sp e (astarStart g s e) (getAllNodes g) [] doc
      else astarAnimated sp e (astarStart g s e) (getAllNodes g) [] doc)"
  by (simp add: astar_def astarStart_def Let_def)

lemma dijkstraStart_dims [simp]:
  "length (dijkstraStart g s) = length g"
  "r < length g \<Longrightarrow> length (dijkstraStart g s ! r) = length (g ! r)"
  by (simp_all add: dijkstraStart_def)

lemma inb_dijkstraStart [simp]: "inb (dijkstraStart g s) p = inb g p"
  by (cases "fst p < length g") (simp_all add: inb_def)

lemma dijkstraStart_fields:
  assumes "inb g p"
  shows "row (nodeAt (dijkstraStart g s) p) = row (nodeAt g p)"
    and "col (nodeAt (dijkstraStart g s) p) = col (nodeAt g p)"
    and "isWall (nodeAt (dijkstraStart g s) p) = isWall (nodeAt g p)"
    and "isVisited (nodeAt (dijkstraStart g s) p) = False"
    and "previousNode (nodeAt (dijkstraStart g s) p) = None"
    and "distance (nodeAt (dijkstraStart g s) p) = (if p = s then 0 else \<infinity>)"
  using assms
  by (auto simp add: dijkstraStart_def nodeAt_updNode nodeAt_resetDijkstra)

lemma astarStart_dims [simp]:
  "length (astarStart g s f) = length g"
  "r < length g \<Longrightarrow> length (astarStart g s f ! r) = length (g ! r)"
  by (simp_all add: astarStart_def)

lemma inb_astarStart [simp]: "inb (astarStart g s f) p = inb g p"
  by (cases "fst p < length g") (simp_all add: inb_def)

lemma astarStart_fields:
  assumes "inb g p"
  shows "row (nodeAt (astarStart g s f) p) = row (nodeAt g p)"
    and "col (nodeAt (astarStart g s f) p) = col (nodeAt g p)"
    and "isWall (nodeAt (astarStart g s f) p) = isWall (nodeAt g p)"
    and "isVisited (nodeAt (astarStart g s f) p) = False"
    and "previousNode (nodeAt (astarStart g s f) p) = None"
    and "distance (nodeAt (astarStart g s f) p) = (if p = s then 0 else \<infinity>)"
    and "(totalDistance (nodeAt (astarStart g s f) p) = \<infinity>) = (p \<noteq> s)"
  using assms
  by (auto simp add: astarStart_def nodeAt_updNode nodeAt_resetAstar)

lemma searchInv_initial:
  assumes wf: "wf_grid g'" and s: "inb g s"
    and dims: "\<And>p. inb g' p = inb g p"
    and fields: "\<And>p. inb g p \<Longrightarrow>
        isWall (nodeAt g' p) = isWall (nodeAt g p) \<and>
        isVisited (nodeAt g' p) = False \<and>
        previousNode (nodeAt g' p) = None \<and>
        distance (nodeAt g' p) = (if p = s then 0 else \<infinity>)"
  shows "searchInv g s e g' (getAllNodes g) []"
proof -
  have "gridInv g g'"
    by (rule gridInvI) (use wf dims fields in \<open>auto simp: fun_eq_iff\<close>)
  moreover have "listInv g g' (getAllNodes g) []"
    by (rule listInvI) (use fields in \<open>simp_all add: getAllNodes_distinct getAllNodes_set\<close>)
  moreover have "distInv g s e g' []"
    by (rule distInvI) (use s fields in simp_all)
  ultimately show ?thesis by (simp add: searchInv_def)
qed

lemma searchInv_dijkstraStart:
  assumes "wf_grid g" "inb g s"
  shows "searchInv g s e (dijkstraStart g s) (getAllNodes g) []"
proof (rule searchInv_initial)
  show "wf_grid (dijkstraStart g s)"
    by (rule wf_grid_same [OF assms(1)]) (simp_all add: dijkstraStart_fields)
qed (use assms in \<open>simp_all add: dijkstraStart_fields\<close>)

lemma searchInv_astarStart:
  assumes "wf_grid g" "inb g s"
  shows "searchInv g s e (astarStart g s f) (getAllNodes g) []"
proof (rule searchInv_initial)
  show "wf_grid (astarStart g s f)"
    by (rule wf_grid_same [OF assms(1)]) (simp_all add: astarStart_fields)
qed (use assms in \<open>simp_all add: astarStart_fields\<close>)

lemma keyInv_astarStart: "keyInv g (astarStart g s f)"
  by (simp add: keyInv_def astarStart_fields)

section \<open>How the four loops end\<close>

lemma done_empty:
  assumes "searchInv g0 s e g u v" "e \<notin> set v" "u = []"
  shows "searchDone g0 s e g v"
proof -
  have "\<forall>p. inb g0 p \<and> \<not> isWall (nodeAt g p) \<and> p \<notin> set v \<longrightarrow> distance (nodeAt g p) = \<infinity>"
    using listInv_pending [OF searchInvD(2) [OF assms(1)]] assms(3) by auto
  with assms(1,2) show ?thesis unfolding searchDone_def by blast
qed

lemma done_inf:
  assumes "searchInv g0 s e g u v" "e \<notin> set v" "\<forall>x\<in>set u. distance (nodeAt g x) = \<infinity>"
  shows "searchDone g0 s e g v"
proof -
  have "\<forall>p. inb g0 p \<and> \<not> isWall (nodeAt g p) \<and> p \<notin> set v \<longrightarrow> distance (nodeAt g p) = \<infinity>"
    using listInv_pending [OF searchInvD(2) [OF assms(1)]] assms(3) by blast
  with assms(1,2) show ?thesis unfolding searchDone_def by blast
qed

lemma done_found:
  assumes "searchInv g0 s e g' rest (v @ [e])"
  shows "searchDone g0 s e g' (v @ [e])"
  using assms unfolding searchDone_def by auto

lemma keyInv_step:
  assumes k: "keyInv g0 g" and gi: "gridInv g0 g" and c: "inb g0 c"
    and dc: "distance (nodeAt g c) = enat d"
  shows "keyInv g0 (updateUnvisitedNeighborsAstar c (markVisited g c) fin)"
proof -
  have wf: "wf_grid (markVisited g c)" using gridInvD(1) [OF gi] by simp
  have cg: "inb (markVisited g c) c" using c gridInvD(2) [OF gi] by simp
  show ?thesis
    unfolding keyInv_def
    using k dc
    by (simp add: nodeAt_updateUnvisitedNeighborsAstar [OF wf cg] keyInv_def enat_plus_one)
qed

lemma keyInv_markVisited: "keyInv g0 g \<Longrightarrow> keyInv g0 (markVisited g c)"
  by (simp add: keyInv_def)

lemma dijkstraInstant_done:
  assumes inv: "searchInv g0 s e g u v \<and> e \<notin> set v"
  shows "searchDone g0 s e (fst (snd (dijkstraInstant sp e g u v d))) (fst (dijkstraInstant sp e g u v d))"
proof -
  let ?I = "\<lambda>g u v. searchInv g0 s e g u v \<and> e \<notin> set v"
  let ?Q = "\<lambda>v g. searchDone g0 s e g v"
  have wall: "?I g rest v"
    if "?I g u v" "sortNodesByDistance g u = c # rest" "isWall (nodeAt g c)"
    for g u v c rest
  proof -
    note sk = sort_key_Cons [OF that(2) [unfolded sortNodesByDistance_def]]
    have "distinct u" using that(1) by (blast intro: searchInv_distinct_u)
    from searchInv_wall [OF _ sk(1) sk(2) [OF this] that(3)] that(1)
    show ?thesis by blast
  qed
  have step: "?I (updateUnvisitedNeighbors c (markVisited g c)) rest (v @ [c])"
    if "?I g u v" "sortNodesByDistance g u = c # rest" "\<not> isWall (nodeAt g c)"
       "distance (nodeAt g c) = enat k" "c \<noteq> e"
    for g u v c rest k
  proof -
    note sk = sort_key_Cons [OF that(2) [unfolded sortNodesByDistance_def]]
    from that(1) have inv: "searchInv g0 s e g u v" by simp
    have du: "distinct u" using inv by (blast intro: searchInv_distinct_u)
    have "c \<in> set u" using sk(1) by simp
    then have "inb g0 c" using listInv_inb_u [OF searchInvD(2) [OF inv]] by blast
    then have cg: "inb (markVisited g c) c" using gridInvD(2) [OF searchInvD(1) [OF inv]] by simp
    have wf: "wf_grid (markVisited g c)" using gridInvD(1) [OF searchInvD(1) [OF inv]] by simp
    from searchInv_step [OF inv sk(1) sk(2) [OF du] that(3,4,5) relaxedFrom_dijkstra [OF wf cg]]
    show ?thesis using that(1,5) by simp
  qed
  have empty: "?Q v g" if "?I g u v" "sortNodesByDistance g u = []" for g u v
  proof -
    from that(2) have "u = []"
      by (metis length_0_conv length_sort sortNodesByDistance_def)
    with that(1) show ?thesis by (blast intro: done_empty)
  qed
  have inf: "?Q v g"
    if "?I g u v" "sortNodesByDistance g u = c # rest" "\<not> isWall (nodeAt g c)"
       "distance (nodeAt g c) = \<infinity>"
    for g u v c rest
  proof -
    note sk = sort_key_Cons [OF that(2) [unfolded sortNodesByDistance_def]]
    from sk(3) that(4) have "\<forall>x\<in>set u. distance (nodeAt g x) = \<infinity>" by simp
    with that(1) show ?thesis by (blast intro: done_inf)
  qed
  have found: "?Q (v @ [c]) (markVisited g c)"
    if "?I g u v" "sortNodesByDistance g u = c # rest" "\<not> isWall (nodeAt g c)"
       "distance (nodeAt g c) = enat k" "c = e"
    for g u v c rest k
  proof -
    note sk = sort_key_Cons [OF that(2) [unfolded sortNodesByDistance_def]]
    from that(1) have inv: "searchInv g0 s e g u v" by simp
    have du: "distinct u" using inv by (blast intro: searchInv_distinct_u)
    from searchInv_found [OF inv sk(1) sk(2) [OF du] that(3,4,5)] that(5)
    show ?thesis by (simp add: done_found)
  qed
  show ?thesis
    by (rule dijkstraInstant_rule [where I = ?I and Q = ?Q, OF inv wall step empty inf found])
qed

lemma dijkstraAnimated_done:
  assumes inv: "searchInv g0 s e g u v \<and> e \<notin> set v"
  shows "searchDone g0 s e (fst (snd (dijkstraAnimated sp e g u v d))) (fst (dijkstraAnimated sp e g u v d))"
proof -
  let ?I = "\<lambda>g u v. searchInv g0 s e g u v \<and> e \<notin> set v"
  let ?Q = "\<lambda>v g. searchDone g0 s e g v"
  have wall: "?I g rest v"
    if "?I g u v" "sortNodesByDistance g u = c # rest" "isWall (nodeAt g c)"
    for g u v c rest
  proof -
    note sk = sort_key_Cons [OF that(2) [unfolded sortNodesByDistance_def]]
    have "distinct u" using that(1) by (blast intro: searchInv_distinct_u)
    from searchInv_wall [OF _ sk(1) sk(2) [OF this] that(3)] that(1)
    show ?thesis by blast
  qed
  have step: "?I (updateUnvisitedNeighbors c (markVisited g c)) rest (v @ [c])"
    if "?I g u v" "sortNodesByDistance g u = c # rest" "\<not> isWall (nodeAt g c)"
       "distance (nodeAt g c) = enat k" "c \<noteq> e"
    for g u v c rest k
  proof -
    note sk = sort_key_Cons [OF that(2) [unfolded sortNodesByDistance_def]]
    from that(1) have inv: "searchInv g0 s e g u v" by simp
    have du: "distinct u" using inv by (blast intro: searchInv_distinct_u)
    have "c \<in> set u" using sk(1) by simp
    then have "inb g0 c" using listInv_inb_u [OF searchInvD(2) [OF inv]] by blast
    then have cg: "inb (markVisited g c) c" using gridInvD(2) [OF searchInvD(1) [OF inv]] by simp
    have wf: "wf_grid (markVisited g c)" using gridInvD(1) [OF searchInvD(1) [OF inv]] by simp
    from searchInv_step [OF inv sk(1) sk(2) [OF du] that(3,4,5) relaxedFrom_dijkstra [OF wf cg]]
    show ?thesis using that(1,5) by simp
  qed
  have empty: "?Q v g" if "?I g u v" "sortNodesByDistance g u = []" for g u v
  proof -
    from that(2) have "u = []"
      by (metis length_0_conv length_sort sortNodesByDistance_def)
    with that(1) show ?thesis by (blast intro: done_empty)
  qed
  have inf: "?Q v g"
    if "?I g u v" "sortNodesByDistance g u = c # rest" "\<not> isWall (nodeAt g c)"
       "distance (nodeAt g c) = \<infinity>"
    for g u v c rest
  proof -
    note sk = sort_key_Cons [OF that(2) [unfolded sortNodesByDistance_def]]
    from sk(3) that(4) have "\<forall>x\<in>set u. distance (nodeAt g x) = \<infinity>" by simp
    with that(1) show ?thesis by (blast intro: done_inf)
  qed
  have found: "?Q (v @ [c]) (markVisited g c)"
    if "?I g u v" "sortNodesByDistance g u = c # rest" "\<not> isWall (nodeAt g c)"
       "distance (nodeAt g c) = enat k" "c = e"
    for g u v c rest k
  proof -
    note sk = sort_key_Cons [OF that(2) [unfolded sortNodesByDistance_def]]
    from that(1) have inv: "searchInv g0 s e g u v" by simp
    have du: "distinct u" using inv by (blast intro: searchInv_distinct_u)
    from searchInv_found [OF inv sk(1) sk(2) [OF du] that(3,4,5)] that(5)
    show ?thesis by (simp add: done_found)
  qed
  show ?thesis
    by (rule dijkstraAnimated_rule [where I = ?I and Q = ?Q, OF inv wall step empty inf found])
qed

lemma astarInstant_done:
  assumes inv: "searchInv g0 s e g u v \<and> e \<notin> set v \<and> keyInv g0 g"
  shows "searchDone g0 s e (fst (snd (astarInstant sp e g u v d))) (fst (astarInstant sp e g u v d))"
proof -
  let ?I = "\<lambda>g u v. searchInv g0 s e g u v \<and> e \<notin> set v \<and> keyInv g0 g"
  let ?Q = "\<lambda>v g. searchDone g0 s e g v"
  have wall: "?I g rest v"
    if "?I g u v" "sortNodesByTotalDistance g u = c # rest" "isWall (nodeAt g c)"
    for g u v c rest
  proof -
    note sk = sort_key_Cons [OF that(2) [unfolded sortNodesByTotalDistance_def]]
    have "distinct u" using that(1) by (blast intro: searchInv_distinct_u)
    from searchInv_wall [OF _ sk(1) sk(2) [OF this] that(3)] that(1)
    show ?thesis by blast
  qed
  have finite: "\<exists>d. distance (nodeAt g c) = enat d"
    if "?I g u v" "sortNodesByTotalDistance g u = c # rest" "totalDistance (nodeAt g c) = enat k"
    for g u v c rest k
  proof -
    note sk = sort_key_Cons [OF that(2) [unfolded sortNodesByTotalDistance_def]]
    from that(1) have inv: "searchInv g0 s e g u v" and k: "keyInv g0 g" by simp_all
    have "c \<in> set u" using sk(1) by simp
    then have "inb g0 c" using listInv_inb_u [OF searchInvD(2) [OF inv]] by blast
    with k that(3) have "distance (nodeAt g c) \<noteq> \<infinity>" unfolding keyInv_def by auto
    then show ?thesis by auto
  qed
  have step: "?I (updateUnvisitedNeighborsAstar c (markVisited g c) e) rest (v @ [c])"
    if "?I g u v" "sortNodesByTotalDistance g u = c # rest" "\<not> isWall (nodeAt g c)"
       "totalDistance (nodeAt g c) = enat k" "c \<noteq> e"
    for g u v c rest k
  proof -
    note sk = sort_key_Cons [OF that(2) [unfolded sortNodesByTotalDistance_def]]
    from that(1) have inv: "searchInv g0 s e g u v" and key: "keyInv g0 g" by simp_all
    from finite [OF that(1,2,4)] obtain d where dc: "distance (nodeAt g c) = enat d" by blast
    have du: "distinct u" using inv by (blast intro: searchInv_distinct_u)
    have "c \<in> set u" using sk(1) by simp
    then have c0: "inb g0 c" using listInv_inb_u [OF searchInvD(2) [OF inv]] by blast
    then have cg: "inb (markVisited g c) c" using gridInvD(2) [OF searchInvD(1) [OF inv]] by simp
    have wf: "wf_grid (markVisited g c)" using gridInvD(1) [OF searchInvD(1) [OF inv]] by simp
    from searchInv_step [OF inv sk(1) sk(2) [OF du] that(3) dc that(5) relaxedFrom_astar [OF wf cg]]
      keyInv_step [OF key searchInvD(1) [OF inv] c0 dc]
    show ?thesis using that(1,5) by simp
  qed
  have empty: "?Q v g" if "?I g u v" "sortNodesByTotalDistance g u = []" for g u v
  proof -
    from that(2) have "u = []"
      by (metis length_0_conv length_sort sortNodesByTotalDistance_def)
    with that(1) show ?thesis by (blast intro: done_empty)
  qed
  have inf: "?Q v g"
    if "?I g u v" "sortNodesByTotalDistance g u = c # rest" "\<not> isWall (nodeAt g c)"
       "totalDistance (nodeAt g c) = \<infinity>"
    for g u v c rest
  proof -
    note sk = sort_key_Cons [OF that(2) [unfolded sortNodesByTotalDistance_def]]
    from that(1) have inv: "searchInv g0 s e g u v" and key: "keyInv g0 g" by simp_all
    from sk(3) that(4) have "\<forall>x\<in>set u. totalDistance (nodeAt g x) = \<infinity>" by simp
    moreover have "\<forall>x\<in>set u. inb g0 x" using listInv_inb_u [OF searchInvD(2) [OF inv]] .
    ultimately have "\<forall>x\<in>set u. distance (nodeAt g x) = \<infinity>"
      using key unfolding keyInv_def by blast
    with that(1) show ?thesis by (blast intro: done_inf)
  qed
  have found: "?Q (v @ [c]) (markVisited g c)"
    if "?I g u v" "sortNodesByTotalDistance g u = c # rest" "\<not> isWall (nodeAt g c)"
       "totalDistance (nodeAt g c) = enat k" "c = e"
    for g u v c rest k
  proof -
    note sk = sort_key_Cons [OF that(2) [unfolded sortNodesByTotalDistance_def]]
    from that(1) have inv: "searchInv g0 s e g u v" by simp
    from finite [OF that(1,2,4)] obtain d where dc: "distance (nodeAt g c) = enat d" by blast
    have du: "distinct u" using inv by (blast intro: searchInv_distinct_u)
    from searchInv_found [OF inv sk(1) sk(2) [OF du] that(3) dc that(5)] that(5)
    show ?thesis by (simp add: done_found)
  qed
  show ?thesis
    by (rule astarInstant_rule [where I = ?I and Q = ?Q, OF inv wall step empty inf found])
qed

lemma astarAnimated_done:
  assumes inv: "searchInv g0 s e g u v \<and> e \<notin> set v \<and> keyInv g0 g"
  shows "searchDone g0 s e (fst (snd (astarAnimated sp e g u v d))) (fst (astarAnimated sp e g u v d))"
proof -
  let ?I = "\<lambda>g u v. searchInv g0 s e g u v \<and> e \<notin> set v \<and> keyInv g0 g"
  let ?Q = "\<lambda>v g. searchDone g0 s e g v"
  have wall: "?I g rest v"
    if "?I g u v" "sortNodesByTotalDistance g u = c # rest" "isWall (nodeAt g c)"
    for g u v c rest
  proof -
    note sk = sort_key_Cons [OF that(2) [unfolded sortNodesByTotalDistance_def]]
    have "distinct u" using that(1) by (blast intro: searchInv_distinct_u)
    from searchInv_wall [OF _ sk(1) sk(2) [OF this] that(3)] that(1)
    show ?thesis by blast
  qed
  have finite: "\<exists>d. distance (nodeAt g c) = enat d"
    if "?I g u v" "sortNodesByTotalDistance g u = c # rest" "totalDistance (nodeAt g c) = enat k"
    for g u v c rest k
  proof -
    note sk = sort_key_Cons [OF that(2) [unfolded sortNodesByTotalDistance_def]]
    from that(1) have inv: "searchInv g0 s e g u v" and k: "keyInv g0 g" by simp_all
    have "c \<in> set u" using sk(1) by simp
    then have "inb g0 c" using listInv_inb_u [OF searchInvD(2) [OF inv]] by blast
    with k that(3) have "distance (nodeAt g c) \<noteq> \<infinity>" unfolding keyInv_def by auto
    then show ?thesis by auto
  qed
  have step: "?I (updateUnvisitedNeighborsAstar c (markVisited g c) e) rest (v @ [c])"
    if "?I g u v" "sortNodesByTotalDistance g u = c # rest" "\<not> isWall (nodeAt g c)"
       "totalDistance (nodeAt g c) = enat k" "c \<noteq> e"
    for g u v c rest k
  proof -
    note sk = sort_key_Cons [OF that(2) [unfolded sortNodesByTotalDistance_def]]
    from that(1) have inv: "searchInv g0 s e g u v" and key: "keyInv g0 g" by simp_all
    from finite [OF that(1,2,4)] obtain d where dc: "distance (nodeAt g c) = enat d" by blast
    have du: "distinct u" using inv by (blast intro: searchInv_distinct_u)
    have "c \<in> set u" using sk(1) by simp
    then have c0: "inb g0 c" using listInv_inb_u [OF searchInvD(2) [OF inv]] by blast
    then have cg: "inb (markVisited g c) c" using gridInvD(2) [OF searchInvD(1) [OF inv]] by simp
    have wf: "wf_grid (markVisited g c)" using gridInvD(1) [OF searchInvD(1) [OF inv]] by simp
    from searchInv_step [OF inv sk(1) sk(2) [OF du] that(3) dc that(5) relaxedFrom_astar [OF wf cg]]
      keyInv_step [OF key searchInvD(1) [OF inv] c0 dc]
    show ?thesis using that(1,5) by simp
  qed
  have empty: "?Q v g" if "?I g u v" "sortNodesByTotalDistance g u = []" for g u v
  proof -
    from that(2) have "u = []"
      by (metis length_0_conv length_sort sortNodesByTotalDistance_def)
    with that(1) show ?thesis by (blast intro: done_empty)
  qed
  have inf: "?Q v g"
    if "?I g u v" "sortNodesByTotalDistance g u = c # rest" "\<not> isWall (nodeAt g c)"
       "totalDistance (nodeAt g c) = \<infinity>"
    for g u v c rest
  proof -
    note sk = sort_key_Cons [OF that(2) [unfolded sortNodesByTotalDistance_def]]
    from that(1) have inv: "searchInv g0 s e g u v" and key: "keyInv g0 g" by simp_all
    from sk(3) that(4) have "\<forall>x\<in>set u. totalDistance (nodeAt g x) = \<infinity>" by simp
    moreover have "\<forall>x\<in>set u. inb g0 x" using listInv_inb_u [OF searchInvD(2) [OF inv]] .
    ultimately have "\<forall>x\<in>set u. distance (nodeAt g x) = \<infinity>"
      using key unfolding keyInv_def by blast
    with that(1) show ?thesis by (blast intro: done_inf)
  qed
  have found: "?Q (v @ [c]) (markVisited g c)"
    if "?I g u v" "sortNodesByTotalDistance g u = c # rest" "\<not> isWall (nodeAt g c)"
       "totalDistance (nodeAt g c) = enat k" "c = e"
    for g u v c rest k
  proof -
    note sk = sort_key_Cons [OF that(2) [unfolded sortNodesByTotalDistance_def]]
    from that(1) have inv: "searchInv g0 s e g u v" by simp
    from finite [OF that(1,2,4)] obtain d where dc: "distance (nodeAt g c) = enat d" by blast
    have du: "distinct u" using inv by (blast intro: searchInv_distinct_u)
    from searchInv_found [OF inv sk(1) sk(2) [OF du] that(3) dc that(5)] that(5)
    show ?thesis by (simp add: done_found)
  qed
  show ?thesis
    by (rule astarAnimated_rule [where I = ?I and Q = ?Q, OF inv wall step empty inf found])
qed

text \<open>Every search, of either engine and at any speed, ends as \<open>searchDone\<close> says.\<close>

lemma dijkstra_done:
  assumes "wf_grid g" "inb g s"
  shows "searchDone g s e (fst (snd (dijkstra g s e speed sp doc))) (fst (dijkstra g s e speed sp doc))"
proof -
  have "searchInv g s e (dijkstraStart g s) (getAllNodes g) [] \<and> e \<notin> set []"
    using searchInv_dijkstraStart [OF assms] by simp
  from dijkstraInstant_done [OF this] dijkstraAnimated_done [OF this]
  show ?thesis by (simp add: dijkstra_unfold)
qed

lemma astar_done:
  assumes "wf_grid g" "inb g s"
  shows "searchDone g s e (fst (snd (astar g s e speed sp doc))) (fst (astar g s e speed sp doc))"
proof -
  have "searchInv g s e (astarStart g s e) (getAllNodes g) [] \<and> e \<notin> set [] \<and>
        keyInv g (astarStart g s e)"
    using searchInv_astarStart [OF assms] keyInv_astarStart by simp
  from astarInstant_done [OF this] astarAnimated_done [OF this]
  show ?thesis by (simp add: astar_unfold)
qed

section \<open>Walks, links and reachability\<close>

lemma walk_single: "openCell g p \<Longrightarrow> walk g [p]"
  by (simp add: walk_def)

lemma walk_snoc:
  assumes "walk g ps" "adj4 (last ps) q" "openCell g q"
  shows "walk g (ps @ [q])"
  using assms by (simp add: walk_def successively_append_iff)

lemma walk_same_cells:
  assumes "\<And>p. openCell g' p = openCell g p"
  shows "walk g' ps = walk g ps"
  using assms by (simp add: walk_def list_all_iff)

text \<open>A set that holds the first cell of a walk and is closed under open neighbours holds the whole walk.\<close>

lemma walk_in_closed_set:
  assumes closed: "\<And>p q. p \<in> V \<Longrightarrow> adj4 p q \<Longrightarrow> openCell g q \<Longrightarrow> q \<in> V"
    and "walk g ps" "hd ps \<in> V"
  shows "set ps \<subseteq> V"
  using assms(2,3)
proof (induction ps)
  case Nil
  then show ?case by simp
next
  case (Cons x ps)
  show ?case
  proof (cases ps)
    case Nil
    with Cons.prems show ?thesis by simp
  next
    case (Cons y rest)
    with Cons.prems(1) have "adj4 x y" "openCell g y" "walk g ps"
      by (simp_all add: walk_def)
    moreover from Cons.prems(2) have "x \<in> V" by simp
    ultimately have "hd ps \<in> V" "walk g ps" using closed Cons by auto
    with Cons.IH \<open>x \<in> V\<close> show ?thesis by simp
  qed
qed

text \<open>
  Following the links from a visited node: the loop of \<open>getNodesInShortestPathOrder\<close>
  returns, and what it puts in front of its accumulator is a walk from the start to
  that node, of as many steps as the node's distance says.
\<close>

lemma shortestPathLoop_visited:
  assumes gi: "gridInv g0 g" and li: "listInv g0 g u v" and di: "distInv g0 s e g v"
  shows "q \<in> set v \<Longrightarrow> distance (nodeAt g q) = enat n \<Longrightarrow>
         \<exists>path. shortestPathLoop g (Some q) acc = Some (path @ acc) \<and>
                hd path = s \<and> last path = q \<and> walk g path \<and> length path = Suc n \<and>
                set path \<subseteq> set v"
proof (induction n arbitrary: q acc)
  case 0
  have q0: "inb g0 q" using listInv_open_v [OF li] "0.prems"(1) by blast
  have "previousNode (nodeAt g q) = None"
  proof (cases "previousNode (nodeAt g q)")
    case (Some p)
    with distInv_prev [OF di] q0 have "distance (nodeAt g q) = distance (nodeAt g p) + 1"
      by blast
    with "0.prems"(2) show ?thesis
      by (cases "distance (nodeAt g p)") (simp_all add: enat_plus_one zero_enat_def)
  qed simp
  moreover from this have "q = s"
    using distInv_noprev [OF di] q0 "0.prems"(2) by auto
  moreover have "openCell g q"
    using listInv_open_v [OF li] "0.prems"(1) gridInvD(2) [OF gi] by (simp add: openCell_def)
  ultimately have "shortestPathLoop g (Some q) acc = Some ([q] @ acc) \<and>
      hd [q] = s \<and> last [q] = q \<and> walk g [q] \<and> length [q] = Suc 0 \<and> set [q] \<subseteq> set v"
    using "0.prems"(1)
    by (subst shortestPathLoop.simps, subst shortestPathLoop.simps) (simp add: walk_single)
  then show ?case by blast
next
  case (Suc n)
  have q0: "inb g0 q" using listInv_open_v [OF li] Suc.prems(1) by blast
  have qo: "openCell g q"
    using listInv_open_v [OF li] Suc.prems(1) gridInvD(2) [OF gi] by (simp add: openCell_def)
  obtain p where p: "previousNode (nodeAt g q) = Some p"
  proof (cases "previousNode (nodeAt g q)")
    case None
    have "q = s"
    proof (rule ccontr)
      assume "q \<noteq> s"
      with distInv_noprev [OF di] q0 None have "distance (nodeAt g q) = \<infinity>" by blast
      with Suc.prems(2) show False by simp
    qed
    with distInv_start_dist [OF di] Suc.prems(2) show ?thesis by (simp add: zero_enat_def)
  qed blast
  with distInv_prev [OF di] q0
  have pv: "p \<in> set v" and adj: "adj4 p q"
    and d: "distance (nodeAt g q) = distance (nodeAt g p) + 1" by blast+
  from d Suc.prems(2) have dp: "distance (nodeAt g p) = enat n"
    by (cases "distance (nodeAt g p)") (simp_all add: enat_plus_one)
  from Suc.IH [OF pv dp, of "q # acc"] obtain path where
    path: "shortestPathLoop g (Some p) (q # acc) = Some (path @ q # acc)"
      "hd path = s" "last path = p" "walk g path" "length path = Suc n" "set path \<subseteq> set v"
    by blast
  have "shortestPathLoop g (Some q) acc = Some ((path @ [q]) @ acc)"
    using path(1) p by (subst shortestPathLoop.simps) simp
  moreover have "hd (path @ [q]) = s" using path(2,5) by (cases path) simp_all
  moreover have "walk g (path @ [q])" using path(3,4) adj qo by (simp add: walk_snoc)
  moreover have "set (path @ [q]) \<subseteq> set v" using path(6) Suc.prems(1) by simp
  ultimately have "shortestPathLoop g (Some q) acc = Some ((path @ [q]) @ acc) \<and>
      hd (path @ [q]) = s \<and> last (path @ [q]) = q \<and> walk g (path @ [q]) \<and>
      length (path @ [q]) = Suc (Suc n) \<and> set (path @ [q]) \<subseteq> set v"
    using path(5) by simp
  then show ?case by blast
qed

lemma openCell_gridInv: "gridInv g0 g \<Longrightarrow> openCell g p = openCell g0 p"
  using gridInvD(2,3) [of g0 g] by (auto simp: openCell_def)

text \<open>What is visited is reachable.\<close>

lemma visited_reachable:
  assumes inv: "searchInv g0 s e g u v" and q: "q \<in> set v"
  shows "reachable g0 s q"
proof -
  note gi = searchInvD(1) [OF inv] and li = searchInvD(2) [OF inv] and di = searchInvD(3) [OF inv]
  from distInv_finite_v [OF di] q obtain n where "distance (nodeAt g q) = enat n" by auto
  from shortestPathLoop_visited [OF gi li di q this, of "[]"]
  obtain path where "hd path = s" "last path = q" "walk g path" by blast
  moreover have "walk g path = walk g0 path"
    by (rule walk_same_cells) (rule openCell_gridInv [OF gi])
  ultimately show ?thesis unfolding reachable_def by blast
qed

text \<open>When a search ends without the target, what is reachable is visited.\<close>

lemma reachable_visited:
  assumes fin: "searchDone g0 s e g v" and e: "e \<notin> set v" and q: "reachable g0 s q"
  shows "q \<in> set v"
proof -
  from fin obtain u where inv: "searchInv g0 s e g u v" unfolding searchDone_def by blast
  note gi = searchInvD(1) [OF inv] and li = searchInvD(2) [OF inv] and di = searchInvD(3) [OF inv]
  from fin e have far: "\<And>p. inb g0 p \<Longrightarrow> \<not> isWall (nodeAt g p) \<Longrightarrow> p \<notin> set v \<Longrightarrow>
      distance (nodeAt g p) = \<infinity>"
    unfolding searchDone_def by blast
  from q obtain ps where ps: "walk g0 ps" "hd ps = s" "last ps = q"
    unfolding reachable_def by blast
  then have "ps \<noteq> []" by (simp add: walk_def)
  with ps have "openCell g0 s" by (cases ps) (simp_all add: walk_def)
  then have so: "inb g0 s" "\<not> isWall (nodeAt g s)"
    using openCell_gridInv [OF gi, of s] gridInvD(2) [OF gi] by (simp_all add: openCell_def)
  have sv: "s \<in> set v"
  proof (rule ccontr)
    assume "s \<notin> set v"
    from far [OF so this] distInv_start_dist [OF di] show False by simp
  qed
  have closed: "q' \<in> set v" if "p \<in> set v" "adj4 p q'" "openCell g0 q'" for p q'
  proof (rule ccontr)
    assume n: "q' \<notin> set v"
    from that(3) have qo: "inb g0 q'" "\<not> isWall (nodeAt g q')"
      using openCell_gridInv [OF gi, of q'] gridInvD(2) [OF gi] by (simp_all add: openCell_def)
    from that(1) e have "p \<noteq> e" by auto
    with distInv_closure [OF di] that(1,2) qo(1) have "distance (nodeAt g q') \<noteq> \<infinity>" by blast
    with far [OF qo n] show False by simp
  qed
  have "set ps \<subseteq> set v"
    by (rule walk_in_closed_set [OF closed ps(1)]) (use sv ps(2) in simp_all)
  with ps(3) \<open>ps \<noteq> []\<close> show ?thesis by (metis last_in_set subsetD)
qed

section \<open>What the end of a search says about the target, the path and the walls\<close>

lemma done_unreachable:
  assumes fin: "searchDone g s e g' v" and e: "inb g e" "\<not> reachable g s e"
  shows "\<not> isVisited (nodeAt g' e) \<and> set v = {p. reachable g s p} \<and> distinct v"
proof -
  from fin obtain u where inv: "searchInv g s e g' u v" unfolding searchDone_def by blast
  note li = searchInvD(2) [OF inv]
  have ev: "e \<notin> set v" using visited_reachable [OF inv] e(2) by blast
  then have "\<not> isVisited (nodeAt g' e)" using listInv_visited [OF li] e(1) by blast
  moreover have "set v = {p. reachable g s p}"
    using visited_reachable [OF inv] reachable_visited [OF fin ev] by blast
  moreover have "distinct v" using li by (rule listInvD)
  ultimately show ?thesis by blast
qed

lemma done_path:
  assumes fin: "searchDone g s e g' v" and e: "inb g e" "isVisited (nodeAt g' e)"
  shows "\<exists>path. getNodesInShortestPathOrder g' e = Some path \<and> hd path = s \<and> last path = e \<and>
           walk g' path \<and> (length path = 1 \<longrightarrow> previousNode (nodeAt g' e) = None)"
proof -
  from fin obtain u where inv: "searchInv g s e g' u v" unfolding searchDone_def by blast
  note gi = searchInvD(1) [OF inv] and li = searchInvD(2) [OF inv] and di = searchInvD(3) [OF inv]
  have ev: "e \<in> set v" using listInv_visited [OF li] e by blast
  with distInv_finite_v [OF di] obtain n where n: "distance (nodeAt g' e) = enat n" by auto
  from shortestPathLoop_visited [OF gi li di ev n, of "[]"] obtain path where
    path: "shortestPathLoop g' (Some e) [] = Some path" "hd path = s" "last path = e"
      "walk g' path" "length path = Suc n"
    by auto
  have "previousNode (nodeAt g' e) = None" if "length path = 1"
  proof (cases "previousNode (nodeAt g' e)")
    case (Some p)
    with distInv_prev [OF di] e(1)
    have "distance (nodeAt g' e) = distance (nodeAt g' p) + 1" by blast
    moreover from that path(5) n have "distance (nodeAt g' e) = enat 0" by simp
    ultimately show ?thesis
      by (cases "distance (nodeAt g' p)") (simp_all add: enat_plus_one)
  qed simp
  with path show ?thesis unfolding getNodesInShortestPathOrder_def by blast
qed

lemma done_walls:
  assumes fin: "searchDone g s e g' v" and w: "inb g w" "isWall (nodeAt g w)"
  shows "\<not> isVisited (nodeAt g' w) \<and> w \<notin> set v \<and>
         (\<forall>a\<in>set v. a \<noteq> e \<and> adj4 a w \<longrightarrow>
            distance (nodeAt g' w) \<noteq> \<infinity> \<and> previousNode (nodeAt g' w) \<noteq> None)"
proof -
  from fin obtain u where inv: "searchInv g s e g' u v" unfolding searchDone_def by blast
  note gi = searchInvD(1) [OF inv] and li = searchInvD(2) [OF inv] and di = searchInvD(3) [OF inv]
  have wall: "isWall (nodeAt g' w)" using gridInvD(3) [OF gi] w by blast
  then have wv: "w \<notin> set v" using listInv_open_v [OF li] by blast
  then have "\<not> isVisited (nodeAt g' w)" using listInv_visited [OF li] w(1) by blast
  moreover have "distance (nodeAt g' w) \<noteq> \<infinity> \<and> previousNode (nodeAt g' w) \<noteq> None"
    if a: "a \<in> set v" "a \<noteq> e \<and> adj4 a w" for a
  proof -
    from distInv_closure [OF di] a w(1) have d: "distance (nodeAt g' w) \<noteq> \<infinity>" by blast
    from a(1) distInv_started [OF di] have "s \<in> set v" by auto
    with wv have "w \<noteq> s" by auto
    with distInv_noprev [OF di] w(1) d have "previousNode (nodeAt g' w) \<noteq> None" by auto
    with d show ?thesis by simp
  qed
  ultimately show ?thesis using wv by blast
qed

lemma adj4_cases:
  assumes "adj4 p (r, c)"
  shows "p = (r, Suc c) \<or> p = (r, c - 1) \<or> p = (Suc r, c) \<or> p = (r - 1, c)"
  using assms by (cases p) (auto simp: adj4_def)

lemma unreachable_enclosed:
  assumes "s \<noteq> t" "\<And>p. adj4 p t \<Longrightarrow> \<not> openCell g p"
  shows "\<not> reachable g s t"
proof
  assume "reachable g s t"
  then obtain ps where ps: "walk g ps" "hd ps = s" "last ps = t"
    unfolding reachable_def by blast
  then have ne: "ps \<noteq> []" by (simp add: walk_def)
  then obtain qs where qs: "ps = qs @ [t]" using ps(3) by (metis append_butlast_last_id)
  with ps(2) assms(1) have "qs \<noteq> []" by auto
  with ps(1) qs have "adj4 (last qs) t" "openCell g (last qs)"
    by (simp_all add: walk_def successively_append_iff list_all_iff)
  with assms(2) show False by blast
qed

section \<open>Dijkstra finalizes in the order of the distances\<close>

lemma bfsInvD:
  assumes "bfsInv g0 s e g u v"
  shows bfsInv_parity: "(\<forall>q d. inb g0 q \<and> distance (nodeAt g q) = enat d \<longrightarrow> even (d + fst q + snd q + fst s + snd s))"
    and bfsInv_behind: "(\<forall>a\<in>set v. \<forall>b\<in>set u. \<not> isWall (nodeAt g b) \<longrightarrow> distance (nodeAt g a) \<le> distance (nodeAt g b))"
    and bfsInv_edge: "(\<forall>a\<in>set v. a \<noteq> e \<longrightarrow> (\<forall>q. inb g0 q \<and> adj4 a q \<and> \<not> isWall (nodeAt g q) \<longrightarrow> distance (nodeAt g q) \<le> distance (nodeAt g a) + 1))"
    and bfsInv_sorted: "sorted (map (\<lambda>p. distance (nodeAt g p)) v)"
  using assms unfolding bfsInv_def by blast+

lemma bfsInvI:
  assumes "(\<forall>q d. inb g0 q \<and> distance (nodeAt g q) = enat d \<longrightarrow> even (d + fst q + snd q + fst s + snd s))"
    and "(\<forall>a\<in>set v. \<forall>b\<in>set u. \<not> isWall (nodeAt g b) \<longrightarrow> distance (nodeAt g a) \<le> distance (nodeAt g b))"
    and "(\<forall>a\<in>set v. a \<noteq> e \<longrightarrow> (\<forall>q. inb g0 q \<and> adj4 a q \<and> \<not> isWall (nodeAt g q) \<longrightarrow> distance (nodeAt g q) \<le> distance (nodeAt g a) + 1))"
    and "sorted (map (\<lambda>p. distance (nodeAt g p)) v)"
  shows "bfsInv g0 s e g u v"
  unfolding bfsInv_def
  apply (insert assms)
  apply (intro conjI)
  apply assumption+
  done

lemma adj4_parity:
  assumes "adj4 p q"
  shows "even (fst p + snd p) \<noteq> even (fst q + snd q)"
  using assms by (auto simp: adj4_def)

lemma bfsInv_initial:
  assumes s: "inb g s"
    and fields: "\<And>p. inb g p \<Longrightarrow> distance (nodeAt g' p) = (if p = s then 0 else \<infinity>)"
  shows "bfsInv g s e g' u []"
proof (rule bfsInvI)
  show "\<forall>q d. inb g q \<and> distance (nodeAt g' q) = enat d \<longrightarrow>
          even (d + fst q + snd q + fst s + snd s)"
  proof (intro allI impI)
    fix q d
    assume a: "inb g q \<and> distance (nodeAt g' q) = enat d"
    with fields [of q] have "q = s" "d = 0"
      by (auto split: if_splits simp: zero_enat_def)
    then show "even (d + fst q + snd q + fst s + snd s)" by auto
  qed
qed simp_all

lemma bfsInv_wall:
  assumes "bfsInv g0 s e g u v" "set u = insert c (set rest)"
  shows "bfsInv g0 s e g rest v"
  by (rule bfsInvI) (use assms bfsInvD [OF assms(1)] in auto)

lemma bfsInv_found:
  assumes inv: "searchInv g0 s e g u v" and b: "bfsInv g0 s e g u v"
    and u: "set u = insert c (set rest)"
    and least: "\<forall>x\<in>set u. distance (nodeAt g c) \<le> distance (nodeAt g x)"
    and c: "\<not> isWall (nodeAt g c)" "c = e"
  shows "bfsInv g0 s e (markVisited g c) rest (v @ [c])"
proof (rule bfsInvI)
  let ?g = "markVisited g c"
  have cu: "c \<in> set u" using u by simp
  show "\<forall>q d. inb g0 q \<and> distance (nodeAt ?g q) = enat d \<longrightarrow>
          even (d + fst q + snd q + fst s + snd s)"
    using bfsInv_parity [OF b] by simp
  show "\<forall>a\<in>set (v @ [c]). \<forall>b\<in>set rest. \<not> isWall (nodeAt ?g b) \<longrightarrow>
          distance (nodeAt ?g a) \<le> distance (nodeAt ?g b)"
    using bfsInv_behind [OF b] least u by auto
  show "\<forall>a\<in>set (v @ [c]). a \<noteq> e \<longrightarrow>
          (\<forall>q. inb g0 q \<and> adj4 a q \<and> \<not> isWall (nodeAt ?g q) \<longrightarrow>
               distance (nodeAt ?g q) \<le> distance (nodeAt ?g a) + 1)"
    using bfsInv_edge [OF b] c(2) by auto
  show "sorted (map (\<lambda>p. distance (nodeAt ?g p)) (v @ [c]))"
    using bfsInv_sorted [OF b] bfsInv_behind [OF b] cu c(1)
    by (auto simp: sorted_append)
qed

lemma bfsInv_step:
  assumes inv: "searchInv g0 s e g u v" and b: "bfsInv g0 s e g u v"
    and u: "set u = insert c (set rest)" "c \<notin> set rest \<and> distinct rest"
    and least: "\<forall>x\<in>set u. distance (nodeAt g c) \<le> distance (nodeAt g x)"
    and c: "\<not> isWall (nodeAt g c)" "distance (nodeAt g c) = enat k" "c \<noteq> e"
  shows "bfsInv g0 s e (updateUnvisitedNeighbors c (markVisited g c)) rest (v @ [c])"
proof (rule bfsInvI)
  let ?g1 = "markVisited g c"
  let ?g' = "updateUnvisitedNeighbors c ?g1"
  note gi = searchInvD(1) [OF inv] and li = searchInvD(2) [OF inv] and di = searchInvD(3) [OF inv]
  have i: "inb g q = inb g0 q" for q using gridInvD(2) [OF gi] by simp
  have cu: "c \<in> set u" using u by simp
  then have c0: "inb g0 c" using listInv_inb_u [OF li] by blast
  then have cg: "inb g c" using i by simp
  have cv: "c \<notin> set v" using listInv_disjoint [OF li] cu by auto
  have wf1: "wf_grid ?g1" using gridInvD(1) [OF gi] by simp
  have cg1: "inb ?g1 c" using cg by simp
  have vis1: "isVisited (nodeAt ?g1 q) = (q \<in> set (v @ [c]))" if "inb g0 q" for q
    using listInv_visited [OF li] that by (auto simp: isVisited_markVisited [OF cg])
  have dist': "distance (nodeAt ?g' q)
      = (if adj4 c q \<and> q \<notin> set (v @ [c]) then enat (Suc k) else distance (nodeAt g q))"
    if "inb g0 q" for q
    using that vis1 [OF that] i c(2)
    by (simp add: nodeAt_updateUnvisitedNeighbors [OF wf1 cg1] enat_plus_one)
  have wall': "isWall (nodeAt ?g' q) = isWall (nodeAt g q)" for q
    by (simp add: nodeAt_updateUnvisitedNeighbors [OF wf1 cg1])
  have vin: "inb g0 a" if "a \<in> set (v @ [c])" for a
    using that listInv_open_v [OF li] c0 by auto
  have same: "distance (nodeAt ?g' a) = distance (nodeAt g a)" if "a \<in> set (v @ [c])" for a
    using dist' [OF vin [OF that]] that by auto
  have upto: "distance (nodeAt g a) \<le> enat k" if "a \<in> set (v @ [c])" for a
  proof (cases "a = c")
    case True
    then show ?thesis using c(2) by simp
  next
    case False
    with that have "a \<in> set v" by simp
    with bfsInv_behind [OF b] cu c(1) have "distance (nodeAt g a) \<le> distance (nodeAt g c)"
      by blast
    then show ?thesis using c(2) by simp
  qed
  have cpar: "even (k + fst c + snd c + fst s + snd s)"
    using bfsInv_parity [OF b] c0 c(2) by blast
  have farther: "Suc k \<le> m"
    if q: "q \<in> set rest" "adj4 c q" "distance (nodeAt g q) = enat m" for q m
  proof -
    have qu: "q \<in> set u" using q(1) u by simp
    with least q(3) c(2) have "k \<le> m" by auto
    moreover have "inb g0 q" using listInv_inb_u [OF li] qu by blast
    with bfsInv_parity [OF b] q(3) have "even (m + fst q + snd q + fst s + snd s)" by blast
    with cpar adj4_parity [OF q(2)] have "k \<noteq> m" by auto
    ultimately show ?thesis by simp
  qed
  show "\<forall>q d. inb g0 q \<and> distance (nodeAt ?g' q) = enat d \<longrightarrow>
          even (d + fst q + snd q + fst s + snd s)"
  proof (intro allI impI)
    fix q d
    assume a: "inb g0 q \<and> distance (nodeAt ?g' q) = enat d"
    show "even (d + fst q + snd q + fst s + snd s)"
    proof (cases "adj4 c q \<and> q \<notin> set (v @ [c])")
      case True
      with a dist' [of q] have "d = Suc k" by simp
      with cpar adj4_parity [of c q] True show ?thesis by auto
    next
      case False
      with a dist' [of q] have "distance (nodeAt g q) = enat d" by auto
      with bfsInv_parity [OF b] a show ?thesis by blast
    qed
  qed
  show "\<forall>a\<in>set (v @ [c]). \<forall>b\<in>set rest. \<not> isWall (nodeAt ?g' b) \<longrightarrow>
          distance (nodeAt ?g' a) \<le> distance (nodeAt ?g' b)"
  proof (intro ballI impI)
    fix a b'
    assume a: "a \<in> set (v @ [c])" and b': "b' \<in> set rest" and o: "\<not> isWall (nodeAt ?g' b')"
    have bu: "b' \<in> set u" using b' u by simp
    then have b0: "inb g0 b'" using listInv_inb_u [OF li] by blast
    have bo: "\<not> isWall (nodeAt g b')" using o wall' by simp
    show "distance (nodeAt ?g' a) \<le> distance (nodeAt ?g' b')"
    proof (cases "adj4 c b' \<and> b' \<notin> set (v @ [c])")
      case True
      then have "distance (nodeAt ?g' b') = enat (Suc k)" using dist' [OF b0] by simp
      moreover have "distance (nodeAt g a) \<le> enat (Suc k)"
        using upto [OF a] by (meson enat_ord_simps(1) le_SucI order_trans le_refl)
      ultimately show ?thesis using same [OF a] by simp
    next
      case False
      then have eq: "distance (nodeAt ?g' b') = distance (nodeAt g b')"
        using dist' [OF b0] by auto
      have "distance (nodeAt g a) \<le> distance (nodeAt g b')"
      proof (cases "a = c")
        case True
        then show ?thesis using least bu by simp
      next
        case False
        with a have "a \<in> set v" by simp
        with bfsInv_behind [OF b] bu bo show ?thesis by blast
      qed
      with eq same [OF a] show ?thesis by simp
    qed
  qed
  show "\<forall>a\<in>set (v @ [c]). a \<noteq> e \<longrightarrow>
          (\<forall>q. inb g0 q \<and> adj4 a q \<and> \<not> isWall (nodeAt ?g' q) \<longrightarrow>
               distance (nodeAt ?g' q) \<le> distance (nodeAt ?g' a) + 1)"
  proof (intro ballI impI allI)
    fix a q
    assume a: "a \<in> set (v @ [c])" "a \<noteq> e"
      and q: "inb g0 q \<and> adj4 a q \<and> \<not> isWall (nodeAt ?g' q)"
    then have q0: "inb g0 q" and aq: "adj4 a q" and qo: "\<not> isWall (nodeAt g q)"
      using wall' by simp_all
    show "distance (nodeAt ?g' q) \<le> distance (nodeAt ?g' a) + 1"
    proof (cases "adj4 c q \<and> q \<notin> set (v @ [c])")
      case True
      then have new: "distance (nodeAt ?g' q) = enat (Suc k)" using dist' [OF q0] by simp
      show ?thesis
      proof (cases "a = c")
        case True
        then show ?thesis using new same [OF a(1)] c(2) by (simp add: enat_plus_one)
      next
        case False
        with a have av: "a \<in> set v" by simp
        with bfsInv_edge [OF b] a(2) q0 aq qo
        have old: "distance (nodeAt g q) \<le> distance (nodeAt g a) + 1" by blast
        from distInv_finite_v [OF di] av obtain j where j: "distance (nodeAt g a) = enat j"
          by auto
        with old obtain m where m: "distance (nodeAt g q) = enat m"
          by (cases "distance (nodeAt g q)") (simp_all add: enat_plus_one)
        from True have "q \<notin> set v" "q \<noteq> c" by simp_all
        with listInv_pending [OF li] q0 qo u have "q \<in> set rest" by auto
        from farther [OF this _ m] True have "Suc k \<le> m" by simp
        with m old have "enat (Suc k) \<le> distance (nodeAt g a) + 1" 
          by (metis enat_ord_simps(1) order_trans)
        then show ?thesis using new same [OF a(1)] by simp
      qed
    next
      case False
      then have eq: "distance (nodeAt ?g' q) = distance (nodeAt g q)"
        using dist' [OF q0] by auto
      have "distance (nodeAt g q) \<le> distance (nodeAt g a) + 1"
      proof (cases "a = c")
        case False
        with a have "a \<in> set v" by simp
        with bfsInv_edge [OF b] a(2) q0 aq qo show ?thesis by blast
      next
        case True
        with False aq have "q \<in> set (v @ [c])" by simp
        moreover from aq True have "q \<noteq> c" by auto
        ultimately have "q \<in> set v" by simp
        with bfsInv_behind [OF b] cu c(1)
        have "distance (nodeAt g q) \<le> distance (nodeAt g c)" by blast
        also have "\<dots> \<le> distance (nodeAt g c) + 1" by (simp add: c(2) enat_plus_one)
        finally show ?thesis using True by simp
      qed
      with eq same [OF a(1)] show ?thesis by simp
    qed
  qed
  show "sorted (map (\<lambda>p. distance (nodeAt ?g' p)) (v @ [c]))"
  proof -
    have eq: "map (\<lambda>p. distance (nodeAt ?g' p)) (v @ [c])
              = map (\<lambda>p. distance (nodeAt g p)) (v @ [c])"
      using same by (intro map_cong) simp_all
    show ?thesis
      unfolding eq using bfsInv_sorted [OF b] upto c(2) by (auto simp: sorted_append)
  qed
qed

section \<open>The path Dijkstra leaves is a shortest one\<close>

lemma dijkstraInstant_bfs:
  assumes inv: "searchInv g0 s e g u v \<and> e \<notin> set v \<and> bfsInv g0 s e g u v"
  shows "\<exists>u'. searchInv g0 s e (fst (snd (dijkstraInstant sp e g u v d))) u' (fst (dijkstraInstant sp e g u v d)) \<and>
              bfsInv g0 s e (fst (snd (dijkstraInstant sp e g u v d))) u' (fst (dijkstraInstant sp e g u v d))"
proof -
  let ?I = "\<lambda>g u v. searchInv g0 s e g u v \<and> e \<notin> set v \<and> bfsInv g0 s e g u v"
  let ?Q = "\<lambda>v g. \<exists>u'. searchInv g0 s e g u' v \<and> bfsInv g0 s e g u' v"
  have wall: "?I g rest v"
    if "?I g u v" "sortNodesByDistance g u = c # rest" "isWall (nodeAt g c)"
    for g u v c rest
  proof -
    note sk = sort_key_Cons [OF that(2) [unfolded sortNodesByDistance_def]]
    from that(1) have inv: "searchInv g0 s e g u v" and b: "bfsInv g0 s e g u v" by simp_all
    from searchInv_wall [OF inv sk(1) sk(2) [OF searchInv_distinct_u [OF inv]] that(3)]
      bfsInv_wall [OF b sk(1)] that(1)
    show ?thesis by blast
  qed
  have step: "?I (updateUnvisitedNeighbors c (markVisited g c)) rest (v @ [c])"
    if "?I g u v" "sortNodesByDistance g u = c # rest" "\<not> isWall (nodeAt g c)"
       "distance (nodeAt g c) = enat k" "c \<noteq> e"
    for g u v c rest k
  proof -
    note sk = sort_key_Cons [OF that(2) [unfolded sortNodesByDistance_def]]
    from that(1) have inv: "searchInv g0 s e g u v" and b: "bfsInv g0 s e g u v" by simp_all
    note du = sk(2) [OF searchInv_distinct_u [OF inv]]
    have "c \<in> set u" using sk(1) by simp
    then have "inb g0 c" using listInv_inb_u [OF searchInvD(2) [OF inv]] by blast
    then have cg: "inb (markVisited g c) c" using gridInvD(2) [OF searchInvD(1) [OF inv]] by simp
    have wf: "wf_grid (markVisited g c)" using gridInvD(1) [OF searchInvD(1) [OF inv]] by simp
    from searchInv_step [OF inv sk(1) du that(3,4,5) relaxedFrom_dijkstra [OF wf cg]]
      bfsInv_step [OF inv b sk(1) du sk(3) that(3,4,5)]
    show ?thesis using that(1,5) by simp
  qed
  have empty: "?Q v g" if "?I g u v" "sortNodesByDistance g u = []" for g u v
    using that(1) by blast
  have inf: "?Q v g"
    if "?I g u v" "sortNodesByDistance g u = c # rest" "\<not> isWall (nodeAt g c)"
       "distance (nodeAt g c) = \<infinity>"
    for g u v c rest
    using that(1) by blast
  have found: "?Q (v @ [c]) (markVisited g c)"
    if "?I g u v" "sortNodesByDistance g u = c # rest" "\<not> isWall (nodeAt g c)"
       "distance (nodeAt g c) = enat k" "c = e"
    for g u v c rest k
  proof -
    note sk = sort_key_Cons [OF that(2) [unfolded sortNodesByDistance_def]]
    from that(1) have inv: "searchInv g0 s e g u v" and b: "bfsInv g0 s e g u v" by simp_all
    note du = sk(2) [OF searchInv_distinct_u [OF inv]]
    from searchInv_found [OF inv sk(1) du that(3,4,5)]
      bfsInv_found [OF inv b sk(1) sk(3) that(3,5)]
    show ?thesis by blast
  qed
  show ?thesis
    by (rule dijkstraInstant_rule [where I = ?I and Q = ?Q, OF inv wall step empty inf found])
qed

lemma dijkstraAnimated_bfs:
  assumes inv: "searchInv g0 s e g u v \<and> e \<notin> set v \<and> bfsInv g0 s e g u v"
  shows "\<exists>u'. searchInv g0 s e (fst (snd (dijkstraAnimated sp e g u v d))) u' (fst (dijkstraAnimated sp e g u v d)) \<and>
              bfsInv g0 s e (fst (snd (dijkstraAnimated sp e g u v d))) u' (fst (dijkstraAnimated sp e g u v d))"
proof -
  let ?I = "\<lambda>g u v. searchInv g0 s e g u v \<and> e \<notin> set v \<and> bfsInv g0 s e g u v"
  let ?Q = "\<lambda>v g. \<exists>u'. searchInv g0 s e g u' v \<and> bfsInv g0 s e g u' v"
  have wall: "?I g rest v"
    if "?I g u v" "sortNodesByDistance g u = c # rest" "isWall (nodeAt g c)"
    for g u v c rest
  proof -
    note sk = sort_key_Cons [OF that(2) [unfolded sortNodesByDistance_def]]
    from that(1) have inv: "searchInv g0 s e g u v" and b: "bfsInv g0 s e g u v" by simp_all
    from searchInv_wall [OF inv sk(1) sk(2) [OF searchInv_distinct_u [OF inv]] that(3)]
      bfsInv_wall [OF b sk(1)] that(1)
    show ?thesis by blast
  qed
  have step: "?I (updateUnvisitedNeighbors c (markVisited g c)) rest (v @ [c])"
    if "?I g u v" "sortNodesByDistance g u = c # rest" "\<not> isWall (nodeAt g c)"
       "distance (nodeAt g c) = enat k" "c \<noteq> e"
    for g u v c rest k
  proof -
    note sk = sort_key_Cons [OF that(2) [unfolded sortNodesByDistance_def]]
    from that(1) have inv: "searchInv g0 s e g u v" and b: "bfsInv g0 s e g u v" by simp_all
    note du = sk(2) [OF searchInv_distinct_u [OF inv]]
    have "c \<in> set u" using sk(1) by simp
    then have "inb g0 c" using listInv_inb_u [OF searchInvD(2) [OF inv]] by blast
    then have cg: "inb (markVisited g c) c" using gridInvD(2) [OF searchInvD(1) [OF inv]] by simp
    have wf: "wf_grid (markVisited g c)" using gridInvD(1) [OF searchInvD(1) [OF inv]] by simp
    from searchInv_step [OF inv sk(1) du that(3,4,5) relaxedFrom_dijkstra [OF wf cg]]
      bfsInv_step [OF inv b sk(1) du sk(3) that(3,4,5)]
    show ?thesis using that(1,5) by simp
  qed
  have empty: "?Q v g" if "?I g u v" "sortNodesByDistance g u = []" for g u v
    using that(1) by blast
  have inf: "?Q v g"
    if "?I g u v" "sortNodesByDistance g u = c # rest" "\<not> isWall (nodeAt g c)"
       "distance (nodeAt g c) = \<infinity>"
    for g u v c rest
    using that(1) by blast
  have found: "?Q (v @ [c]) (markVisited g c)"
    if "?I g u v" "sortNodesByDistance g u = c # rest" "\<not> isWall (nodeAt g c)"
       "distance (nodeAt g c) = enat k" "c = e"
    for g u v c rest k
  proof -
    note sk = sort_key_Cons [OF that(2) [unfolded sortNodesByDistance_def]]
    from that(1) have inv: "searchInv g0 s e g u v" and b: "bfsInv g0 s e g u v" by simp_all
    note du = sk(2) [OF searchInv_distinct_u [OF inv]]
    from searchInv_found [OF inv sk(1) du that(3,4,5)]
      bfsInv_found [OF inv b sk(1) sk(3) that(3,5)]
    show ?thesis by blast
  qed
  show ?thesis
    by (rule dijkstraAnimated_rule [where I = ?I and Q = ?Q, OF inv wall step empty inf found])
qed

lemma dijkstra_bfs:
  assumes "wf_grid g" "inb g s"
  shows "\<exists>u'. searchInv g s e (fst (snd (dijkstra g s e speed sp doc))) u'
                 (fst (dijkstra g s e speed sp doc)) \<and>
              bfsInv g s e (fst (snd (dijkstra g s e speed sp doc))) u'
                 (fst (dijkstra g s e speed sp doc))"
proof -
  have "bfsInv g s e (dijkstraStart g s) (getAllNodes g) []"
    by (rule bfsInv_initial [OF assms(2)]) (simp add: dijkstraStart_fields)
  then have "searchInv g s e (dijkstraStart g s) (getAllNodes g) [] \<and> e \<notin> set [] \<and>
        bfsInv g s e (dijkstraStart g s) (getAllNodes g) []"
    using searchInv_dijkstraStart [OF assms] by simp
  from dijkstraInstant_bfs [OF this] dijkstraAnimated_bfs [OF this]
  show ?thesis by (simp add: dijkstra_unfold)
qed

text \<open>No walk from the start to the target is shorter than the target's distance says.\<close>

lemma bfs_lower_bound:
  assumes inv: "searchInv g0 s e g u v" and b: "bfsInv g0 s e g u v"
    and ev: "e \<in> set v" and de: "distance (nodeAt g e) = enat n"
  shows "walk g0 ps \<Longrightarrow> hd ps = s \<Longrightarrow>
         distance (nodeAt g (last ps)) \<le> enat (length ps - 1) \<or> n \<le> length ps - 1"
proof (induction ps rule: rev_induct)
  case Nil
  then show ?case by (simp add: walk_def)
next
  case (snoc q ps)
  note gi = searchInvD(1) [OF inv] and li = searchInvD(2) [OF inv] and di = searchInvD(3) [OF inv]
  show ?case
  proof (cases "ps = []")
    case True
    with snoc.prems(2) distInv_start_dist [OF di] show ?thesis by (simp add: zero_enat_def)
  next
    case False
    let ?p = "last ps"
    from snoc.prems False have w: "walk g0 ps" "hd ps = s" "adj4 ?p q" "openCell g0 q"
      by (simp_all add: walk_def successively_append_iff)
    from w(1) False have po: "openCell g0 ?p" by (simp add: walk_def list_all_iff)
    have open_in: "inb g0 x \<and> \<not> isWall (nodeAt g x)" if "openCell g0 x" for x
      using that openCell_gridInv [OF gi, of x] gridInvD(2) [OF gi]
      by (simp add: openCell_def)
    from snoc.IH [OF w(1,2)] consider
      (near) "distance (nodeAt g ?p) \<le> enat (length ps - 1)" "\<not> n \<le> length ps - 1"
      | (far) "n \<le> length ps - 1" by blast
    then show ?thesis
    proof cases
      case far
      then have "n \<le> length (ps @ [q]) - 1" by simp
      then show ?thesis by blast
    next
      case near
      then obtain m where m: "distance (nodeAt g ?p) = enat m" "m \<le> length ps - 1"
        by (cases "distance (nodeAt g ?p)") simp_all
      with near(2) have mn: "m < n" by simp
      have pv: "?p \<in> set v"
      proof (rule ccontr)
        assume "?p \<notin> set v"
        with listInv_pending [OF li] open_in [OF po] have "?p \<in> set u" by blast
        with bfsInv_behind [OF b] ev open_in [OF po]
        have "distance (nodeAt g e) \<le> distance (nodeAt g ?p)" by blast
        with de m mn show False by simp
      qed
      have "?p \<noteq> e" using de m mn by auto
      with bfsInv_edge [OF b] pv w(3) open_in [OF w(4)]
      have "distance (nodeAt g q) \<le> distance (nodeAt g ?p) + 1" by blast
      also have "\<dots> \<le> enat (length ps)"
        using m False by (cases ps) (simp_all add: enat_plus_one)
      finally show ?thesis by simp
    qed
  qed
qed

section \<open>The concrete scenario of the 5 by 5 grid\<close>

text \<open>
  C5, as the specification states it: on the 5 by 5 grid with no walls, start (0,0) and
  end (4,4), the visited order of Dijkstra has 9 nodes. It does not: the search
  finalizes every node nearer to the start than the end before it reaches the end.
\<close>

theorem C5_visited_order_counterexample:
  "length (fst (dijkstra openGrid5 (0, 0) (4, 4) ''instant'' False plainDocument)) \<noteq> 9"
  by code_simp

text \<open>
  C5, amended: on the 5 by 5 grid with no walls, start (0,0) and end (4,4), Dijkstra
  returns a visited order of 25 nodes, the whole grid, and the path reconstructed from
  the end has 9 nodes (8 edges).
\<close>

theorem C5_dijkstra_open_grid:
  "length (fst (dijkstra openGrid5 (0, 0) (4, 4) ''instant'' False plainDocument)) = 25 \<and>
   map_option length
     (getNodesInShortestPathOrder
        (fst (snd (dijkstra openGrid5 (0, 0) (4, 4) ''instant'' False plainDocument))) (4, 4))
     = Some 9"
  by code_simp

section \<open>The instant and the animated variant\<close>

text \<open>
  C7: for every grid, start and target, the instant variant and the delayed variant of
  the same engine (any other value of \<open>speed\<close>) return the same visited order and leave
  the same grid, hence the same \<open>previousNode\<close> on every node. Only the class names
  written to the document differ. The delay between two iterations changes no state.
\<close>

theorem C7_instant_animated_same:
  "fst (dijkstra g startNode endNode speed sp doc)
     = fst (dijkstra g startNode endNode ''instant'' sp doc) \<and>
   fst (snd (dijkstra g startNode endNode speed sp doc))
     = fst (snd (dijkstra g startNode endNode ''instant'' sp doc)) \<and>
   fst (astar g startNode endNode speed sp doc)
     = fst (astar g startNode endNode ''instant'' sp doc) \<and>
   fst (snd (astar g startNode endNode speed sp doc))
     = fst (snd (astar g startNode endNode ''instant'' sp doc))"
proof (cases "speed = ''instant''")
  case True
  then show ?thesis by simp
next
  case False
  then show ?thesis
    using dijkstraAnimated_same astarAnimated_same
    by (simp add: dijkstra_def astar_def Let_def)
qed

section \<open>The role invariant\<close>

text \<open>
  C9 at a failing input: \<open>randomizeNodes\<close> on the fresh 3 by 3 grid (start (0,0), end
  (2,2), no checkpoint), when the draws for the new start and the new end fall on the
  same cell. The role invariant holds before; afterwards the cell (0,1) is start and
  end at once, and the invariant is broken.
\<close>

theorem C9_randomizeNodes_two_roles:
  "roleInvariant (stGrid freshState3) \<and>
   isStart (nodeAt (stGrid (fst (randomizeNodes freshState3 sameCellDraws 0))) (0, 1)) \<and>
   isEnd (nodeAt (stGrid (fst (randomizeNodes freshState3 sameCellDraws 0))) (0, 1)) \<and>
   \<not> roleInvariant (stGrid (fst (randomizeNodes freshState3 sameCellDraws 0)))"
  by code_simp

text \<open>
  A second way to break it, by a sequence of operations: \<open>handleDrop\<close> moves the
  checkpoint flag in the grid and leaves the checkpoint position of the state behind, so
  the next removal clears the old cell and the next addition makes a second checkpoint.
\<close>

lemma checkpoint_moved_then_toggled_twice:
  "roleInvariant (stGrid (fst (toggleCheckpoint freshState3 sameCellDraws 0))) \<and>
   length (filter isCheckpoint (concat (stGrid (fst
     (toggleCheckpoint
        (fst (toggleCheckpoint
           (handleDrop
              (handleDragStart (fst (toggleCheckpoint freshState3 sameCellDraws 0))
                 (nodeAt (stGrid (fst (toggleCheckpoint freshState3 sameCellDraws 0))) (0, 1)))
              (nodeAt (stGrid (fst (toggleCheckpoint freshState3 sameCellDraws 0))) (1, 1)))
           sameCellDraws 0))
        sameCellDraws 0))))) = 2"
  by code_simp

section \<open>Unreachable targets\<close>

text \<open>
  C6: in a well-formed grid with the start and the target inside, if the target is not
  reachable from the start, then both dijkstra and astar, at any speed, return (each is
  a total function: every call ends, and no step of it raises), leave the target
  unvisited, and return a visited order that holds, once each, exactly the open cells
  reachable from the start.
\<close>

theorem C6_unreachable_target:
  assumes "wf_grid g" "inb g startNode" "inb g targetNode"
    and "\<not> reachable g startNode targetNode"
  shows "\<not> isVisited (nodeAt (fst (snd (dijkstra g startNode targetNode speed sp doc))) targetNode) \<and>
         set (fst (dijkstra g startNode targetNode speed sp doc)) = {p. reachable g startNode p} \<and>
         distinct (fst (dijkstra g startNode targetNode speed sp doc)) \<and>
         \<not> isVisited (nodeAt (fst (snd (astar g startNode targetNode speed sp doc))) targetNode) \<and>
         set (fst (astar g startNode targetNode speed sp doc)) = {p. reachable g startNode p} \<and>
         distinct (fst (astar g startNode targetNode speed sp doc))"
  using done_unreachable [OF dijkstra_done [OF assms(1,2)] assms(3,4)]
    done_unreachable [OF astar_done [OF assms(1,2)] assms(3,4)]
  by blast

theorem C6_unreachable_target_witness:
  "wf_grid enclosedGrid3 \<and> inb enclosedGrid3 (0, 0) \<and> inb enclosedGrid3 (2, 2) \<and>
   \<not> reachable enclosedGrid3 (0, 0) (2, 2) \<and>
   \<not> isVisited (nodeAt (fst (snd (dijkstra enclosedGrid3 (0, 0) (2, 2) ''instant'' False plainDocument))) (2, 2)) \<and>
   set (fst (dijkstra enclosedGrid3 (0, 0) (2, 2) ''instant'' False plainDocument))
     = {p. reachable enclosedGrid3 (0, 0) p} \<and>
   set (fst (astar enclosedGrid3 (0, 0) (2, 2) ''instant'' False plainDocument))
     = {p. reachable enclosedGrid3 (0, 0) p}"
proof -
  have h1: "wf_grid enclosedGrid3" by code_simp
  have h2: "inb enclosedGrid3 (0, 0)" by code_simp
  have h3: "inb enclosedGrid3 (2, 2)" by code_simp
  have closed: "\<not> openCell enclosedGrid3 (2, Suc 2)" "\<not> openCell enclosedGrid3 (2, 2 - 1)"
    "\<not> openCell enclosedGrid3 (Suc 2, 2)" "\<not> openCell enclosedGrid3 (2 - 1, 2)"
    by code_simp+
  have h4: "\<not> reachable enclosedGrid3 (0, 0) (2, 2)"
  proof (rule unreachable_enclosed)
    show "(0, 0) \<noteq> ((2, 2) :: pos)" by simp
    fix p :: pos
    assume "adj4 p (2, 2)"
    from adj4_cases [OF this] closed show "\<not> openCell enclosedGrid3 p" by auto
  qed
  from C6_unreachable_target [OF h1 h2 h3 h4, of "''instant''" False plainDocument] h1 h2 h3 h4
  show ?thesis by blast
qed

section \<open>Path reconstruction\<close>

text \<open>
  C8: after a search of either engine on a well-formed grid, with the start and the
  target inside, if the target was reached (its \<open>isVisited\<close> is true), then
  \<open>getNodesInShortestPathOrder\<close> returns a sequence that begins with the start, ends
  with the target, and is a walk: every node of it is inside the grid and no wall, and
  every two consecutive nodes are 4-adjacent. The sequence has a single node only if
  the target's \<open>previousNode\<close> is null.
\<close>

theorem C8_reconstructed_path:
  assumes "wf_grid g" "inb g startNode" "inb g targetNode"
  shows "(isVisited (nodeAt (fst (snd (dijkstra g startNode targetNode speed sp doc))) targetNode) \<longrightarrow>
          (\<exists>path. getNodesInShortestPathOrder
                    (fst (snd (dijkstra g startNode targetNode speed sp doc))) targetNode = Some path \<and>
                  hd path = startNode \<and> last path = targetNode \<and>
                  walk (fst (snd (dijkstra g startNode targetNode speed sp doc))) path \<and>
                  (length path = 1 \<longrightarrow>
                     previousNode (nodeAt (fst (snd (dijkstra g startNode targetNode speed sp doc)))
                        targetNode) = None))) \<and>
         (isVisited (nodeAt (fst (snd (astar g startNode targetNode speed sp doc))) targetNode) \<longrightarrow>
          (\<exists>path. getNodesInShortestPathOrder
                    (fst (snd (astar g startNode targetNode speed sp doc))) targetNode = Some path \<and>
                  hd path = startNode \<and> last path = targetNode \<and>
                  walk (fst (snd (astar g startNode targetNode speed sp doc))) path \<and>
                  (length path = 1 \<longrightarrow>
                     previousNode (nodeAt (fst (snd (astar g startNode targetNode speed sp doc)))
                        targetNode) = None)))"
  using done_path [OF dijkstra_done [OF assms(1,2)] assms(3)]
    done_path [OF astar_done [OF assms(1,2)] assms(3)]
  by blast

theorem C8_reconstructed_path_witness:
  "wf_grid wallGrid3 \<and> inb wallGrid3 (0, 0) \<and> inb wallGrid3 (2, 2) \<and>
   isVisited (nodeAt (fst (snd (dijkstra wallGrid3 (0, 0) (2, 2) ''instant'' False plainDocument))) (2, 2)) \<and>
   isVisited (nodeAt (fst (snd (astar wallGrid3 (0, 0) (2, 2) ''instant'' False plainDocument))) (2, 2)) \<and>
   (\<exists>path. getNodesInShortestPathOrder
             (fst (snd (dijkstra wallGrid3 (0, 0) (2, 2) ''instant'' False plainDocument))) (2, 2) = Some path \<and>
           hd path = (0, 0) \<and> last path = (2, 2) \<and>
           walk (fst (snd (dijkstra wallGrid3 (0, 0) (2, 2) ''instant'' False plainDocument))) path) \<and>
   (\<exists>path. getNodesInShortestPathOrder
             (fst (snd (astar wallGrid3 (0, 0) (2, 2) ''instant'' False plainDocument))) (2, 2) = Some path \<and>
           hd path = (0, 0) \<and> last path = (2, 2) \<and>
           walk (fst (snd (astar wallGrid3 (0, 0) (2, 2) ''instant'' False plainDocument))) path)"
proof -
  have h1: "wf_grid wallGrid3" by code_simp
  have h2: "inb wallGrid3 (0, 0)" by code_simp
  have h3: "inb wallGrid3 (2, 2)" by code_simp
  have h4: "isVisited (nodeAt (fst (snd (dijkstra wallGrid3 (0, 0) (2, 2) ''instant'' False plainDocument))) (2, 2))"
    by code_simp
  have h5: "isVisited (nodeAt (fst (snd (astar wallGrid3 (0, 0) (2, 2) ''instant'' False plainDocument))) (2, 2))"
    by code_simp
  from C8_reconstructed_path [OF h1 h2 h3, of "''instant''" False plainDocument] h1 h2 h3 h4 h5
  show ?thesis by blast
qed

section \<open>Walls during a search\<close>

text \<open>
  C10: in a well-formed grid with the start inside, let \<open>w\<close> be a wall. Neither engine
  ever finalizes \<open>w\<close>: after the search its \<open>isVisited\<close> is false and it is not in the
  visited order. But relaxation does not leave walls out: the step of Dijkstra at a
  neighbour \<open>nd\<close> assigns the unvisited \<open>w\<close> a distance and \<open>previousNode = nd\<close>, the
  step of A* does so (with the total distance) when the new distance is smaller, and
  after a search a wall next to a finalized node other than the target has a distance
  and a \<open>previousNode\<close>, where the reset had left \<open>Infinity\<close> and null.
\<close>

theorem C10_walls_in_search:
  assumes "wf_grid g" "inb g startNode" "inb g w" "isWall (nodeAt g w)"
  shows "\<not> isVisited (nodeAt (fst (snd (dijkstra g startNode targetNode speed sp doc))) w) \<and>
         w \<notin> set (fst (dijkstra g startNode targetNode speed sp doc)) \<and>
         \<not> isVisited (nodeAt (fst (snd (astar g startNode targetNode speed sp doc))) w) \<and>
         w \<notin> set (fst (astar g startNode targetNode speed sp doc)) \<and>
         (\<forall>a\<in>set (fst (dijkstra g startNode targetNode speed sp doc)).
            a \<noteq> targetNode \<and> adj4 a w \<longrightarrow>
            distance (nodeAt (fst (snd (dijkstra g startNode targetNode speed sp doc))) w) \<noteq> \<infinity> \<and>
            previousNode (nodeAt (fst (snd (dijkstra g startNode targetNode speed sp doc))) w) \<noteq> None) \<and>
         (\<forall>a\<in>set (fst (astar g startNode targetNode speed sp doc)).
            a \<noteq> targetNode \<and> adj4 a w \<longrightarrow>
            distance (nodeAt (fst (snd (astar g startNode targetNode speed sp doc))) w) \<noteq> \<infinity> \<and>
            previousNode (nodeAt (fst (snd (astar g startNode targetNode speed sp doc))) w) \<noteq> None) \<and>
         (inb g nd \<and> adj4 nd w \<and> \<not> isVisited (nodeAt g w) \<longrightarrow>
            nodeAt (updateUnvisitedNeighbors nd g) w
              = (nodeAt g w)\<lparr>distance := distance (nodeAt g nd) + 1, previousNode := Some nd\<rparr>) \<and>
         (inb g nd \<and> adj4 nd w \<and> \<not> isVisited (nodeAt g w) \<and>
          distance (nodeAt g nd) + 1 < distance (nodeAt g w) \<longrightarrow>
            nodeAt (updateUnvisitedNeighborsAstar nd g fin) w
              = (nodeAt g w)\<lparr>previousNode := Some nd, distance := distance (nodeAt g nd) + 1,
                   totalDistance := distance (nodeAt g nd) + 1
                      + enat (manhattanDistance (nodeAt g w) (nodeAt g fin))\<rparr>)"
proof -
  have "inb g nd \<and> adj4 nd w \<and> \<not> isVisited (nodeAt g w) \<longrightarrow>
            nodeAt (updateUnvisitedNeighbors nd g) w
              = (nodeAt g w)\<lparr>distance := distance (nodeAt g nd) + 1, previousNode := Some nd\<rparr>"
    using assms(1,3) by (simp add: nodeAt_updateUnvisitedNeighbors)
  moreover
  have "inb g nd \<and> adj4 nd w \<and> \<not> isVisited (nodeAt g w) \<and>
          distance (nodeAt g nd) + 1 < distance (nodeAt g w) \<longrightarrow>
            nodeAt (updateUnvisitedNeighborsAstar nd g fin) w
              = (nodeAt g w)\<lparr>previousNode := Some nd, distance := distance (nodeAt g nd) + 1,
                   totalDistance := distance (nodeAt g nd) + 1
                      + enat (manhattanDistance (nodeAt g w) (nodeAt g fin))\<rparr>"
    using assms(1,3) by (simp add: nodeAt_updateUnvisitedNeighborsAstar)
  ultimately show ?thesis
    using done_walls [OF dijkstra_done [OF assms(1,2)] assms(3,4)]
      done_walls [OF astar_done [OF assms(1,2)] assms(3,4)]
    by blast
qed

theorem C10_walls_in_search_witness:
  "wf_grid wallGrid3 \<and> inb wallGrid3 (0, 0) \<and> inb wallGrid3 (1, 1) \<and>
   isWall (nodeAt wallGrid3 (1, 1)) \<and>
   \<not> isVisited (nodeAt (fst (snd (dijkstra wallGrid3 (0, 0) (2, 2) ''instant'' False plainDocument))) (1, 1)) \<and>
   (1, 1) \<notin> set (fst (dijkstra wallGrid3 (0, 0) (2, 2) ''instant'' False plainDocument)) \<and>
   (0, 1) \<in> set (fst (dijkstra wallGrid3 (0, 0) (2, 2) ''instant'' False plainDocument)) \<and>
   adj4 (0, 1) (1, 1) \<and>
   distance (nodeAt (fst (snd (dijkstra wallGrid3 (0, 0) (2, 2) ''instant'' False plainDocument))) (1, 1)) \<noteq> \<infinity> \<and>
   previousNode (nodeAt (fst (snd (dijkstra wallGrid3 (0, 0) (2, 2) ''instant'' False plainDocument))) (1, 1)) \<noteq> None"
proof -
  have h1: "wf_grid wallGrid3" by code_simp
  have h2: "inb wallGrid3 (0, 0)" by code_simp
  have h3: "inb wallGrid3 (1, 1)" by code_simp
  have h4: "isWall (nodeAt wallGrid3 (1, 1))" by code_simp
  have a: "(0, 1) \<in> set (fst (dijkstra wallGrid3 (0, 0) (2, 2) ''instant'' False plainDocument))"
    by code_simp
  have b: "adj4 (0, 1) (1, 1)" "(0, 1) \<noteq> ((2, 2) :: pos)" by (simp_all add: adj4_def)
  from C10_walls_in_search [OF h1 h2 h3 h4, of "(2, 2)" "''instant''" False plainDocument] a b
    h1 h2 h3 h4
  show ?thesis by blast
qed

section \<open>Dijkstra\<close>

text \<open>
  C1: in a well-formed grid with the start inside, if the target is reachable from the
  start through open 4-connected cells, then after dijkstra, at any speed, following
  \<open>previousNode\<close> from the target ends at the start, and the sequence from the start
  to the target is a walk of the grid that no walk from the start to the target is
  shorter than. The returned list is the finalize order: it holds exactly the nodes
  marked visited, each once, in order of their distances, the target last; and all of
  them are reachable open cells.
\<close>

theorem C1_dijkstra_shortest_path:
  assumes "wf_grid g" "inb g startNode" "reachable g startNode targetNode"
  shows "(\<exists>path. getNodesInShortestPathOrder
                   (fst (snd (dijkstra g startNode targetNode speed sp doc))) targetNode = Some path \<and>
                 hd path = startNode \<and> last path = targetNode \<and> walk g path \<and>
                 (\<forall>ps. walk g ps \<and> hd ps = startNode \<and> last ps = targetNode \<longrightarrow>
                       length path \<le> length ps)) \<and>
         distinct (fst (dijkstra g startNode targetNode speed sp doc)) \<and>
         (\<forall>p. inb g p \<longrightarrow>
              isVisited (nodeAt (fst (snd (dijkstra g startNode targetNode speed sp doc))) p)
                = (p \<in> set (fst (dijkstra g startNode targetNode speed sp doc)))) \<and>
         sorted (map (\<lambda>p. distance (nodeAt (fst (snd (dijkstra g startNode targetNode speed sp doc))) p))
                   (fst (dijkstra g startNode targetNode speed sp doc))) \<and>
         last (fst (dijkstra g startNode targetNode speed sp doc)) = targetNode \<and>
         set (fst (dijkstra g startNode targetNode speed sp doc)) \<subseteq> {p. reachable g startNode p}"
proof -
  let ?G = "fst (snd (dijkstra g startNode targetNode speed sp doc))"
  let ?V = "fst (dijkstra g startNode targetNode speed sp doc)"
  from dijkstra_bfs [OF assms(1,2), of targetNode speed sp doc] obtain u where
    inv: "searchInv g startNode targetNode ?G u ?V" and b: "bfsInv g startNode targetNode ?G u ?V"
    by blast
  note gi = searchInvD(1) [OF inv] and li = searchInvD(2) [OF inv] and di = searchInvD(3) [OF inv]
  note fin = dijkstra_done [OF assms(1,2), of targetNode speed sp doc]
  have ev: "targetNode \<in> set ?V"
  proof (rule ccontr)
    assume "targetNode \<notin> set ?V"
    from reachable_visited [OF fin this assms(3)] this show False by simp
  qed
  then have last: "last ?V = targetNode" using fin unfolding searchDone_def by blast
  from distInv_finite_v [OF di] ev obtain n where n: "distance (nodeAt ?G targetNode) = enat n"
    by auto
  from shortestPathLoop_visited [OF gi li di ev n, of "[]"] obtain path where
    path: "shortestPathLoop ?G (Some targetNode) [] = Some path" "hd path = startNode"
      "last path = targetNode" "walk ?G path" "length path = Suc n"
    by auto
  have "walk ?G path = walk g path"
    by (rule walk_same_cells) (rule openCell_gridInv [OF gi])
  with path(4) have wp: "walk g path" by simp
  have short: "length path \<le> length ps"
    if "walk g ps \<and> hd ps = startNode \<and> last ps = targetNode" for ps
  proof -
    from that have ps: "walk g ps" "hd ps = startNode" "last ps = targetNode" by simp_all
    from bfs_lower_bound [OF inv b ev n ps(1,2)] ps(3) n
    have "n \<le> length ps - 1" by auto
    moreover from ps(1) have "ps \<noteq> []" by (simp add: walk_def)
    ultimately show ?thesis using path(5) by (cases ps) simp_all
  qed
  have "\<exists>path. getNodesInShortestPathOrder ?G targetNode = Some path \<and>
          hd path = startNode \<and> last path = targetNode \<and> walk g path \<and>
          (\<forall>ps. walk g ps \<and> hd ps = startNode \<and> last ps = targetNode \<longrightarrow>
                length path \<le> length ps)"
    using path(1,2,3) wp short unfolding getNodesInShortestPathOrder_def by blast
  moreover have "distinct ?V" using li by (rule listInvD)
  moreover have "\<forall>p. inb g p \<longrightarrow> isVisited (nodeAt ?G p) = (p \<in> set ?V)"
    using li by (rule listInvD)
  moreover have "sorted (map (\<lambda>p. distance (nodeAt ?G p)) ?V)" using b by (rule bfsInvD)
  moreover have "set ?V \<subseteq> {p. reachable g startNode p}"
    using visited_reachable [OF inv] by blast
  ultimately show ?thesis using last by blast
qed

theorem C1_dijkstra_shortest_path_witness:
  "wf_grid wallGrid3 \<and> inb wallGrid3 (0, 0) \<and> reachable wallGrid3 (0, 0) (2, 2) \<and>
   (\<exists>path. getNodesInShortestPathOrder
             (fst (snd (dijkstra wallGrid3 (0, 0) (2, 2) ''instant'' False plainDocument))) (2, 2)
               = Some path \<and>
           hd path = (0, 0) \<and> last path = (2, 2) \<and> walk wallGrid3 path \<and> length path \<le> 5) \<and>
   last (fst (dijkstra wallGrid3 (0, 0) (2, 2) ''instant'' False plainDocument)) = (2, 2)"
proof -
  have h1: "wf_grid wallGrid3" by code_simp
  have h2: "inb wallGrid3 (0, 0)" by code_simp
  have w: "walk wallGrid3 [(0, 0), (0, 1), (0, 2), (1, 2), (2, 2)]" by code_simp
  then have h3: "reachable wallGrid3 (0, 0) (2, 2)"
    unfolding reachable_def by (intro exI [of _ "[(0, 0), (0, 1), (0, 2), (1, 2), (2, 2)]"]) simp
  from C1_dijkstra_shortest_path [OF h1 h2 h3, of "''instant''" False plainDocument]
  obtain path where
    p: "getNodesInShortestPathOrder
          (fst (snd (dijkstra wallGrid3 (0, 0) (2, 2) ''instant'' False plainDocument))) (2, 2)
            = Some path"
       "hd path = (0, 0)" "last path = (2, 2)" "walk wallGrid3 path"
       "\<forall>ps. walk wallGrid3 ps \<and> hd ps = (0, 0) \<and> last ps = (2, 2) \<longrightarrow> length path \<le> length ps"
    and l: "last (fst (dijkstra wallGrid3 (0, 0) (2, 2) ''instant'' False plainDocument)) = (2, 2)"
    by blast
  from p(5) w have "length path \<le> 5" by fastforce
  with p(1-4) l h1 h2 h3 show ?thesis by blast
qed

section \<open>Loops over a list\<close>

lemma forEach_invariant:
  assumes "forEach xs body s = Some s'" and "I s"
    and "\<And>x u u'. x \<in> set xs \<Longrightarrow> I u \<Longrightarrow> body x u = Some u' \<Longrightarrow> I u'"
  shows "I s'"
  using assms
proof (induction xs arbitrary: s)
  case Nil
  then show ?case by simp
next
  case (Cons x xs)
  from Cons.prems(1) obtain t where t: "body x s = Some t" "forEach xs body t = Some s'"
    by (auto split: option.splits)
  from Cons.prems(3) [OF _ Cons.prems(2) t(1)] have It: "I t" by simp
  show ?case
  proof (rule Cons.IH [OF t(2) It])
    fix y u u'
    assume "y \<in> set xs" "I u" "body y u = Some u'"
    then show "I u'" using Cons.prems(3) [of y u u'] by simp
  qed
qed

text \<open>
  A loop whose body establishes \<open>Q x\<close> for its own \<open>x\<close>, and keeps every \<open>Q y\<close> that
  holds, ends with \<open>Q\<close> for every element of the list.
\<close>

lemma forEach_establishes:
  assumes "forEach xs body s = Some s'" and "I s"
    and step: "\<And>x u u'. x \<in> set xs \<Longrightarrow> I u \<Longrightarrow> body x u = Some u' \<Longrightarrow> I u' \<and> Q x u'"
    and keep: "\<And>x y u u'. I u \<Longrightarrow> body y u = Some u' \<Longrightarrow> Q x u \<Longrightarrow> Q x u'"
  shows "I s' \<and> (\<forall>x\<in>set xs. Q x s')"
  using assms(1,2) step
proof (induction xs arbitrary: s)
  case Nil
  then show ?case by simp
next
  case (Cons x xs)
  from Cons.prems(1) obtain t where t: "body x s = Some t" "forEach xs body t = Some s'"
    by (auto split: option.splits)
  from Cons.prems(3) [OF _ Cons.prems(2) t(1)] have It: "I t" and Qt: "Q x t" by simp_all
  have rest: "I s' \<and> (\<forall>y\<in>set xs. Q y s')"
  proof (rule Cons.IH [OF t(2) It])
    fix y u u'
    assume "y \<in> set xs" "I u" "body y u = Some u'"
    then show "I u' \<and> Q y u'" using Cons.prems(3) [of y u u'] by simp
  qed
  have "I s' \<and> Q x s'"
  proof (rule forEach_invariant [where I = "\<lambda>u. I u \<and> Q x u", OF t(2)])
    show "I t \<and> Q x t" using It Qt by simp
    fix y u u'
    assume "y \<in> set xs" "I u \<and> Q x u" "body y u = Some u'"
    then show "I u' \<and> Q x u'"
      using Cons.prems(3) [of y u u'] keep [of u y u' x] by simp
  qed
  with rest show ?case by simp
qed

section \<open>The frame of the writes\<close>

lemma frame_refl: "frame sp b b"
  by (simp add: frame_def)

lemma frame_trans:
  assumes "frame sp a b" "frame sp b c" "sp b = sp a"
  shows "frame sp a c"
  using assms by (simp add: frame_def)

lemma isSpecialNode_frame: "frame sp a b \<Longrightarrow> isSpecialNode b = isSpecialNode a"
  by (rule ext) (simp add: frame_def isSpecialNode_def)

lemma isSpecialNodeStair_frame: "frame sp a b \<Longrightarrow> isSpecialNodeStair b = isSpecialNodeStair a"
  by (rule ext) (simp add: frame_def isSpecialNodeStair_def)

lemma notSpecial_iff: "notSpecial b c = (\<not> isSpecialNode b c)"
  by (simp add: notSpecial_def isSpecialNode_def split: option.splits)

lemma inBoard_frame: "frame sp a b \<Longrightarrow> inBoard b = inBoard a"
  by (rule ext) (simp add: frame_def inBoard_def)

lemma frame_setStatus: "setStatus b c s = Some b' \<Longrightarrow> \<not> sp b c \<Longrightarrow> frame sp b b'"
  by (auto simp: setStatus_def frame_def split: option.splits)

lemma frame_setWeight: "setWeight b c w = Some b' \<Longrightarrow> \<not> sp b c \<Longrightarrow> frame sp b b'"
  by (auto simp: setWeight_def frame_def split: option.splits)

lemma frame_pushWall:
  "(case entryId entry of None \<Rightarrow> True | Some c \<Rightarrow> \<not> sp b c) \<Longrightarrow> frame sp b (pushWall b entry)"
  by (simp add: pushWall_def frame_def placementsOn_def split: option.splits)

lemma placementsOn_removeWall:
  "removeWall ws c = Some ws' \<Longrightarrow> \<not> special c \<Longrightarrow> placementsOn special ws' = placementsOn special ws"
proof (induction ws c arbitrary: ws' rule: removeWall.induct)
  case (1 c)
  then show ?case by simp
next
  case (2 c' ty ws c)
  then show ?case by (auto simp: placementsOn_def split: if_splits)
next
  case (3 c' ws c)
  then show ?case by (auto simp: placementsOn_def split: if_splits)
next
  case (4 ws c)
  then show ?case by simp
qed

lemma frame_spliceWall: "spliceWall c b = Some b' \<Longrightarrow> \<not> sp b c \<Longrightarrow> frame sp b b'"
  by (auto simp: spliceWall_def frame_def placementsOn_removeWall)

lemma sp_pushWall:
  "isSpecialNode (pushWall b entry) = isSpecialNode b"
  "isSpecialNodeStair (pushWall b entry) = isSpecialNodeStair b"
  by (rule ext, simp add: pushWall_def isSpecialNode_def isSpecialNodeStair_def)+

lemma frame_placeWall:
  assumes "placeWall ty c b = Some b'" "\<not> isSpecialNode b c"
  shows "frame isSpecialNode b b'"
proof -
  from assms(1) obtain b1 where
    b1: "setStatus (pushWall b (WallEntry c (Some ty))) c
           (if ty = ''wall'' then ''wall'' else ''unvisited'') = Some b1"
    and b': "setWeight b1 c (if ty = ''wall'' then 0 else 15) = Some b'"
    by (auto simp: placeWall_def split: option.splits)
  have f0: "frame isSpecialNode b (pushWall b (WallEntry c (Some ty)))"
    by (rule frame_pushWall) (simp add: assms(2))
  have f1: "frame isSpecialNode (pushWall b (WallEntry c (Some ty))) b1"
    using frame_setStatus [OF b1] assms(2) by (simp add: sp_pushWall)
  have f01: "frame isSpecialNode b b1"
    using frame_trans [OF f0 f1] by (simp add: sp_pushWall)
  have "frame isSpecialNode b1 b'"
    using frame_setWeight [OF b'] assms(2) isSpecialNode_frame [OF f01] by simp
  from frame_trans [OF f01 this] isSpecialNode_frame [OF f01] show ?thesis by simp
qed

lemma frame_randomWall:
  assumes "randomWall c b = Some b'" "\<not> isSpecialNode b c"
  shows "frame isSpecialNode b b'"
proof -
  from assms(1) obtain b1 where b1: "setStatus b c ''wall'' = Some b1"
    and b': "b' = pushWall b1 (WallEntry c None)"
    by (auto simp: randomWall_def split: option.splits)
  have f1: "frame isSpecialNode b b1" using frame_setStatus [OF b1] assms(2) by simp
  have "frame isSpecialNode b1 b'" unfolding b'
    by (rule frame_pushWall) (simp add: assms(2) isSpecialNode_frame [OF f1])
  from frame_trans [OF f1 this] isSpecialNode_frame [OF f1] show ?thesis by simp
qed

lemma frame_stairWall:
  assumes "stairWall c b = Some b'"
  shows "frame isSpecialNodeStair b b'"
proof (cases "isSpecialNodeStair b c")
  case True
  with assms show ?thesis by (simp add: stairWall_def frame_refl)
next
  case False
  with assms obtain b1 where b1: "setStatus b c ''wall'' = Some b1"
    and b': "b' = pushWall b1 (WallEntry c (Some ''wall''))"
    by (auto simp: stairWall_def split: option.splits)
  have f1: "frame isSpecialNodeStair b b1" using frame_setStatus [OF b1] False by simp
  have "frame isSpecialNodeStair b1 b'" unfolding b'
    by (rule frame_pushWall) (simp add: False isSpecialNodeStair_frame [OF f1])
  from frame_trans [OF f1 this] isSpecialNodeStair_frame [OF f1] show ?thesis by simp
qed

text \<open>A loop of writes that each keep the special nodes keeps them.\<close>

lemma forEach_frame:
  assumes "forEach xs body s = Some s'"
    and "\<And>x u u'. body x u = Some u' \<Longrightarrow> frame isSpecialNode (f u) (f u')"
  shows "frame isSpecialNode (f s) (f s')"
proof -
  show ?thesis
  proof (rule forEach_invariant [where I = "\<lambda>u. frame isSpecialNode (f s) (f u)", OF assms(1)])
    show "frame isSpecialNode (f s) (f s)" by (rule frame_refl)
    fix x u u'
    assume a: "frame isSpecialNode (f s) (f u)" "body x u = Some u'"
    from frame_trans [OF a(1) assms(2) [OF a(2)]] isSpecialNode_frame [OF a(1)]
    show "frame isSpecialNode (f s) (f u')" by simp
  qed
qed

lemma forEach_frameStair:
  assumes "forEach xs body s = Some s'"
    and "\<And>x u u'. body x u = Some u' \<Longrightarrow> frame isSpecialNodeStair u u'"
  shows "frame isSpecialNodeStair s s'"
proof -
  show ?thesis
  proof (rule forEach_invariant [where I = "\<lambda>u. frame isSpecialNodeStair s u", OF assms(1)])
    show "frame isSpecialNodeStair s s" by (rule frame_refl)
    fix x u u'
    assume a: "frame isSpecialNodeStair s u" "body x u = Some u'"
    from frame_trans [OF a(1) assms(2) [OF a(2)]] isSpecialNodeStair_frame [OF a(1)]
    show "frame isSpecialNodeStair s u'" by simp
  qed
qed

section \<open>Recursive division, step by step\<close>

lemma everySecond_nonempty: "\<not> b < a \<Longrightarrow> everySecond a b \<noteq> []"
proof -
  assume "\<not> b < a"
  then have "0 < nat ((b - a) div 2 + 1)" by simp
  with \<open>\<not> b < a\<close> show ?thesis by (simp add: everySecond_def)
qed

lemma everySecond_nth:
  assumes "\<not> (i < 0 \<or> int (length (everySecond a b)) \<le> i)"
  shows "a \<le> everySecond a b ! nat i \<and> everySecond a b ! nat i \<le> b \<and>
         even (everySecond a b ! nat i - a)"
proof -
  from assms have i: "nat i < length (everySecond a b)" by auto
  then have ab: "\<not> b < a" by (auto simp: everySecond_def split: if_splits)
  with i have n: "nat i < nat ((b - a) div 2 + 1)" by (simp add: everySecond_def)
  then have "everySecond a b ! nat i = a + 2 * int (nat i)"
    using ab by (simp add: everySecond_def)
  moreover from n have "2 * int (nat i) \<le> b - a" by linarith
  ultimately show ?thesis by simp
qed

text \<open>The two ways a call on a region that is not empty can end with a result.\<close>

lemma generateRecursiveMaze_horizontal_eq:
  assumes "\<not> (rowEnd < rowStart \<or> colEnd < colStart)"
  shows "generateRecursiveMaze rnd ty bk rowStart rowEnd colStart colEnd ''horizontal'' surrounding =
     (case (if \<not> surrounding then surroundingWalls ty (fst bk) else Some (fst bk)) of
        None \<Rightarrow> None
      | Some b1 \<Rightarrow>
          if \<lfloor>rnd (snd bk) * real (length (everySecond rowStart rowEnd))\<rfloor> < 0 \<or>
             int (length (everySecond rowStart rowEnd))
               \<le> \<lfloor>rnd (snd bk) * real (length (everySecond rowStart rowEnd))\<rfloor>
          then None
          else
            case forEach [colStart..colEnd]
                   (\<lambda>c b. if c \<noteq> \<lfloor>rnd (snd bk + 1) * real_of_int (colEnd - colStart + 1)\<rfloor> + colStart \<and>
                             notSpecial b (everySecond rowStart rowEnd
                               ! nat \<lfloor>rnd (snd bk) * real (length (everySecond rowStart rowEnd))\<rfloor>, c)
                          then placeWall ty (everySecond rowStart rowEnd
                               ! nat \<lfloor>rnd (snd bk) * real (length (everySecond rowStart rowEnd))\<rfloor>, c) b
                          else Some b) b1 of
              None \<Rightarrow> None
            | Some b2 \<Rightarrow>
                (case generateRecursiveMaze rnd ty (b2, snd bk + 2) rowStart
                        (everySecond rowStart rowEnd
                           ! nat \<lfloor>rnd (snd bk) * real (length (everySecond rowStart rowEnd))\<rfloor> - 2)
                        colStart colEnd
                        (if everySecond rowStart rowEnd
                              ! nat \<lfloor>rnd (snd bk) * real (length (everySecond rowStart rowEnd))\<rfloor>
                              - 2 - rowStart > colEnd - colStart
                         then ''horizontal'' else ''vertical'') True of
                   None \<Rightarrow> None
                 | Some bk3 \<Rightarrow>
                     generateRecursiveMaze rnd ty bk3
                       (everySecond rowStart rowEnd
                          ! nat \<lfloor>rnd (snd bk) * real (length (everySecond rowStart rowEnd))\<rfloor> + 2)
                       rowEnd colStart colEnd
                       (if rowEnd - (everySecond rowStart rowEnd
                              ! nat \<lfloor>rnd (snd bk) * real (length (everySecond rowStart rowEnd))\<rfloor> + 2)
                             > colEnd - colStart
                        then ''horizontal'' else ''vertical'') True))"
proof -
  have ne: "everySecond rowStart rowEnd \<noteq> []"
    using assms by (simp add: everySecond_nonempty)
  show ?thesis
    by (subst generateRecursiveMaze.simps) (simp only: assms ne if_False if_True Let_def refl)
qed

lemma generateRecursiveMaze_vertical_eq:
  assumes "\<not> (rowEnd < rowStart \<or> colEnd < colStart)" and "orientation \<noteq> ''horizontal''"
  shows "generateRecursiveMaze rnd ty bk rowStart rowEnd colStart colEnd orientation surrounding =
     (case (if \<not> surrounding then surroundingWalls ty (fst bk) else Some (fst bk)) of
        None \<Rightarrow> None
      | Some b1 \<Rightarrow>
          if \<lfloor>rnd (snd bk) * real (length (everySecond colStart colEnd))\<rfloor> < 0 \<or>
             int (length (everySecond colStart colEnd))
               \<le> \<lfloor>rnd (snd bk) * real (length (everySecond colStart colEnd))\<rfloor>
          then None
          else
            case forEach [rowStart..rowEnd]
                   (\<lambda>r b. if r \<noteq> \<lfloor>rnd (snd bk + 1) * real_of_int (rowEnd - rowStart + 1)\<rfloor> + rowStart \<and>
                             notSpecial b (r, everySecond colStart colEnd
                               ! nat \<lfloor>rnd (snd bk) * real (length (everySecond colStart colEnd))\<rfloor>)
                          then placeWall ty (r, everySecond colStart colEnd
                               ! nat \<lfloor>rnd (snd bk) * real (length (everySecond colStart colEnd))\<rfloor>) b
                          else Some b) b1 of
              None \<Rightarrow> None
            | Some b2 \<Rightarrow>
                (case generateRecursiveMaze rnd ty (b2, snd bk + 2) rowStart rowEnd colStart
                        (everySecond colStart colEnd
                           ! nat \<lfloor>rnd (snd bk) * real (length (everySecond colStart colEnd))\<rfloor> - 2)
                        (if rowEnd - rowStart > everySecond colStart colEnd
                              ! nat \<lfloor>rnd (snd bk) * real (length (everySecond colStart colEnd))\<rfloor>
                              - 2 - colStart
                         then ''horizontal'' else orientation) True of
                   None \<Rightarrow> None
                 | Some bk3 \<Rightarrow>
                     generateRecursiveMaze rnd ty bk3 rowStart rowEnd
                       (everySecond colStart colEnd
                          ! nat \<lfloor>rnd (snd bk) * real (length (everySecond colStart colEnd))\<rfloor> + 2)
                       colEnd
                       (if rowEnd - rowStart > colEnd - (everySecond colStart colEnd
                              ! nat \<lfloor>rnd (snd bk) * real (length (everySecond colStart colEnd))\<rfloor> + 2)
                        then ''horizontal'' else orientation) True))"
proof -
  have ne: "everySecond colStart colEnd \<noteq> []"
    using assms by (simp add: everySecond_nonempty)
  show ?thesis
    by (subst generateRecursiveMaze.simps) (simp only: assms ne if_False if_True Let_def refl)
qed

text \<open>
  Induction over the calls of a run that ends with a result: an empty region, or a
  dividing line followed by the runs on the two parts.
\<close>

lemma generateRecursiveMaze_run [consumes 1, case_names empty horizontal vertical]:
  assumes run: "generateRecursiveMaze rnd ty bk rowStart rowEnd colStart colEnd orientation surrounding = Some bk'"
    and empty: "\<And>bk rowStart rowEnd colStart colEnd surrounding.
                  rowEnd < rowStart \<or> colEnd < colStart \<Longrightarrow> P bk rowStart rowEnd colStart colEnd surrounding bk"
    and horizontal: "\<And>bk rowStart rowEnd colStart colEnd surrounding b1 currentRow passage b2 bk3 bk'.
        \<not> (rowEnd < rowStart \<or> colEnd < colStart) \<Longrightarrow>
        (if \<not> surrounding then surroundingWalls ty (fst bk) else Some (fst bk)) = Some b1 \<Longrightarrow>
        rowStart \<le> currentRow \<Longrightarrow> currentRow \<le> rowEnd \<Longrightarrow> even (currentRow - rowStart) \<Longrightarrow>
        passage = \<lfloor>rnd (snd bk + 1) * real_of_int (colEnd - colStart + 1)\<rfloor> + colStart \<Longrightarrow>
        forEach [colStart..colEnd]
          (\<lambda>c b. if c \<noteq> passage \<and> notSpecial b (currentRow, c)
                 then placeWall ty (currentRow, c) b else Some b) b1 = Some b2 \<Longrightarrow>
        P (b2, snd bk + 2) rowStart (currentRow - 2) colStart colEnd True bk3 \<Longrightarrow>
        P bk3 (currentRow + 2) rowEnd colStart colEnd True bk' \<Longrightarrow>
        P bk rowStart rowEnd colStart colEnd surrounding bk'"
    and vertical: "\<And>bk rowStart rowEnd colStart colEnd surrounding b1 currentCol passage b2 bk3 bk'.
        \<not> (rowEnd < rowStart \<or> colEnd < colStart) \<Longrightarrow>
        (if \<not> surrounding then surroundingWalls ty (fst bk) else Some (fst bk)) = Some b1 \<Longrightarrow>
        colStart \<le> currentCol \<Longrightarrow> currentCol \<le> colEnd \<Longrightarrow> even (currentCol - colStart) \<Longrightarrow>
        passage = \<lfloor>rnd (snd bk + 1) * real_of_int (rowEnd - rowStart + 1)\<rfloor> + rowStart \<Longrightarrow>
        forEach [rowStart..rowEnd]
          (\<lambda>r b. if r \<noteq> passage \<and> notSpecial b (r, currentCol)
                 then placeWall ty (r, currentCol) b else Some b) b1 = Some b2 \<Longrightarrow>
        P (b2, snd bk + 2) rowStart rowEnd colStart (currentCol - 2) True bk3 \<Longrightarrow>
        P bk3 rowStart rowEnd (currentCol + 2) colEnd True bk' \<Longrightarrow>
        P bk rowStart rowEnd colStart colEnd surrounding bk'"
  shows "P bk rowStart rowEnd colStart colEnd surrounding bk'"
  using run
proof (induction "nat (rowEnd - rowStart + 3) + nat (colEnd - colStart + 3)"
       arbitrary: bk rowStart rowEnd colStart colEnd orientation surrounding bk' rule: less_induct)
  case less
  show ?case
  proof (cases "rowEnd < rowStart \<or> colEnd < colStart")
    case True
    with less.prems have "bk' = bk" by (simp add: generateRecursiveMaze.simps)
    with empty [OF True] show ?thesis by simp
  next
    case region: False
    show ?thesis
    proof (cases "orientation = ''horizontal''")
      case True
      define idx where "idx = \<lfloor>rnd (snd bk) * real (length (everySecond rowStart rowEnd))\<rfloor>"
      define currentRow where "currentRow = everySecond rowStart rowEnd ! nat idx"
      note eq = less.prems [unfolded True generateRecursiveMaze_horizontal_eq [OF region],
          folded idx_def, folded currentRow_def]
      from eq obtain b1 where
        b1: "(if \<not> surrounding then surroundingWalls ty (fst bk) else Some (fst bk)) = Some b1"
        by (cases "if \<not> surrounding then surroundingWalls ty (fst bk) else Some (fst bk)") simp_all
      note eq1 = eq [unfolded b1 option.case]
      have range: "\<not> (idx < 0 \<or> int (length (everySecond rowStart rowEnd)) \<le> idx)"
        using eq1 by (auto split: if_splits)
      note eq2 = eq1 [unfolded if_not_P [OF range]]
      from everySecond_nth [OF range]
      have cr: "rowStart \<le> currentRow" "currentRow \<le> rowEnd" "even (currentRow - rowStart)"
        by (simp_all add: currentRow_def)
      define passage where "passage = \<lfloor>rnd (snd bk + 1) * real_of_int (colEnd - colStart + 1)\<rfloor> + colStart"
      note eq3 = eq2 [folded passage_def]
      from eq3 obtain b2 where
        b2: "forEach [colStart..colEnd]
               (\<lambda>c b. if c \<noteq> passage \<and> notSpecial b (currentRow, c)
                      then placeWall ty (currentRow, c) b else Some b) b1 = Some b2"
        by (auto split: option.splits)
      note eq4 = eq3 [unfolded b2 option.case]
      from eq4 obtain bk3 where
        bk3: "generateRecursiveMaze rnd ty (b2, snd bk + 2) rowStart (currentRow - 2) colStart colEnd
                (if currentRow - 2 - rowStart > colEnd - colStart then ''horizontal'' else ''vertical'') True
              = Some bk3"
        by (auto split: option.splits)
      note eq5 = eq4 [unfolded bk3 option.case]
      have p1: "P (b2, snd bk + 2) rowStart (currentRow - 2) colStart colEnd True bk3"
        using less.hyps [OF _ bk3] cr region by simp
      have p2: "P bk3 (currentRow + 2) rowEnd colStart colEnd True bk'"
        using less.hyps [OF _ eq5] cr region by simp
      from horizontal [OF region b1 cr passage_def b2 p1 p2] show ?thesis .
    next
      case False
      define idx where "idx = \<lfloor>rnd (snd bk) * real (length (everySecond colStart colEnd))\<rfloor>"
      define currentCol where "currentCol = everySecond colStart colEnd ! nat idx"
      note eq = less.prems [unfolded generateRecursiveMaze_vertical_eq [OF region False],
          folded idx_def, folded currentCol_def]
      from eq obtain b1 where
        b1: "(if \<not> surrounding then surroundingWalls ty (fst bk) else Some (fst bk)) = Some b1"
        by (cases "if \<not> surrounding then surroundingWalls ty (fst bk) else Some (fst bk)") simp_all
      note eq1 = eq [unfolded b1 option.case]
      have range: "\<not> (idx < 0 \<or> int (length (everySecond colStart colEnd)) \<le> idx)"
        using eq1 by (auto split: if_splits)
      note eq2 = eq1 [unfolded if_not_P [OF range]]
      from everySecond_nth [OF range]
      have cc: "colStart \<le> currentCol" "currentCol \<le> colEnd" "even (currentCol - colStart)"
        by (simp_all add: currentCol_def)
      define passage where "passage = \<lfloor>rnd (snd bk + 1) * real_of_int (rowEnd - rowStart + 1)\<rfloor> + rowStart"
      note eq3 = eq2 [folded passage_def]
      from eq3 obtain b2 where
        b2: "forEach [rowStart..rowEnd]
               (\<lambda>r b. if r \<noteq> passage \<and> notSpecial b (r, currentCol)
                      then placeWall ty (r, currentCol) b else Some b) b1 = Some b2"
        by (auto split: option.splits)
      note eq4 = eq3 [unfolded b2 option.case]
      from eq4 obtain bk3 where
        bk3: "generateRecursiveMaze rnd ty (b2, snd bk + 2) rowStart rowEnd colStart (currentCol - 2)
                (if rowEnd - rowStart > currentCol - 2 - colStart then ''horizontal'' else orientation) True
              = Some bk3"
        by (auto split: option.splits)
      note eq5 = eq4 [unfolded bk3 option.case]
      have p1: "P (b2, snd bk + 2) rowStart rowEnd colStart (currentCol - 2) True bk3"
        using less.hyps [OF _ bk3] cc region by simp
      have p2: "P bk3 rowStart rowEnd (currentCol + 2) colEnd True bk'"
        using less.hyps [OF _ eq5] cc region by simp
      from vertical [OF region b1 cc passage_def b2 p1 p2] show ?thesis .
    qed
  qed
qed

section \<open>The generators keep the special nodes\<close>

lemma frame_trans_special:
  assumes "frame isSpecialNode a b" "frame isSpecialNode b c"
  shows "frame isSpecialNode a c"
  using frame_trans [OF assms isSpecialNode_frame [OF assms(1)]] .

lemma frame_surroundingWalls:
  assumes "surroundingWalls ty b = Some b'"
  shows "frame isSpecialNode b b'"
proof (rule forEach_frame [where f = "\<lambda>u. u", OF assms [unfolded surroundingWalls_def]])
  fix c u u'
  assume "(if onBorder u c \<and> notSpecial u c then placeWall ty c u else Some u) = Some u'"
  then show "frame isSpecialNode u u'"
    by (auto simp: notSpecial_iff frame_refl frame_placeWall split: if_splits)
qed

lemma frame_wallLine:
  assumes "forEach cells (\<lambda>x b. if x \<noteq> passage \<and> notSpecial b (cell x)
                                then placeWall ty (cell x) b else Some b) b1 = Some b2"
  shows "frame isSpecialNode b1 b2"
proof (rule forEach_frame [where f = "\<lambda>u. u", OF assms])
  fix x u u'
  assume "(if x \<noteq> passage \<and> notSpecial u (cell x) then placeWall ty (cell x) u else Some u) = Some u'"
  then show "frame isSpecialNode u u'"
    by (auto simp: notSpecial_iff frame_refl frame_placeWall split: if_splits)
qed

lemma frame_border:
  assumes "(if \<not> surrounding then surroundingWalls ty b else Some b) = Some b1"
  shows "frame isSpecialNode b b1"
  using assms frame_surroundingWalls [of ty b b1] by (auto simp: frame_refl split: if_splits)

lemma frame_generateRecursiveMaze:
  assumes "generateRecursiveMaze rnd ty bk rowStart rowEnd colStart colEnd orientation surrounding = Some bk'"
  shows "frame isSpecialNode (fst bk) (fst bk')"
  using assms
proof (induction rule: generateRecursiveMaze_run)
  case (empty bk rowStart rowEnd colStart colEnd surrounding)
  show ?case by (rule frame_refl)
next
  case (horizontal bk rowStart rowEnd colStart colEnd surrounding b1 currentRow passage b2 bk3 bk')
  have "frame isSpecialNode b1 b2"
    by (rule frame_wallLine [where cell = "\<lambda>c. (currentRow, c)", OF horizontal(7)])
  from frame_trans_special [OF frame_border [OF horizontal(2)] this] horizontal(8,9)
  show ?case by (auto intro: frame_trans_special)
next
  case (vertical bk rowStart rowEnd colStart colEnd surrounding b1 currentCol passage b2 bk3 bk')
  have "frame isSpecialNode b1 b2"
    by (rule frame_wallLine [where cell = "\<lambda>r. (r, currentCol)", OF vertical(7)])
  from frame_trans_special [OF frame_border [OF vertical(2)] this] vertical(8,9)
  show ?case by (auto intro: frame_trans_special)
qed

lemma frame_addBorder:
  assumes "addBorder b = Some b'"
  shows "frame isSpecialNode b b'"
proof (rule forEach_frame [where f = "\<lambda>u. u", OF assms [unfolded addBorder_def]])
  fix c u u'
  assume "(if onBorder u c \<and> \<not> isSpecialNode u c
           then case setStatus u c ''wall'' of None \<Rightarrow> None
                | Some b'' \<Rightarrow> Some (pushWall b'' (WallEntry c None))
           else Some u) = Some u'"
  then show "frame isSpecialNode u u'"
    using frame_randomWall [of c u u']
    by (auto simp: frame_refl randomWall_def split: if_splits)
qed

lemma frame_extend:
  assumes "forEach xs
             (\<lambda>i b'. if i < length dirs
                      then let extendedNode = (fst c + fst (dirs ! i), snd c + snd (dirs ! i))
                           in if \<not> isSpecialNode b' extendedNode
                              then randomWall extendedNode b' else Some b'
                      else None) b1 = Some b2"
  shows "frame isSpecialNode b1 b2"
proof (rule forEach_frame [where f = "\<lambda>u. u", OF assms])
  fix i u u'
  assume "(if i < length dirs
           then let extendedNode = (fst c + fst (dirs ! i), snd c + snd (dirs ! i))
                in if \<not> isSpecialNode u extendedNode then randomWall extendedNode u else Some u
           else None) = Some u'"
  then show "frame isSpecialNode u u'"
    by (auto simp: Let_def frame_refl frame_randomWall split: if_splits)
qed

lemma frame_seedWall:
  assumes "seedWall rnd srt c bk = Some bk'"
  shows "frame isSpecialNode (fst bk) (fst bk')"
proof -
  let ?dirs = "fst (srt [(0, 1), (0, - 1), (1, 0), (- 1, 0)] (snd bk + 2))"
  let ?loop = "forEach [0..<(if rnd (snd bk + 1) < 0.3 then 2 else 1 :: nat)]
                 (\<lambda>i b'. if i < length ?dirs
                          then let extendedNode = (fst c + fst (?dirs ! i), snd c + snd (?dirs ! i))
                               in if \<not> isSpecialNode b' extendedNode
                                  then randomWall extendedNode b' else Some b'
                          else None)"
  have eq: "seedWall rnd srt c bk =
     (if \<not> isSpecialNode (fst bk) c
      then if rnd (snd bk) < 0.25
           then case randomWall c (fst bk) of
                  None \<Rightarrow> None
                | Some b1 \<Rightarrow>
                    (case ?loop b1 of
                       None \<Rightarrow> None
                     | Some b2 \<Rightarrow> Some (b2, snd (srt [(0, 1), (0, - 1), (1, 0), (- 1, 0)] (snd bk + 2))))
           else Some (fst bk, snd bk + 1)
      else Some (fst bk, snd bk))"
    by (simp only: seedWall_def Let_def)
  show ?thesis
  proof (cases "\<not> isSpecialNode (fst bk) c \<and> rnd (snd bk) < 0.25")
    case False
    with assms [unfolded eq] have "fst bk' = fst bk" by (auto split: if_splits)
    then show ?thesis by (simp add: frame_refl)
  next
    case True
    with assms [unfolded eq] obtain b1 where b1: "randomWall c (fst bk) = Some b1"
      by (cases "randomWall c (fst bk)") simp_all
    with assms [unfolded eq] True have b2: "?loop b1 = Some (fst bk')"
      by (cases "?loop b1") auto
    from frame_trans_special [OF frame_randomWall [OF b1] frame_extend [OF b2]] True
    show ?thesis by simp
  qed
qed


section \<open>The clearing around the special nodes\<close>

lemma set_product_list:
  "c \<in> set (concat (map (\<lambda>i. map (\<lambda>j. f i j) ys) xs)) \<longleftrightarrow> (\<exists>i\<in>set xs. \<exists>j\<in>set ys. c = f i j)"
  by auto

lemma set_around: "c \<in> set (around s) \<longleftrightarrow> near s c"
proof
  assume "c \<in> set (around s)"
  then obtain i j where "c = (fst s + i, snd s + j)" "i \<in> set [- 2..2]" "j \<in> set [- 2..2]"
    unfolding around_def set_product_list by blast
  then have "c = (fst s + i, snd s + j)" "- 2 \<le> i" "i \<le> 2" "- 2 \<le> j" "j \<le> 2"
    by (simp_all only: set_upto atLeastAtMost_iff)
  then show "near s c" by (simp add: near_def abs_le_iff)
next
  assume n: "near s c"
  define i where "i = fst c - fst s"
  define j where "j = snd c - snd s"
  from n have "- 2 \<le> i \<and> i \<le> 2" "- 2 \<le> j \<and> j \<le> 2"
    by (simp_all add: near_def i_def j_def abs_le_iff)
  then have "i \<in> set [- 2..2]" "j \<in> set [- 2..2]"
    by (simp_all only: set_upto atLeastAtMost_iff)
  moreover have "c = (fst s + i, snd s + j)" by (simp add: i_def j_def)
  ultimately show "c \<in> set (around s)"
    unfolding around_def set_product_list by blast
qed

lemma cleared_setStatus:
  "setStatus b c ''unvisited'' = Some b' \<Longrightarrow> cleared b' c \<and> (\<forall>x. cleared b x \<longrightarrow> cleared b' x)"
  by (auto simp: setStatus_def cleared_def split: option.splits if_splits)

lemma cleared_spliceWall: "spliceWall c b = Some b' \<Longrightarrow> cleared b' x = cleared b x"
  by (auto simp: spliceWall_def cleared_def)

lemma cleared_setWeight: "setWeight b c w = Some b' \<Longrightarrow> cleared b' x = cleared b x"
  by (auto simp: setWeight_def cleared_def split: option.splits if_splits)

text \<open>The body of both clearing loops: the cell is opened, then \<open>after\<close> runs on it.\<close>

lemma clearCell_step:
  assumes body: "(if inside
                  then if \<not> isSpecialNode u c
                       then case setStatus u c ''unvisited'' of None \<Rightarrow> None
                            | Some b'' \<Rightarrow> after b''
                       else Some u
                  else Some u) = Some u'"
    and after: "\<And>b b'. after b = Some b' \<Longrightarrow> \<not> isSpecialNode b c \<Longrightarrow>
                  frame isSpecialNode b b' \<and> (\<forall>x. cleared b' x = cleared b x)"
  shows "frame isSpecialNode u u' \<and>
         (inside \<and> \<not> isSpecialNode u c \<longrightarrow> cleared u' c) \<and>
         (\<forall>x. cleared u x \<longrightarrow> cleared u' x)"
proof (cases "inside \<and> \<not> isSpecialNode u c")
  case False
  with body have "u' = u" by (auto split: if_splits)
  with False show ?thesis by (auto simp: frame_refl)
next
  case True
  with body obtain b1 where b1: "setStatus u c ''unvisited'' = Some b1"
    and u': "after b1 = Some u'"
    by (auto split: option.splits)
  have f1: "frame isSpecialNode u b1" using frame_setStatus [OF b1] True by simp
  then have "\<not> isSpecialNode b1 c" using True isSpecialNode_frame [OF f1] by simp
  from after [OF u' this] have f2: "frame isSpecialNode b1 u'"
    and same: "\<forall>x. cleared u' x = cleared b1 x" by simp_all
  from frame_trans_special [OF f1 f2] cleared_setStatus [OF b1] same
  show ?thesis by simp
qed

text \<open>
  Two nested loops, over the special nodes and over the square around each, whose body
  opens the cell when it is on the board and not special and closes none.
\<close>

lemma clearing_loops:
  assumes run: "forEach specials (\<lambda>s. forEach (around s) body) b = Some b'"
    and step: "\<And>c u u'. frame isSpecialNode b u \<Longrightarrow> body c u = Some u' \<Longrightarrow>
                 frame isSpecialNode u u' \<and>
                 (inBoard u c \<and> \<not> isSpecialNode u c \<longrightarrow> cleared u' c) \<and>
                 (\<forall>x. cleared u x \<longrightarrow> cleared u' x)"
  shows "frame isSpecialNode b b' \<and> (\<forall>s\<in>set specials. clearedAround b' s)"
proof -
  let ?I = "\<lambda>u. frame isSpecialNode b u"
  let ?Qc = "\<lambda>c u. inBoard b c \<and> \<not> isSpecialNode b c \<longrightarrow> cleared u c"
  let ?Q = "\<lambda>s u. \<forall>c\<in>set (around s). ?Qc c u"
  have cell: "?I u' \<and> ?Qc c u'" if "?I u" "body c u = Some u'" for c u u'
    using step [OF that] that(1) frame_trans_special [of b u u']
      isSpecialNode_frame [OF that(1)] inBoard_frame [OF that(1)]
    by simp
  have cell_keeps: "?Qc x u'" if "?I u" "body c u = Some u'" "?Qc x u" for c x u u'
    using step [OF that(1,2)] that(3) by blast
  have inner: "?I u' \<and> ?Q s u'" if "?I u" "forEach (around s) body u = Some u'" for s u u'
    by (rule forEach_establishes [where I = ?I and Q = ?Qc, OF that(2,1)])
       (use cell cell_keeps in blast)+
  have inner_keeps: "?Q x u'"
    if "?I u" "forEach (around s) body u = Some u'" "?Q x u" for s x u u'
  proof -
    have "?I u' \<and> ?Q x u'"
    proof (rule forEach_invariant [where I = "\<lambda>u. ?I u \<and> ?Q x u", OF that(2)])
      show "?I u \<and> ?Q x u" using that(1,3) by simp
      fix c v v'
      assume a: "c \<in> set (around s)" "?I v \<and> ?Q x v" "body c v = Some v'"
      from a(2) have Iv: "?I v" ..
      from cell [OF Iv a(3)] cell_keeps [OF Iv a(3)] a(2)
      show "?I v' \<and> ?Q x v'" by blast
    qed
    then show ?thesis ..
  qed
  have outer: "?I b' \<and> (\<forall>s\<in>set specials. ?Q s b')"
    by (rule forEach_establishes [where I = ?I and Q = ?Q, OF run frame_refl])
       (use inner inner_keeps in blast)+
  then have fr: "frame isSpecialNode b b'" ..
  have "clearedAround b' s" if "s \<in> set specials" for s
    unfolding clearedAround_def
  proof (intro allI impI)
    fix c
    assume c: "near s c \<and> inBoard b' c \<and> \<not> isSpecialNode b' c"
    then have "c \<in> set (around s)" by (simp add: set_around)
    with outer that have "?Qc c b'" by blast
    with c isSpecialNode_frame [OF fr] inBoard_frame [OF fr] show "cleared b' c" by simp
  qed
  with fr show ?thesis by blast
qed

lemma clearPaths_result:
  assumes "clearPaths b = Some b'"
  shows "frame isSpecialNode b b' \<and> clearedAround b' (start b) \<and> clearedAround b' (target b)"
proof -
  have "frame isSpecialNode b b' \<and> (\<forall>s\<in>set [start b, target b]. clearedAround b' s)"
  proof (rule clearing_loops [OF assms [unfolded clearPaths_def]])
    fix c u u'
    assume fr: "frame isSpecialNode b u"
      and body: "(if inBoard b c
            then if \<not> isSpecialNode u c
                 then case setStatus u c ''unvisited'' of None \<Rightarrow> None
                      | Some b'' \<Rightarrow> spliceWall c b''
                 else Some u
            else Some u) = Some u'"
    have "frame isSpecialNode u u' \<and>
          (inBoard b c \<and> \<not> isSpecialNode u c \<longrightarrow> cleared u' c) \<and>
          (\<forall>x. cleared u x \<longrightarrow> cleared u' x)"
      by (rule clearCell_step [OF body]) (simp add: frame_spliceWall cleared_spliceWall)
    then show "frame isSpecialNode u u' \<and>
               (inBoard u c \<and> \<not> isSpecialNode u c \<longrightarrow> cleared u' c) \<and>
               (\<forall>x. cleared u x \<longrightarrow> cleared u' x)"
      using inBoard_frame [OF fr] by simp
  qed
  then show ?thesis by simp
qed

lemma clearAroundSpecialNodes_result:
  assumes "clearAroundSpecialNodes b = Some b'"
  shows "frame isSpecialNode b b' \<and> clearedAround b' (start b) \<and> clearedAround b' (target b) \<and>
         (\<forall>ob. object b = Some ob \<longrightarrow> clearedAround b' ob)"
proof -
  have "frame isSpecialNode b b' \<and>
        (\<forall>s\<in>set ([start b, target b] @ (case object b of None \<Rightarrow> [] | Some ob \<Rightarrow> [ob])).
            clearedAround b' s)"
  proof (rule clearing_loops [OF assms [unfolded clearAroundSpecialNodes_def]])
    fix c u u'
    assume fr: "frame isSpecialNode b u"
      and body: "(if inBoard u c
            then if \<not> isSpecialNode u c
                 then case setStatus u c ''unvisited'' of None \<Rightarrow> None
                      | Some b'' \<Rightarrow> setWeight b'' c 0
                 else Some u
            else Some u) = Some u'"
    show "frame isSpecialNode u u' \<and>
          (inBoard u c \<and> \<not> isSpecialNode u c \<longrightarrow> cleared u' c) \<and>
          (\<forall>x. cleared u x \<longrightarrow> cleared u' x)"
      by (rule clearCell_step [OF body]) (simp add: frame_setWeight cleared_setWeight)
  qed
  then show ?thesis by (auto split: option.splits)
qed

section \<open>The four generators\<close>

lemma frame_trans_stair:
  assumes "frame isSpecialNodeStair a b" "frame isSpecialNodeStair b c"
  shows "frame isSpecialNodeStair a c"
  using frame_trans [OF assms isSpecialNodeStair_frame [OF assms(1)]] .

lemma frame_stairLoop:
  "stairLoop h w currentRow currentCol b = Some b' \<Longrightarrow> frame isSpecialNodeStair b b'"
proof (induction h w currentRow currentCol b rule: stairLoop.induct)
  case (1 h w currentRow currentCol b)
  show ?case
  proof (cases "currentRow < h - 2 \<and> currentCol < w - 2")
    case False
    with "1.prems" show ?thesis by (simp add: stairLoop.simps frame_refl)
  next
    case True
    from "1.prems" True obtain b1 b2 where
      b1: "forEach [currentCol..min (currentCol + 3) (w - 2) - 1]
             (\<lambda>c. stairWall (currentRow, c)) b = Some b1"
      and b2: "forEach [currentRow..min (currentRow + 3) (h - 2) - 1]
             (\<lambda>r. stairWall (r, currentCol + 3 - 1)) b1 = Some b2"
      and rest: "stairLoop h w (currentRow + 3) (currentCol + 3) b2 = Some b'"
      by (subst (asm) stairLoop.simps) (simp split: option.splits)
    have f1: "frame isSpecialNodeStair b b1"
      by (rule forEach_frameStair [OF b1]) (rule frame_stairWall)
    have f2: "frame isSpecialNodeStair b1 b2"
      by (rule forEach_frameStair [OF b2]) (rule frame_stairWall)
    from "1.IH" [OF True b1 b2 rest] frame_trans_stair [OF f1 f2]
    show ?thesis by (rule frame_trans_stair [rotated])
  qed
qed

lemma frame_addBorderStair:
  assumes "addBorderStair hasElement b = Some b'"
  shows "frame isSpecialNodeStair b b'"
proof (rule forEach_frameStair [OF assms [unfolded addBorderStair_def]])
  fix c u u'
  assume a: "(if onBorder u c \<and> \<not> isSpecialNodeStair u c
           then setStatus (pushWall u (if hasElement c then ElementEntry c else NullEntry)) c ''wall''
           else Some u) = Some u'"
  show "frame isSpecialNodeStair u u'"
  proof (cases "onBorder u c \<and> \<not> isSpecialNodeStair u c")
    case False
    with a show ?thesis by (auto simp: frame_refl)
  next
    case True
    let ?u1 = "pushWall u (if hasElement c then ElementEntry c else NullEntry)"
    from a True have s: "setStatus ?u1 c ''wall'' = Some u'" by simp
    have f0: "frame isSpecialNodeStair u ?u1"
      by (rule frame_pushWall) (simp add: True)
    have "frame isSpecialNodeStair ?u1 u'"
      using frame_setStatus [OF s, of isSpecialNodeStair] True by (simp add: sp_pushWall)
    from frame_trans_stair [OF f0 this] show ?thesis .
  qed
qed

lemma stairMaze_result:
  assumes "stairMaze hasElement b = Some b'"
  shows "frame isSpecialNodeStair b b'"
proof -
  from assms obtain b1 where b1: "stairLoop (height b) (width b) 2 2 b = Some b1"
    and b': "addBorderStair hasElement b1 = Some b'"
    by (auto simp: stairMaze_def split: option.splits)
  from frame_trans_stair [OF frame_stairLoop [OF b1] frame_addBorderStair [OF b']]
  show ?thesis .
qed

lemma generateBasicRandomMaze_result:
  assumes "generateBasicRandomMaze rnd srt bk = Some bk'"
  shows "frame isSpecialNode (fst bk) (fst bk') \<and>
         clearedAround (fst bk') (start (fst bk)) \<and> clearedAround (fst bk') (target (fst bk))"
proof -
  from assms obtain b1 bk2 b3 where b1: "addBorder (fst bk) = Some b1"
    and bk2: "forEach
                (concat (map (\<lambda>r. map (\<lambda>c. (r, c)) (everySecondBelow 2 (width (fst bk) - 2)))
                           (everySecondBelow 2 (height (fst bk) - 2))))
                (seedWall rnd srt) (b1, snd bk) = Some bk2"
    and b3: "clearPaths (fst bk2) = Some b3" and bk': "fst bk' = b3"
    by (auto simp: generateBasicRandomMaze_def split: option.splits)
  have f1: "frame isSpecialNode (fst bk) b1" by (rule frame_addBorder [OF b1])
  have "frame isSpecialNode (fst (b1, snd bk)) (fst bk2)"
    by (rule forEach_frame [where f = fst, OF bk2]) (rule frame_seedWall)
  with f1 have f2: "frame isSpecialNode (fst bk) (fst bk2)"
    by (auto intro: frame_trans_special)
  from clearPaths_result [OF b3] have f3: "frame isSpecialNode (fst bk2) b3"
    and c: "clearedAround b3 (start (fst bk2))" "clearedAround b3 (target (fst bk2))"
    by simp_all
  from f2 have "start (fst bk2) = start (fst bk)" "target (fst bk2) = target (fst bk)"
    by (simp_all add: frame_def)
  with c frame_trans_special [OF f2 f3] bk' show ?thesis by simp
qed

lemma frame_resetNode:
  assumes "resetNode c b = Some b'"
  shows "frame isSpecialNode b b'"
proof (cases "isSpecialNode b c")
  case True
  with assms show ?thesis by (simp add: resetNode_def frame_refl)
next
  case False
  with assms obtain b1 where b1: "setStatus b c ''unvisited'' = Some b1"
    and b': "setWeight b1 c 0 = Some b'"
    by (auto simp: resetNode_def split: option.splits)
  have f1: "frame isSpecialNode b b1" using frame_setStatus [OF b1] False by simp
  have "frame isSpecialNode b1 b'"
    using frame_setWeight [OF b'] False isSpecialNode_frame [OF f1] by simp
  from frame_trans_special [OF f1 this] show ?thesis .
qed

lemma frame_firstPass:
  assumes "firstPass rnd c bk = Some bk'"
  shows "frame isSpecialNode (fst bk) (fst bk')"
  using assms frame_randomWall [of c "fst bk" "fst bk'"]
  by (auto simp: firstPass_def Let_def frame_refl split: if_splits option.splits)

lemma frame_secondPass:
  assumes "secondPass rnd c bk = Some bk'"
  shows "frame isSpecialNode (fst bk) (fst bk')"
  using assms frame_randomWall [of c "fst bk" "fst bk'"]
  by (auto simp: secondPass_def Let_def frame_refl split: if_splits option.splits)

lemma frame_thirdPass:
  assumes "thirdPass rnd c bk = Some bk'"
  shows "frame isSpecialNode (fst bk) (fst bk')"
proof (cases "\<not> isSpecialNode (fst bk) c \<and> rnd (snd bk) < 0.4")
  case False
  with assms show ?thesis
    by (auto simp: thirdPass_def Let_def frame_refl split: if_splits)
next
  case True
  with assms obtain b1 where b1: "setStatus (fst bk) c ''unvisited'' = Some b1"
    and b': "spliceWall c b1 = Some (fst bk')"
    by (auto simp: thirdPass_def Let_def split: option.splits)
  have f1: "frame isSpecialNode (fst bk) b1" using frame_setStatus [OF b1] True by simp
  have "frame isSpecialNode b1 (fst bk')"
    using frame_spliceWall [OF b', of isSpecialNode] True isSpecialNode_frame [OF f1] by simp
  from frame_trans_special [OF f1 this] show ?thesis .
qed

lemma generateRandomMaze_result:
  assumes "generateRandomMaze rnd bk = Some bk'"
  shows "frame isSpecialNode (fst bk) (fst bk') \<and>
         clearedAround (fst bk') (start (fst bk)) \<and> clearedAround (fst bk') (target (fst bk)) \<and>
         (\<forall>ob. object (fst bk) = Some ob \<longrightarrow> clearedAround (fst bk') ob)"
proof -
  from assms obtain b0 bk1 bk2 bk3 b4 where
    b0: "forEach (allCells (fst bk)) resetNode (fst bk) = Some b0"
    and bk1: "forEach (allCells (fst bk)) (firstPass rnd) (b0, snd bk) = Some bk1"
    and bk2: "forEach (concat (map (\<lambda>r. map (\<lambda>c. (r, c)) [1..width (fst bk) - 2])
                                 [1..height (fst bk) - 2]))
                (secondPass rnd) bk1 = Some bk2"
    and bk3: "forEach (concat (map (\<lambda>r. map (\<lambda>c. (r, c)) (everySecondBelow 0 (width (fst bk))))
                                 (everySecondBelow 0 (height (fst bk)))))
                (thirdPass rnd) bk2 = Some bk3"
    and b4: "clearAroundSpecialNodes (fst bk3) = Some b4" and bk': "fst bk' = b4"
    by (auto simp: generateRandomMaze_def Let_def split: option.splits)
  have f0: "frame isSpecialNode (fst bk) b0"
    by (rule forEach_frame [where f = "\<lambda>u. u", OF b0]) (rule frame_resetNode)
  have "frame isSpecialNode (fst (b0, snd bk)) (fst bk1)"
    by (rule forEach_frame [where f = fst, OF bk1]) (rule frame_firstPass)
  with f0 have f1: "frame isSpecialNode (fst bk) (fst bk1)"
    by (auto intro: frame_trans_special)
  have "frame isSpecialNode (fst bk1) (fst bk2)"
    by (rule forEach_frame [where f = fst, OF bk2]) (rule frame_secondPass)
  with f1 have f2: "frame isSpecialNode (fst bk) (fst bk2)"
    by (auto intro: frame_trans_special)
  have "frame isSpecialNode (fst bk2) (fst bk3)"
    by (rule forEach_frame [where f = fst, OF bk3]) (rule frame_thirdPass)
  with f2 have f3: "frame isSpecialNode (fst bk) (fst bk3)"
    by (auto intro: frame_trans_special)
  from clearAroundSpecialNodes_result [OF b4] have f4: "frame isSpecialNode (fst bk3) b4"
    and c: "clearedAround b4 (start (fst bk3))" "clearedAround b4 (target (fst bk3))"
      "\<forall>ob. object (fst bk3) = Some ob \<longrightarrow> clearedAround b4 ob"
    by simp_all
  from f3 have "start (fst bk3) = start (fst bk)" "target (fst bk3) = target (fst bk)"
    "object (fst bk3) = object (fst bk)"
    by (simp_all add: frame_def)
  with c frame_trans_special [OF f3 f4] bk' show ?thesis by simp
qed

text \<open>Where no placement on a special node is in the list, no entry has the id of a special node.\<close>

lemma not_placed:
  assumes "placementsOn special ws = []" "special c"
  shows "\<not> list_ex (\<lambda>entry. entryId entry = Some c) ws"
  using assms by (auto simp: placementsOn_def filter_empty_conv list_ex_iff)

section \<open>The states of a Dijkstra search\<close>

text \<open>The search is the loop, run from any of its states.\<close>

lemma dijkstraInstant_doc:
  "fst (dijkstraInstant sp e g u v d1) = fst (dijkstraInstant sp e g u v d2) \<and>
   fst (snd (dijkstraInstant sp e g u v d1)) = fst (snd (dijkstraInstant sp e g u v d2))"
  using dijkstraAnimated_same [of sp e g u v d1 d1] dijkstraAnimated_same [of sp e g u v d1 d2]
  by simp

lemma dijkstraIteration_loop:
  assumes "dijkstraIteration e (g, u, v) = Some (g', u', v')"
  shows "fst (dijkstraInstant sp e g u v d) = fst (dijkstraInstant sp e g' u' v' d) \<and>
         fst (snd (dijkstraInstant sp e g u v d)) = fst (snd (dijkstraInstant sp e g' u' v' d))"
proof (cases "sortNodesByDistance g u")
  case Nil
  with assms show ?thesis by (simp add: dijkstraIteration_def)
next
  case (Cons c rest)
  show ?thesis
  proof (cases "isWall (nodeAt g c)")
    case True
    with assms Cons have "g' = g" "u' = rest" "v' = v" by (simp_all add: dijkstraIteration_def)
    with dijkstraInstant_cases(2) [OF Cons True] show ?thesis by simp
  next
    case False
    with assms Cons obtain k where k: "distance (nodeAt g c) = enat k" and ce: "c \<noteq> e"
      and eq: "g' = updateUnvisitedNeighbors c (markVisited g c)" "u' = rest" "v' = v @ [c]"
      by (cases "distance (nodeAt g c)") (auto simp: dijkstraIteration_def split: if_splits)
    from dijkstraInstant_cases(5) [OF Cons False k ce, of sp v d] obtain d' where
      "dijkstraInstant sp e g u v d = dijkstraInstant sp e g' u' v' d'"
      unfolding eq by blast
    with dijkstraInstant_doc [of sp e g' u' v' d' d] show ?thesis by simp
  qed
qed

lemma dijkstraStateAt_loop:
  assumes "dijkstraStateAt g0 s e n = Some st"
  shows "fst (dijkstra g0 s e speed sp doc)
           = fst (dijkstraInstant sp e (fst st) (fst (snd st)) (snd (snd st)) doc) \<and>
         fst (snd (dijkstra g0 s e speed sp doc))
           = fst (snd (dijkstraInstant sp e (fst st) (fst (snd st)) (snd (snd st)) doc))"
  using assms
proof (induction n arbitrary: st)
  case 0
  then have "st = (dijkstraStart g0 s, getAllNodes g0, [])" by simp
  then show ?case
    using dijkstraAnimated_same [of sp e "dijkstraStart g0 s" "getAllNodes g0" "[]" doc doc]
    by (simp add: dijkstra_unfold)
next
  case (Suc n)
  from Suc.prems obtain st0 where st0: "dijkstraStateAt g0 s e n = Some st0"
    and it: "dijkstraIteration e st0 = Some st"
    by (auto split: option.splits)
  from it have "dijkstraIteration e (fst st0, fst (snd st0), snd (snd st0))
                  = Some (fst st, fst (snd st), snd (snd st))" by simp
  from dijkstraIteration_loop [OF this, of sp doc] Suc.IH [OF st0] show ?case by simp
qed

text \<open>Every state of the search satisfies the invariants of the loop.\<close>

lemma dijkstraIteration_inv:
  assumes inv: "searchInv g0 s e g u v \<and> e \<notin> set v \<and> bfsInv g0 s e g u v"
    and it: "dijkstraIteration e (g, u, v) = Some (g', u', v')"
  shows "searchInv g0 s e g' u' v' \<and> e \<notin> set v' \<and> bfsInv g0 s e g' u' v'"
proof -
  from it obtain c rest where sorted: "sortNodesByDistance g u = c # rest"
    by (cases "sortNodesByDistance g u") (simp_all add: dijkstraIteration_def)
  note sk = sort_key_Cons [OF sorted [unfolded sortNodesByDistance_def]]
  from inv have si: "searchInv g0 s e g u v" and b: "bfsInv g0 s e g u v" by simp_all
  note du = sk(2) [OF searchInv_distinct_u [OF si]]
  show ?thesis
  proof (cases "isWall (nodeAt g c)")
    case True
    with it sorted have eq: "g' = g" "u' = rest" "v' = v" by (simp_all add: dijkstraIteration_def)
    from searchInv_wall [OF si sk(1) du True] bfsInv_wall [OF b sk(1)] inv
    show ?thesis unfolding eq by blast
  next
    case False
    with it sorted obtain k where k: "distance (nodeAt g c) = enat k" and ce: "c \<noteq> e"
      and eq: "g' = updateUnvisitedNeighbors c (markVisited g c)" "u' = rest" "v' = v @ [c]"
      by (cases "distance (nodeAt g c)") (auto simp: dijkstraIteration_def split: if_splits)
    have "c \<in> set u" using sk(1) by simp
    then have "inb g0 c" using listInv_inb_u [OF searchInvD(2) [OF si]] by blast
    then have cg: "inb (markVisited g c) c" using gridInvD(2) [OF searchInvD(1) [OF si]] by simp
    have wf: "wf_grid (markVisited g c)" using gridInvD(1) [OF searchInvD(1) [OF si]] by simp
    from searchInv_step [OF si sk(1) du False k ce relaxedFrom_dijkstra [OF wf cg]]
      bfsInv_step [OF si b sk(1) du sk(3) False k ce]
    show ?thesis unfolding eq using inv ce by simp
  qed
qed

lemma dijkstraStateAt_inv:
  assumes "wf_grid g0" "inb g0 s" and st: "dijkstraStateAt g0 s e n = Some (g, u, v)"
  shows "searchInv g0 s e g u v \<and> e \<notin> set v \<and> bfsInv g0 s e g u v"
  using st
proof (induction n arbitrary: g u v)
  case 0
  then have eq: "g = dijkstraStart g0 s" "u = getAllNodes g0" "v = []" by simp_all
  have "bfsInv g0 s e (dijkstraStart g0 s) (getAllNodes g0) []"
    by (rule bfsInv_initial [OF assms(2)]) (simp add: dijkstraStart_fields)
  with searchInv_dijkstraStart [OF assms(1,2)] show ?case unfolding eq by simp
next
  case (Suc n)
  from Suc.prems obtain st0 where st0: "dijkstraStateAt g0 s e n = Some st0"
    and it: "dijkstraIteration e st0 = Some (g, u, v)"
    by (auto split: option.splits)
  obtain g1 u1 v1 where st0_eq: "st0 = (g1, u1, v1)" by (cases st0) auto
  from dijkstraIteration_inv [OF Suc.IH [OF st0 [unfolded st0_eq]] it [unfolded st0_eq]]
  show ?case .
qed

text \<open>
  In a state of the search, the relaxation of the closest node gives no open cell a
  larger distance: an open unvisited neighbour is in the work list and so not nearer
  than the closest node, and across an edge of the grid the parity changes.
\<close>

lemma dijkstra_relax_open:
  assumes inv: "searchInv g0 s e g u v" and b: "bfsInv g0 s e g u v"
    and sorted: "sortNodesByDistance g u = c # rest"
    and k: "distance (nodeAt g c) = enat k"
    and q: "inb g0 q" "\<not> isWall (nodeAt g0 q)"
  shows "distance (nodeAt (updateUnvisitedNeighbors c (markVisited g c)) q) \<le> distance (nodeAt g q)"
proof -
  note sk = sort_key_Cons [OF sorted [unfolded sortNodesByDistance_def]]
  note gi = searchInvD(1) [OF inv] and li = searchInvD(2) [OF inv]
  have i: "inb g x = inb g0 x" for x using gridInvD(2) [OF gi] by simp
  have "c \<in> set u" using sk(1) by simp
  then have c0: "inb g0 c" using listInv_inb_u [OF li] by blast
  then have cg: "inb g c" using i by simp
  have wf1: "wf_grid (markVisited g c)" using gridInvD(1) [OF gi] by simp
  have cg1: "inb (markVisited g c) c" using cg by simp
  show ?thesis
  proof (cases "adj4 c q \<and> \<not> isVisited (nodeAt (markVisited g c) q)")
    case False
    then show ?thesis
      by (auto simp add: nodeAt_updateUnvisitedNeighbors [OF wf1 cg1])
  next
    case True
    then have adj: "adj4 c q" and nv: "\<not> isVisited (nodeAt g q)"
      by (simp_all add: isVisited_markVisited [OF cg])
    have new: "distance (nodeAt (updateUnvisitedNeighbors c (markVisited g c)) q) = enat (Suc k)"
      using True q(1) i k
      by (simp add: nodeAt_updateUnvisitedNeighbors [OF wf1 cg1] enat_plus_one)
    from nv q(1) have "q \<notin> set v" using listInv_visited [OF li] by blast
    moreover have "\<not> isWall (nodeAt g q)" using gridInvD(3) [OF gi] q by blast
    ultimately have "q \<in> set u" using listInv_pending [OF li] q(1) by blast
    with sk(3) k have least: "enat k \<le> distance (nodeAt g q)" by auto
    show ?thesis
    proof (cases "distance (nodeAt g q)")
      case infinity
      then show ?thesis by simp
    next
      case (enat d)
      with least have kd: "k \<le> d" by simp
      from bfsInv_parity [OF b] q(1) enat
      have pq: "even (d + fst q + snd q + fst s + snd s)" by blast
      from bfsInv_parity [OF b] c0 k
      have pc: "even (k + fst c + snd c + fst s + snd s)" by blast
      from adj4_parity [OF adj] pq pc have "d \<noteq> k" by auto
      with kd have "Suc k \<le> d" by simp
      with new enat show ?thesis by simp
    qed
  qed
qed

lemma dijkstraIteration_open:
  assumes inv: "searchInv g0 s e g u v" and b: "bfsInv g0 s e g u v"
    and it: "dijkstraIteration e (g, u, v) = Some (g', u', v')"
    and q: "inb g0 q" "\<not> isWall (nodeAt g0 q)"
  shows "distance (nodeAt g' q) \<le> distance (nodeAt g q)"
proof -
  from it obtain c rest where sorted: "sortNodesByDistance g u = c # rest"
    by (cases "sortNodesByDistance g u") (simp_all add: dijkstraIteration_def)
  show ?thesis
  proof (cases "isWall (nodeAt g c)")
    case True
    with it sorted show ?thesis by (simp add: dijkstraIteration_def)
  next
    case False
    with it sorted obtain k where k: "distance (nodeAt g c) = enat k"
      and eq: "g' = updateUnvisitedNeighbors c (markVisited g c)"
      by (cases "distance (nodeAt g c)") (auto simp: dijkstraIteration_def split: if_splits)
    from dijkstra_relax_open [OF inv b sorted k q] show ?thesis unfolding eq .
  qed
qed

lemma dijkstraStateAt_open:
  assumes "wf_grid g0" "inb g0 s" and q: "inb g0 q" "\<not> isWall (nodeAt g0 q)"
    and "m \<le> n"
    and "dijkstraStateAt g0 s e m = Some st" "dijkstraStateAt g0 s e n = Some st'"
  shows "distance (nodeAt (fst st') q) \<le> distance (nodeAt (fst st) q)"
  using assms(5,7)
proof (induction n arbitrary: st')
  case 0
  with assms(6) show ?case by simp
next
  case (Suc n)
  show ?case
  proof (cases "m = Suc n")
    case True
    with assms(6) Suc.prems(2) show ?thesis by simp
  next
    case False
    with Suc.prems(1) have mn: "m \<le> n" by simp
    from Suc.prems(2) obtain st0 where st0: "dijkstraStateAt g0 s e n = Some st0"
      and it: "dijkstraIteration e st0 = Some st'"
      by (auto split: option.splits)
    obtain g1 u1 v1 where e0: "st0 = (g1, u1, v1)" by (cases st0) auto
    obtain g2 u2 v2 where e1: "st' = (g2, u2, v2)" by (cases st') auto
    from dijkstraStateAt_inv [OF assms(1,2) st0 [unfolded e0]]
    have inv: "searchInv g0 s e g1 u1 v1" and b: "bfsInv g0 s e g1 u1 v1" by simp_all
    from dijkstraIteration_open [OF inv b it [unfolded e0 e1] q]
    have "distance (nodeAt (fst st') q) \<le> distance (nodeAt (fst st0) q)" by (simp add: e0 e1)
    also have "\<dots> \<le> distance (nodeAt (fst st) q)" by (rule Suc.IH [OF mn st0])
    finally show ?thesis .
  qed
qed

text \<open>The grid the search returns gives no open cell a larger distance than a state of the search.\<close>

lemma dijkstraInstant_open:
  assumes inv: "searchInv g0 s e g u v \<and> e \<notin> set v \<and> bfsInv g0 s e g u v"
    and q: "inb g0 q" "\<not> isWall (nodeAt g0 q)"
  shows "distance (nodeAt (fst (snd (dijkstraInstant sp e g u v d))) q) \<le> distance (nodeAt g q)"
proof -
  let ?I = "\<lambda>g' u' v'. (searchInv g0 s e g' u' v' \<and> e \<notin> set v' \<and> bfsInv g0 s e g' u' v') \<and>
                distance (nodeAt g' q) \<le> distance (nodeAt g q)"
  let ?Q = "\<lambda>(v' :: pos list) g'. distance (nodeAt g' q) \<le> distance (nodeAt g q)"
  have it: "?I g2 u2 v2"
    if "?I g1 u1 v1" "dijkstraIteration e (g1, u1, v1) = Some (g2, u2, v2)" for g1 u1 v1 g2 u2 v2
  proof -
    from that(1) have i1: "searchInv g0 s e g1 u1 v1 \<and> e \<notin> set v1 \<and> bfsInv g0 s e g1 u1 v1"
      and le: "distance (nodeAt g1 q) \<le> distance (nodeAt g q)" by simp_all
    from i1 have si: "searchInv g0 s e g1 u1 v1" and b: "bfsInv g0 s e g1 u1 v1" by simp_all
    from dijkstraIteration_open [OF si b that(2) q] le
    have "distance (nodeAt g2 q) \<le> distance (nodeAt g q)" by (rule order_trans)
    with dijkstraIteration_inv [OF i1 that(2)] show ?thesis by simp
  qed
  have wall: "?I g1 rest v1"
    if "?I g1 u1 v1" "sortNodesByDistance g1 u1 = c # rest" "isWall (nodeAt g1 c)"
    for g1 u1 v1 c rest
    by (rule it [OF that(1)]) (simp add: dijkstraIteration_def that(2,3))
  have step: "?I (updateUnvisitedNeighbors c (markVisited g1 c)) rest (v1 @ [c])"
    if "?I g1 u1 v1" "sortNodesByDistance g1 u1 = c # rest" "\<not> isWall (nodeAt g1 c)"
       "distance (nodeAt g1 c) = enat k" "c \<noteq> e"
    for g1 u1 v1 c rest k
    by (rule it [OF that(1)]) (simp add: dijkstraIteration_def that(2,3,4,5))
  have empty: "?Q v1 g1" if "?I g1 u1 v1" "sortNodesByDistance g1 u1 = []" for g1 u1 v1
    using that(1) by simp
  have inf: "?Q v1 g1"
    if "?I g1 u1 v1" "sortNodesByDistance g1 u1 = c # rest" "\<not> isWall (nodeAt g1 c)"
       "distance (nodeAt g1 c) = \<infinity>"
    for g1 u1 v1 c rest
    using that(1) by simp
  have found: "?Q (v1 @ [c]) (markVisited g1 c)"
    if "?I g1 u1 v1" "sortNodesByDistance g1 u1 = c # rest" "\<not> isWall (nodeAt g1 c)"
       "distance (nodeAt g1 c) = enat k" "c = e"
    for g1 u1 v1 c rest k
    using that(1) by simp
  have init: "?I g u v" using inv by simp
  show ?thesis
    by (rule dijkstraInstant_rule [where I = ?I and Q = ?Q, OF init wall step empty inf found])
qed

lemma dijkstra_open_after_state:
  assumes "wf_grid g0" "inb g0 s" and q: "inb g0 q" "\<not> isWall (nodeAt g0 q)"
    and st: "dijkstraStateAt g0 s e n = Some st"
  shows "distance (nodeAt (fst (snd (dijkstra g0 s e speed sp doc))) q) \<le> distance (nodeAt (fst st) q)"
proof -
  obtain g u v where e: "st = (g, u, v)" by (cases st) auto
  from dijkstraInstant_open [OF dijkstraStateAt_inv [OF assms(1,2) st [unfolded e]] q, of sp doc]
    dijkstraStateAt_loop [OF st, of speed sp doc]
  show ?thesis by (simp add: e)
qed

section \<open>Special nodes and the maze generators\<close>

text \<open>
  C4, as the specification states it, fails in each part. Recursive division and the
  stair maze clear nothing: on the 7 by 7 board with the start at 1-1 and the target at
  5-5 both leave the wall 2-3, within radius 2 of the start. The basic random maze
  clears around the start and the target only: with the checkpoint at 3-3 it leaves
  the wall 2-4, within radius 2 of the checkpoint. The clearing opens a cell in
  \<open>board.nodes\<close> but not always in the list of wall placements: after the basic
  random maze the cell 3-2, placed twice and within radius 2 of the start, is unvisited
  and still in the list; after the density random maze on the 5 by 5 board the cell
  1-2, next to the start, is unvisited and still in the list. And the stair maze walls
  a checkpoint that lies on its staircase, here at 2-2.
\<close>

theorem C4_walls_near_special_nodes_counterexample:
  "near (1, 1) (2, 3) \<and>
   statusAfter (map_option fst (generateRecursiveMaze lowDraws ''wall''
       (squareBoard 7 (1, 1) (5, 5) None, 0) 2 4 2 4 ''horizontal'' False)) (2, 3) = Some ''wall'' \<and>
   statusAfter (stairMaze noElements (squareBoard 7 (1, 1) (5, 5) None)) (2, 3) = Some ''wall'' \<and>
   near (3, 3) (2, 4) \<and>
   statusAfter (map_option fst (generateBasicRandomMaze lowDraws descendingRun
       (squareBoard 7 (1, 1) (5, 5) (Some (3, 3)), 0))) (2, 4) = Some ''wall'' \<and>
   near (1, 1) (3, 2) \<and>
   statusAfter (map_option fst (generateBasicRandomMaze lowDraws descendingRun
       (squareBoard 7 (1, 1) (5, 5) (Some (3, 3)), 0))) (3, 2) = Some ''unvisited'' \<and>
   placedAfter (map_option fst (generateBasicRandomMaze lowDraws descendingRun
       (squareBoard 7 (1, 1) (5, 5) (Some (3, 3)), 0))) (3, 2) \<and>
   near (1, 1) (1, 2) \<and>
   statusAfter (map_option fst (generateRandomMaze lowDraws
       (squareBoard 5 (1, 1) (3, 3) (Some (2, 2)), 0))) (1, 2) = Some ''unvisited'' \<and>
   placedAfter (map_option fst (generateRandomMaze lowDraws
       (squareBoard 5 (1, 1) (3, 3) (Some (2, 2)), 0))) (1, 2) \<and>
   object (squareBoard 7 (1, 1) (5, 5) (Some (2, 2))) = Some (2, 2) \<and>
   statusAfter (stairMaze noElements (squareBoard 7 (1, 1) (5, 5) (Some (2, 2)))) (2, 2) = Some ''wall'' \<and>
   placedAfter (stairMaze noElements (squareBoard 7 (1, 1) (5, 5) (Some (2, 2)))) (2, 2)"
proof -
  have "near (1, 1) (2, 3)" "near (3, 3) (2, 4)" "near (1, 1) (3, 2)" "near (1, 1) (1, 2)"
    by code_simp+
  moreover have "statusAfter (map_option fst (generateRecursiveMaze lowDraws ''wall''
       (squareBoard 7 (1, 1) (5, 5) None, 0) 2 4 2 4 ''horizontal'' False)) (2, 3) = Some ''wall''"
    by code_simp
  moreover have "statusAfter (stairMaze noElements (squareBoard 7 (1, 1) (5, 5) None)) (2, 3)
      = Some ''wall''" by code_simp
  moreover have "statusAfter (map_option fst (generateBasicRandomMaze lowDraws descendingRun
       (squareBoard 7 (1, 1) (5, 5) (Some (3, 3)), 0))) (2, 4) = Some ''wall''"
    by code_simp
  moreover have "statusAfter (map_option fst (generateBasicRandomMaze lowDraws descendingRun
       (squareBoard 7 (1, 1) (5, 5) (Some (3, 3)), 0))) (3, 2) = Some ''unvisited''"
    by code_simp
  moreover have "placedAfter (map_option fst (generateBasicRandomMaze lowDraws descendingRun
       (squareBoard 7 (1, 1) (5, 5) (Some (3, 3)), 0))) (3, 2)"
    by code_simp
  moreover have "statusAfter (map_option fst (generateRandomMaze lowDraws
       (squareBoard 5 (1, 1) (3, 3) (Some (2, 2)), 0))) (1, 2) = Some ''unvisited''"
    by code_simp
  moreover have "placedAfter (map_option fst (generateRandomMaze lowDraws
       (squareBoard 5 (1, 1) (3, 3) (Some (2, 2)), 0))) (1, 2)"
    by code_simp
  moreover have "object (squareBoard 7 (1, 1) (5, 5) (Some (2, 2))) = Some (2, 2)" by code_simp
  moreover have "statusAfter (stairMaze noElements (squareBoard 7 (1, 1) (5, 5) (Some (2, 2)))) (2, 2)
      = Some ''wall''" by code_simp
  moreover have "placedAfter (stairMaze noElements (squareBoard 7 (1, 1) (5, 5) (Some (2, 2)))) (2, 2)"
    by code_simp
  ultimately show ?thesis by blast
qed

text \<open>
  C4, as the code has it. Whenever a generator returns a board: recursive division, the
  basic random maze and the density random maze leave the nodes of the start, the
  target and the checkpoint exactly as they were in \<open>board.nodes\<close>, and the wall
  placements on these three nodes in \<open>wallsToAnimate\<close> as they were (none is pushed);
  the stair maze does so for the start and the target. After the density random maze
  every cell of the board within radius 2 of the start, the target or the checkpoint
  that is not itself one of them has the status \<open>unvisited\<close> in \<open>board.nodes\<close>, so
  it is not a wall there; after the basic random maze every such cell within radius 2
  of the start or the target has.
\<close>

theorem C4_special_nodes_kept_and_cleared:
  "(generateRecursiveMaze rnd1 ty bk1 rowStart rowEnd colStart colEnd orientation surrounding = Some bk1'
      \<longrightarrow> frame isSpecialNode (fst bk1) (fst bk1')) \<and>
   (generateBasicRandomMaze rnd2 srt bk2 = Some bk2'
      \<longrightarrow> frame isSpecialNode (fst bk2) (fst bk2') \<and>
          clearedAround (fst bk2') (start (fst bk2)) \<and>
          clearedAround (fst bk2') (target (fst bk2))) \<and>
   (generateRandomMaze rnd3 bk3 = Some bk3'
      \<longrightarrow> frame isSpecialNode (fst bk3) (fst bk3') \<and>
          clearedAround (fst bk3') (start (fst bk3)) \<and>
          clearedAround (fst bk3') (target (fst bk3)) \<and>
          (\<forall>ob. object (fst bk3) = Some ob \<longrightarrow> clearedAround (fst bk3') ob)) \<and>
   (stairMaze hasElement b4 = Some b4' \<longrightarrow> frame isSpecialNodeStair b4 b4')"
  using frame_generateRecursiveMaze [of rnd1 ty bk1 rowStart rowEnd colStart colEnd orientation surrounding bk1']
    generateBasicRandomMaze_result [of rnd2 srt bk2 bk2']
    generateRandomMaze_result [of rnd3 bk3 bk3']
    stairMaze_result [of hasElement b4 b4']
  by blast

theorem C4_special_nodes_kept_and_cleared_witness:
  "generateRecursiveMaze lowDraws ''wall'' (squareBoard 7 (1, 1) (5, 5) (Some (2, 3)), 0)
     2 4 2 4 ''horizontal'' True \<noteq> None \<and>
   nodes (fst (the (generateRecursiveMaze lowDraws ''wall''
       (squareBoard 7 (1, 1) (5, 5) (Some (2, 3)), 0) 2 4 2 4 ''horizontal'' True))) (2, 3)
     = nodes (squareBoard 7 (1, 1) (5, 5) (Some (2, 3))) (2, 3) \<and>
   \<not> placedAfter (map_option fst (generateRecursiveMaze lowDraws ''wall''
       (squareBoard 7 (1, 1) (5, 5) (Some (2, 3)), 0) 2 4 2 4 ''horizontal'' True)) (2, 3) \<and>
   generateBasicRandomMaze lowDraws descendingRun (squareBoard 7 (1, 1) (5, 5) (Some (2, 4)), 0) \<noteq> None \<and>
   nodes (fst (the (generateBasicRandomMaze lowDraws descendingRun
       (squareBoard 7 (1, 1) (5, 5) (Some (2, 4)), 0)))) (2, 4)
     = nodes (squareBoard 7 (1, 1) (5, 5) (Some (2, 4))) (2, 4) \<and>
   \<not> placedAfter (map_option fst (generateBasicRandomMaze lowDraws descendingRun
       (squareBoard 7 (1, 1) (5, 5) (Some (2, 4)), 0))) (2, 4) \<and>
   cleared (fst (the (generateBasicRandomMaze lowDraws descendingRun
       (squareBoard 7 (1, 1) (5, 5) (Some (2, 4)), 0)))) (2, 2) \<and>
   generateRandomMaze lowDraws (squareBoard 5 (1, 1) (3, 3) (Some (2, 2)), 0) \<noteq> None \<and>
   nodes (fst (the (generateRandomMaze lowDraws (squareBoard 5 (1, 1) (3, 3) (Some (2, 2)), 0)))) (2, 2)
     = nodes (squareBoard 5 (1, 1) (3, 3) (Some (2, 2))) (2, 2) \<and>
   \<not> placedAfter (map_option fst (generateRandomMaze lowDraws
       (squareBoard 5 (1, 1) (3, 3) (Some (2, 2)), 0))) (2, 2) \<and>
   cleared (fst (the (generateRandomMaze lowDraws (squareBoard 5 (1, 1) (3, 3) (Some (2, 2)), 0)))) (1, 2) \<and>
   stairMaze noElements (squareBoard 7 (2, 2) (5, 5) None) \<noteq> None \<and>
   nodes (the (stairMaze noElements (squareBoard 7 (2, 2) (5, 5) None))) (2, 2)
     = nodes (squareBoard 7 (2, 2) (5, 5) None) (2, 2) \<and>
   \<not> placedAfter (stairMaze noElements (squareBoard 7 (2, 2) (5, 5) None)) (2, 2)"
proof -
  let ?b1 = "squareBoard 7 (1, 1) (5, 5) (Some (2, 3))"
  let ?b2 = "squareBoard 7 (1, 1) (5, 5) (Some (2, 4))"
  let ?b3 = "squareBoard 5 (1, 1) (3, 3) (Some (2, 2))"
  let ?b4 = "squareBoard 7 (2, 2) (5, 5) None"
  have "generateRecursiveMaze lowDraws ''wall'' (?b1, 0) 2 4 2 4 ''horizontal'' True \<noteq> None"
    by code_simp
  then obtain r1 where
    r1: "generateRecursiveMaze lowDraws ''wall'' (?b1, 0) 2 4 2 4 ''horizontal'' True = Some r1"
    by blast
  have "generateBasicRandomMaze lowDraws descendingRun (?b2, 0) \<noteq> None" by code_simp
  then obtain r2 where r2: "generateBasicRandomMaze lowDraws descendingRun (?b2, 0) = Some r2"
    by blast
  have "generateRandomMaze lowDraws (?b3, 0) \<noteq> None" by code_simp
  then obtain r3 where r3: "generateRandomMaze lowDraws (?b3, 0) = Some r3" by blast
  have "stairMaze noElements ?b4 \<noteq> None" by code_simp
  then obtain r4 where r4: "stairMaze noElements ?b4 = Some r4" by blast
  have special: "isSpecialNode ?b1 (2, 3)" "isSpecialNode ?b2 (2, 4)" "isSpecialNode ?b3 (2, 2)"
    "isSpecialNodeStair ?b4 (2, 2)" "\<not> isSpecialNode ?b2 (2, 2)" "\<not> isSpecialNode ?b3 (1, 2)"
    by code_simp+
  have inside: "inBoard ?b2 (2, 2)" "inBoard ?b3 (1, 2)" "near (start ?b2) (2, 2)" "near (start ?b3) (1, 2)"
    by code_simp+
  have empty: "wallsToAnimate ?b1 = []" "wallsToAnimate ?b2 = []" "wallsToAnimate ?b3 = []"
    "wallsToAnimate ?b4 = []"
    by (simp_all add: squareBoard_def)
  note c4 = C4_special_nodes_kept_and_cleared [where ?rnd1.0 = lowDraws and ty = "''wall''"
      and ?bk1.0 = "(?b1, 0)" and rowStart = 2 and rowEnd = 4 and colStart = 2 and colEnd = 4
      and orientation = "''horizontal''" and surrounding = True and ?bk1' = r1
      and ?rnd2.0 = lowDraws and srt = descendingRun and ?bk2.0 = "(?b2, 0)" and ?bk2' = r2
      and ?rnd3.0 = lowDraws and ?bk3.0 = "(?b3, 0)" and ?bk3' = r3
      and hasElement = noElements and ?b4.0 = ?b4 and ?b4' = r4]
  from c4 r1 have f1: "frame isSpecialNode ?b1 (fst r1)" by simp
  from c4 r2 have f2: "frame isSpecialNode ?b2 (fst r2)"
    and c2: "clearedAround (fst r2) (start ?b2)" by simp_all
  from c4 r3 have f3: "frame isSpecialNode ?b3 (fst r3)"
    and c3: "clearedAround (fst r3) (start ?b3)" by simp_all
  from c4 r4 have f4: "frame isSpecialNodeStair ?b4 r4" by simp
  have n1: "nodes (fst r1) (2, 3) = nodes ?b1 (2, 3)"
    using f1 special(1) by (simp add: frame_def)
  have n2: "nodes (fst r2) (2, 4) = nodes ?b2 (2, 4)"
    using f2 special(2) by (simp add: frame_def)
  have n3: "nodes (fst r3) (2, 2) = nodes ?b3 (2, 2)"
    using f3 special(3) by (simp add: frame_def)
  have n4: "nodes r4 (2, 2) = nodes ?b4 (2, 2)"
    using f4 special(4) by (simp add: frame_def)
  have p1: "\<not> placedAfter (Some (fst r1)) (2, 3)"
    using not_placed [of "isSpecialNode ?b1" "wallsToAnimate (fst r1)" "(2, 3)"] f1 special(1) empty(1)
    by (simp add: frame_def placedAfter_def placementsOn_def)
  have p2: "\<not> placedAfter (Some (fst r2)) (2, 4)"
    using not_placed [of "isSpecialNode ?b2" "wallsToAnimate (fst r2)" "(2, 4)"] f2 special(2) empty(2)
    by (simp add: frame_def placedAfter_def placementsOn_def)
  have p3: "\<not> placedAfter (Some (fst r3)) (2, 2)"
    using not_placed [of "isSpecialNode ?b3" "wallsToAnimate (fst r3)" "(2, 2)"] f3 special(3) empty(3)
    by (simp add: frame_def placedAfter_def placementsOn_def)
  have p4: "\<not> placedAfter (Some r4) (2, 2)"
    using not_placed [of "isSpecialNodeStair ?b4" "wallsToAnimate r4" "(2, 2)"] f4 special(4) empty(4)
    by (simp add: frame_def placedAfter_def placementsOn_def)
  have o2: "cleared (fst r2) (2, 2)"
    using c2 inside(1,3) special(5) isSpecialNode_frame [OF f2] inBoard_frame [OF f2]
    by (simp add: clearedAround_def)
  have o3: "cleared (fst r3) (1, 2)"
    using c3 inside(2,4) special(6) isSpecialNode_frame [OF f3] inBoard_frame [OF f3]
    by (simp add: clearedAround_def)
  from n1 n2 n3 n4 p1 p2 p3 p4 o2 o3 show ?thesis by (simp add: r1 r2 r3 r4)
qed

section \<open>Relaxation\<close>

lemma astar_loop_distance_le:
  assumes I0: "wf_grid g0 \<and> inb g = inb g0 \<and> wf_grid g \<and>
               (\<forall>p\<in>set u. inb g0 p) \<and> distance (nodeAt g q) \<le> distance (nodeAt g0 q)"
  shows "distance (nodeAt (fst (snd (astarInstant sp fin g u v doc))) q) \<le> distance (nodeAt g0 q) \<and>
         distance (nodeAt (fst (snd (astarAnimated sp fin g u v doc))) q) \<le> distance (nodeAt g0 q)"
proof -
  let ?I = "\<lambda>g u (v :: pos list). wf_grid g0 \<and> inb g = inb g0 \<and> wf_grid g \<and>
               (\<forall>p\<in>set u. inb g0 p) \<and> distance (nodeAt g q) \<le> distance (nodeAt g0 q)"
  let ?Q = "\<lambda>(v :: pos list) g. distance (nodeAt g q) \<le> distance (nodeAt g0 q)"
  have wall: "?I g rest v"
    if "?I g u v" "sortNodesByTotalDistance g u = c # rest" "isWall (nodeAt g c)"
    for g u v c rest
  proof -
    from that(2) have "set u = set (c # rest)"
      by (metis set_sort sortNodesByTotalDistance_def)
    with that(1) show ?thesis by simp
  qed
  have step: "?I (updateUnvisitedNeighborsAstar c (markVisited g c) fin) rest (v @ [c])"
    if "?I g u v" "sortNodesByTotalDistance g u = c # rest" "\<not> isWall (nodeAt g c)"
       "totalDistance (nodeAt g c) = enat k" "c \<noteq> fin"
    for g u v c rest k
  proof -
    from that(2) have su: "set u = set (c # rest)"
      by (metis set_sort sortNodesByTotalDistance_def)
    with that(1) have c: "inb (markVisited g c) c" by (simp add: markVisited_def)
    have wf: "wf_grid (markVisited g c)" using that(1) by simp
    have "distance (nodeAt (updateUnvisitedNeighborsAstar c (markVisited g c) fin) q)
            \<le> distance (nodeAt (markVisited g c) q)"
      by (simp add: nodeAt_updateUnvisitedNeighborsAstar [OF wf c] less_imp_le)
    also have "\<dots> = distance (nodeAt g q)"
      by (simp add: markVisited_def nodeAt_updNode)
    also have "\<dots> \<le> distance (nodeAt g0 q)"
      using that(1) by simp
    finally have le: "distance (nodeAt (updateUnvisitedNeighborsAstar c (markVisited g c) fin) q)
            \<le> distance (nodeAt g0 q)" .
    have "inb (updateUnvisitedNeighborsAstar c (markVisited g c) fin) = inb g0"
      using that(1) by (simp add: fun_eq_iff markVisited_def)
    moreover have "wf_grid (updateUnvisitedNeighborsAstar c (markVisited g c) fin)"
      using wf c by (rule wf_grid_updateUnvisitedNeighborsAstar)
    moreover have "\<forall>p\<in>set rest. inb g0 p" using that(1) su by simp
    ultimately show ?thesis using that(1) le by simp
  qed
  have empty: "?Q v g" if "?I g u v" "sortNodesByTotalDistance g u = []" for g u v
    using that(1) by simp
  have inf: "?Q v g"
    if "?I g u v" "sortNodesByTotalDistance g u = c # rest" "\<not> isWall (nodeAt g c)"
       "totalDistance (nodeAt g c) = \<infinity>"
    for g u v c rest
    using that(1) by simp
  have found: "?Q (v @ [c]) (markVisited g c)"
    if "?I g u v" "sortNodesByTotalDistance g u = c # rest" "\<not> isWall (nodeAt g c)"
       "totalDistance (nodeAt g c) = enat k" "c = fin"
    for g u v c rest k
    using that(1) by (simp add: markVisited_def nodeAt_updNode)
  have "?Q (fst (astarInstant sp fin g u v doc)) (fst (snd (astarInstant sp fin g u v doc)))"
    by (rule astarInstant_rule [where I = ?I and Q = ?Q, OF I0 wall step empty inf found])
  moreover
  have "?Q (fst (astarAnimated sp fin g u v doc)) (fst (snd (astarAnimated sp fin g u v doc)))"
    by (rule astarAnimated_rule [where I = ?I and Q = ?Q, OF I0 wall step empty inf found])
  ultimately show ?thesis by simp
qed

text \<open>
  C2, as the specification states it, for Dijkstra: a neighbour is assigned only when
  \<open>current.distance + 1 < neighbor.distance\<close>, so no distance increases during a
  search. In the search from (0,0) on the 3 by 3 grid with the wall (1,1), when (2,1), at
  distance 3, is finalized, the open cell (2,2) has the distance 4 and
  \<open>previousNode\<close> (1,2); the relaxation of (2,1) assigns it all the same and leaves
  \<open>previousNode\<close> (2,1), which is what the search towards (2,2) returns. And the wall
  (1,1) has distance 2 when (1,2), at distance 3, is finalized; the relaxation of (1,2)
  assigns the wall the distance 4, and that is what the search towards (2,2) leaves.
\<close>

theorem C2_dijkstra_relaxation_counterexample:
  "\<not> isWall (nodeAt wallGrid3 (2, 2)) \<and>
   distance (nodeAt (fst (snd (dijkstra wallGrid3 (0, 0) (2, 1) ''instant'' False plainDocument))) (2, 1)) = 3 \<and>
   distance (nodeAt (fst (snd (dijkstra wallGrid3 (0, 0) (2, 1) ''instant'' False plainDocument))) (2, 2)) = 4 \<and>
   previousNode (nodeAt (fst (snd (dijkstra wallGrid3 (0, 0) (2, 1) ''instant'' False plainDocument))) (2, 2))
     = Some (1, 2) \<and>
   \<not> (distance (nodeAt (fst (snd (dijkstra wallGrid3 (0, 0) (2, 1) ''instant'' False plainDocument))) (2, 1)) + 1
        < distance (nodeAt (fst (snd (dijkstra wallGrid3 (0, 0) (2, 1) ''instant'' False plainDocument))) (2, 2))) \<and>
   previousNode (nodeAt (updateUnvisitedNeighbors (2, 1)
        (fst (snd (dijkstra wallGrid3 (0, 0) (2, 1) ''instant'' False plainDocument)))) (2, 2))
     = Some (2, 1) \<and>
   previousNode (nodeAt (fst (snd (dijkstra wallGrid3 (0, 0) (2, 2) ''instant'' False plainDocument))) (2, 2))
     = Some (2, 1) \<and>
   isWall (nodeAt wallGrid3 (1, 1)) \<and>
   distance (nodeAt (fst (snd (dijkstra wallGrid3 (0, 0) (1, 2) ''instant'' False plainDocument))) (1, 1)) = 2 \<and>
   distance (nodeAt (fst (snd (dijkstra wallGrid3 (0, 0) (1, 2) ''instant'' False plainDocument))) (1, 2)) = 3 \<and>
   \<not> (distance (nodeAt (fst (snd (dijkstra wallGrid3 (0, 0) (1, 2) ''instant'' False plainDocument))) (1, 2)) + 1
        < distance (nodeAt (fst (snd (dijkstra wallGrid3 (0, 0) (1, 2) ''instant'' False plainDocument))) (1, 1))) \<and>
   distance (nodeAt (updateUnvisitedNeighbors (1, 2)
        (fst (snd (dijkstra wallGrid3 (0, 0) (1, 2) ''instant'' False plainDocument)))) (1, 1)) = 4 \<and>
   distance (nodeAt (fst (snd (dijkstra wallGrid3 (0, 0) (2, 2) ''instant'' False plainDocument))) (1, 1)) = 4"
  by code_simp

text \<open>
  C2, amended. In a well-formed grid, for a relaxation step at the node \<open>nd\<close> and any
  node \<open>q\<close>: the step of A* never increases the distance of \<open>q\<close>, and it changes \<open>q\<close>
  only if \<open>q\<close> is an unvisited neighbour with \<open>nd.distance + 1 < q.distance\<close>; from
  any state on, the loops of A* leave \<open>q\<close> a distance that is not larger. The step of
  Dijkstra assigns \<open>nd.distance + 1\<close> and \<open>previousNode = nd\<close> to every unvisited
  neighbour, whatever its distance was. All the same, during a search of Dijkstra, at
  either speed, the distance of a node that is not a wall never increases: from one
  state of the loop to any later one, and from any state to the grid the search
  returns, which is the result of the loop run from that state.
\<close>

theorem C2_relaxation:
  assumes "wf_grid g" "inb g nd" "inb g q"
  shows "distance (nodeAt (updateUnvisitedNeighborsAstar nd g fin) q) \<le> distance (nodeAt g q) \<and>
         (nodeAt (updateUnvisitedNeighborsAstar nd g fin) q \<noteq> nodeAt g q \<longrightarrow>
            q \<in> set (getUnvisitedNeighbors nd g) \<and>
            distance (nodeAt g nd) + 1 < distance (nodeAt g q)) \<and>
         (list_all (inb g) u \<longrightarrow>
            distance (nodeAt (fst (snd (astarInstant sp fin g u v doc))) q) \<le> distance (nodeAt g q) \<and>
            distance (nodeAt (fst (snd (astarAnimated sp fin g u v doc))) q) \<le> distance (nodeAt g q)) \<and>
         (q \<in> set (getUnvisitedNeighbors nd g) \<longrightarrow>
            distance (nodeAt (updateUnvisitedNeighbors nd g) q) = distance (nodeAt g nd) + 1 \<and>
            previousNode (nodeAt (updateUnvisitedNeighbors nd g) q) = Some nd) \<and>
         (inb g s \<and> \<not> isWall (nodeAt g q) \<and> m \<le> n \<and>
          dijkstraStateAt g s e m = Some st \<and> dijkstraStateAt g s e n = Some st' \<longrightarrow>
            distance (nodeAt (fst st') q) \<le> distance (nodeAt (fst st) q) \<and>
            distance (nodeAt (fst (snd (dijkstra g s e speed sp doc))) q) \<le> distance (nodeAt (fst st') q) \<and>
            fst (dijkstra g s e speed sp doc)
              = fst (dijkstraInstant sp e (fst st') (fst (snd st')) (snd (snd st')) doc) \<and>
            fst (snd (dijkstra g s e speed sp doc))
              = fst (snd (dijkstraInstant sp e (fst st') (fst (snd st')) (snd (snd st')) doc)))"
proof (intro conjI impI)
  show "distance (nodeAt (updateUnvisitedNeighborsAstar nd g fin) q) \<le> distance (nodeAt g q)"
    by (simp add: nodeAt_updateUnvisitedNeighborsAstar [OF assms(1,2)] less_imp_le)
next
  assume "nodeAt (updateUnvisitedNeighborsAstar nd g fin) q \<noteq> nodeAt g q"
  then show "q \<in> set (getUnvisitedNeighbors nd g)"
    and "distance (nodeAt g nd) + 1 < distance (nodeAt g q)"
    by (auto simp: nodeAt_updateUnvisitedNeighborsAstar [OF assms(1,2)]
          set_getUnvisitedNeighbors [OF assms(1,2)] split: if_splits)
next
  assume u: "list_all (inb g) u"
  then have "wf_grid g \<and> inb g = inb g \<and> wf_grid g \<and>
             (\<forall>p\<in>set u. inb g p) \<and> distance (nodeAt g q) \<le> distance (nodeAt g q)"
    using assms(1) by (simp add: list_all_iff)
  from astar_loop_distance_le [OF this]
  show "distance (nodeAt (fst (snd (astarInstant sp fin g u v doc))) q) \<le> distance (nodeAt g q)"
    and "distance (nodeAt (fst (snd (astarAnimated sp fin g u v doc))) q) \<le> distance (nodeAt g q)"
    by simp_all
next
  assume "q \<in> set (getUnvisitedNeighbors nd g)"
  then show "distance (nodeAt (updateUnvisitedNeighbors nd g) q) = distance (nodeAt g nd) + 1"
    and "previousNode (nodeAt (updateUnvisitedNeighbors nd g) q) = Some nd"
    by (simp_all add: nodeAt_updateUnvisitedNeighbors [OF assms(1,2)]
          set_getUnvisitedNeighbors [OF assms(1,2)])
next
  assume a: "inb g s \<and> \<not> isWall (nodeAt g q) \<and> m \<le> n \<and>
             dijkstraStateAt g s e m = Some st \<and> dijkstraStateAt g s e n = Some st'"
  then have s: "inb g s" and w: "\<not> isWall (nodeAt g q)" and mn: "m \<le> n"
    and st: "dijkstraStateAt g s e m = Some st" and st': "dijkstraStateAt g s e n = Some st'"
    by simp_all
  show "distance (nodeAt (fst st') q) \<le> distance (nodeAt (fst st) q)"
    by (rule dijkstraStateAt_open [OF assms(1) s assms(3) w mn st st'])
  show "distance (nodeAt (fst (snd (dijkstra g s e speed sp doc))) q) \<le> distance (nodeAt (fst st') q)"
    by (rule dijkstra_open_after_state [OF assms(1) s assms(3) w st'])
  from dijkstraStateAt_loop [OF st', of speed sp doc]
  show "fst (dijkstra g s e speed sp doc)
          = fst (dijkstraInstant sp e (fst st') (fst (snd st')) (snd (snd st')) doc)"
    and "fst (snd (dijkstra g s e speed sp doc))
          = fst (snd (dijkstraInstant sp e (fst st') (fst (snd st')) (snd (snd st')) doc))"
    by simp_all
qed

theorem C2_relaxation_witness:
  "wf_grid (fst (snd (astar wallGrid3 (0, 0) (0, 0) ''instant'' False plainDocument))) \<and>
   inb (fst (snd (astar wallGrid3 (0, 0) (0, 0) ''instant'' False plainDocument))) (0, 0) \<and>
   inb (fst (snd (astar wallGrid3 (0, 0) (0, 0) ''instant'' False plainDocument))) (0, 1) \<and>
   (0, 1) \<in> set (getUnvisitedNeighbors (0, 0)
        (fst (snd (astar wallGrid3 (0, 0) (0, 0) ''instant'' False plainDocument)))) \<and>
   distance (nodeAt (updateUnvisitedNeighborsAstar (0, 0)
        (fst (snd (astar wallGrid3 (0, 0) (0, 0) ''instant'' False plainDocument))) (2, 2)) (0, 1))
     \<le> distance (nodeAt (fst (snd (astar wallGrid3 (0, 0) (0, 0) ''instant'' False plainDocument))) (0, 1)) \<and>
   previousNode (nodeAt (updateUnvisitedNeighbors (0, 0)
        (fst (snd (astar wallGrid3 (0, 0) (0, 0) ''instant'' False plainDocument)))) (0, 1))
     = Some (0, 0) \<and>
   wf_grid wallGrid3 \<and> inb wallGrid3 (0, 0) \<and> inb wallGrid3 (2, 2) \<and>
   \<not> isWall (nodeAt wallGrid3 (2, 2)) \<and>
   dijkstraStateAt wallGrid3 (0, 0) (2, 2) 7 \<noteq> None \<and>
   dijkstraStateAt wallGrid3 (0, 0) (2, 2) 8 \<noteq> None \<and>
   distance (nodeAt (fst (the (dijkstraStateAt wallGrid3 (0, 0) (2, 2) 8))) (2, 2))
     \<le> distance (nodeAt (fst (the (dijkstraStateAt wallGrid3 (0, 0) (2, 2) 7))) (2, 2)) \<and>
   distance (nodeAt (fst (snd (dijkstra wallGrid3 (0, 0) (2, 2) ''instant'' False plainDocument))) (2, 2))
     \<le> distance (nodeAt (fst (the (dijkstraStateAt wallGrid3 (0, 0) (2, 2) 8))) (2, 2))"
proof -
  let ?g = "fst (snd (astar wallGrid3 (0, 0) (0, 0) ''instant'' False plainDocument))"
  have h1: "wf_grid ?g" by code_simp
  have h2: "inb ?g (0, 0)" by code_simp
  have h3: "inb ?g (0, 1)" by code_simp
  have m: "(0, 1) \<in> set (getUnvisitedNeighbors (0, 0) ?g)" by code_simp
  have d1: "wf_grid wallGrid3" by code_simp
  have d2: "inb wallGrid3 (0, 0)" by code_simp
  have d3: "inb wallGrid3 (2, 2)" by code_simp
  have d4: "\<not> isWall (nodeAt wallGrid3 (2, 2))" by code_simp
  have "dijkstraStateAt wallGrid3 (0, 0) (2, 2) 7 \<noteq> None" by code_simp
  then obtain st where st: "dijkstraStateAt wallGrid3 (0, 0) (2, 2) 7 = Some st" by blast
  have "dijkstraStateAt wallGrid3 (0, 0) (2, 2) 8 \<noteq> None" by code_simp
  then obtain st' where st': "dijkstraStateAt wallGrid3 (0, 0) (2, 2) 8 = Some st'" by blast
  have le: "(7 :: nat) \<le> 8" by simp
  from C2_relaxation [OF h1 h2 h3, of "(2, 2)" "[]" False "[]" plainDocument] m h1 h2 h3
  have astar_part: "distance (nodeAt (updateUnvisitedNeighborsAstar (0, 0) ?g (2, 2)) (0, 1))
       \<le> distance (nodeAt ?g (0, 1)) \<and>
     previousNode (nodeAt (updateUnvisitedNeighbors (0, 0) ?g) (0, 1)) = Some (0, 0)"
    by blast
  from C2_relaxation [OF d1 d2 d3, where s = "(0, 0)" and e = "(2, 2)" and m = 7 and n = 8
      and st = st and st' = st' and speed = "''instant''" and sp = False and doc = plainDocument]
    d2 d4 le st st'
  have dijkstra_part: "distance (nodeAt (fst st') (2, 2)) \<le> distance (nodeAt (fst st) (2, 2)) \<and>
     distance (nodeAt (fst (snd (dijkstra wallGrid3 (0, 0) (2, 2) ''instant'' False plainDocument))) (2, 2))
       \<le> distance (nodeAt (fst st') (2, 2))"
    by blast
  from astar_part dijkstra_part h1 h2 h3 m d1 d2 d3 d4 show ?thesis by (simp add: st st')
qed

section \<open>Joining cells\<close>



lemma joined_free:
  assumes "joined b S c d"
  shows "S c \<and> freeCell b c \<and> S d \<and> freeCell b d"
proof -
  from assms obtain ps where ps: "ps \<noteq> []" "list_all (\<lambda>c. S c \<and> freeCell b c) ps"
    "hd ps = c" "last ps = d"
    unfolding joined_def pathIn_def by blast
  from ps(1) have "hd ps \<in> set ps" "last ps \<in> set ps" by simp_all
  with ps(2,3,4) show ?thesis by (auto simp: list_all_iff)
qed










section \<open>What recursive division leaves as it was\<close>








section \<open>A divided rectangle stays in one piece\<close>




section \<open>Recursive division keeps the hull of its region in one piece\<close>




section \<open>The whole field stays in one piece\<close>





section \<open>Cells cut off\<close>



section \<open>Recursive division returns\<close>








section \<open>Recursive division and the path from the start to the target\<close>




end
